(* ===== verification/Prelude.thy ===== *)
theory Prelude
  imports Main "HOL-Library.Word" "HOL-Library.Signed_Division"
begin

text \<open>
  Shared vocabulary of the development: the machine integers of the i386 target, the
  failures of the C code as values of an error type, sequencing of fallible steps,
  bounded loops, and the \<open>ALIGN\<close> macro of \<^verbatim>\<open>libc/include/stdlib.h\<close>.
  The generic facts on words and on alignment that the component theories use are proved here.
\<close>

unbundle bit_operations_syntax

section \<open>Machine integers\<close>

type_synonym u8 = "8 word"
type_synonym u16 = "16 word"
type_synonym u32 = "32 word"

section \<open>Failures\<close>

text \<open>
  What can happen to a call besides returning: an access outside of an array, a dereference
  of \<open>NULL\<close> or of an address that holds no object of the type, a call of \<open>panic\<close>
  (which never returns), a busy wait whose device never answers, and a recursion or a loop
  that outruns the bound a definition gives it.
\<close>

datatype kerr =
    OutOfBounds
  | NullDeref
  | BadPointer
  | Panic string
  | Blocked
  | OutOfFuel

type_synonym 'a res = "kerr + 'a"

definition res_bind :: "'a res \<Rightarrow> ('a \<Rightarrow> 'b res) \<Rightarrow> 'b res" where
  "res_bind m f = (case m of Inl e \<Rightarrow> Inl e | Inr x \<Rightarrow> f x)"

lemma res_bind_Inl [simp]: "res_bind (Inl e) f = Inl e"
  by (simp add: res_bind_def)

lemma res_bind_Inr [simp]: "res_bind (Inr x) f = f x"
  by (simp add: res_bind_def)

lemma res_bind_cong [fundef_cong]:
  "m = m' \<Longrightarrow> (\<And>x. m' = Inr x \<Longrightarrow> f x = f' x) \<Longrightarrow> res_bind m f = res_bind m' f'"
  by (auto simp: res_bind_def split: sum.splits)

lemma res_bind_eq_Inr:
  "res_bind m f = Inr y \<longleftrightarrow> (\<exists>x. m = Inr x \<and> f x = Inr y)"
  by (cases m) auto

lemma res_bind_eq_Inl:
  "res_bind m f = Inl e \<longleftrightarrow> m = Inl e \<or> (\<exists>x. m = Inr x \<and> f x = Inl e)"
  by (cases m) auto

lemma res_bind_assoc: "res_bind (res_bind m f) g = res_bind m (\<lambda>x. res_bind (f x) g)"
  by (cases m) auto

lemma res_bindE [elim]:
  assumes "res_bind m f = Inr y"
  obtains x where "m = Inr x" and "f x = Inr y"
  using assms by (auto simp: res_bind_eq_Inr)

text \<open>A handler that returns, or one that stops the machine in the state it has reached.\<close>

datatype 'a outcome = Returned 'a | Halted 'a

section \<open>Bounded loops\<close>

text \<open>
  \<open>while_res n g b s\<close> runs \<^verbatim>\<open>while (g) b\<close> from \<open>s\<close>, with at most \<open>n\<close> rounds.
  Each use gives a bound that its loop never reaches, which \<open>while_res_total\<close> turns into
  a proof that the loop ends.
\<close>

fun while_res :: "nat \<Rightarrow> ('s \<Rightarrow> bool) \<Rightarrow> ('s \<Rightarrow> 's res) \<Rightarrow> 's \<Rightarrow> 's res" where
  "while_res 0 g b s = (if g s then Inl OutOfFuel else Inr s)"
| "while_res (Suc n) g b s = (if g s then res_bind (b s) (while_res n g b) else Inr s)"

lemma while_res_stop [simp]: "\<not> g s \<Longrightarrow> while_res n g b s = Inr s"
  by (cases n) auto

lemma while_res_guard: "while_res n g b s = Inr s' \<Longrightarrow> \<not> g s'"
  by (induction n g b s rule: while_res.induct) (auto split: if_splits)

lemma while_res_inv:
  assumes "while_res n g b s = Inr s'" and "I s"
    and "\<And>s s'. I s \<Longrightarrow> g s \<Longrightarrow> b s = Inr s' \<Longrightarrow> I s'"
  shows "I s'"
  using assms by (induction n g b s rule: while_res.induct) (auto split: if_splits)

lemma while_res_total:
  assumes "I s" and "f s \<le> n"
    and "\<And>s. I s \<Longrightarrow> g s \<Longrightarrow> \<exists>s'. b s = Inr s' \<and> I s' \<and> f s' < (f s :: nat)"
  shows "\<exists>s'. while_res n g b s = Inr s' \<and> I s' \<and> \<not> g s'"
  using assms
proof (induction n arbitrary: s)
  case 0
  then show ?case by fastforce
next
  case (Suc n)
  show ?case
  proof (cases "g s")
    case True
    with Suc.prems obtain s1 where "b s = Inr s1" "I s1" "f s1 < f s" by blast
    with Suc.IH [of s1] Suc.prems True show ?thesis by auto
  next
    case False
    with Suc.prems show ?thesis by simp
  qed
qed

section \<open>Lists indexed as C arrays\<close>

text \<open>A read or a write outside of the array is an error; \<open>xs ! i\<close> alone would hide it.\<close>

definition arr_get :: "'a list \<Rightarrow> nat \<Rightarrow> 'a res" where
  "arr_get xs i = (if i < length xs then Inr (xs ! i) else Inl OutOfBounds)"

definition arr_set :: "'a list \<Rightarrow> nat \<Rightarrow> 'a \<Rightarrow> 'a list res" where
  "arr_set xs i v = (if i < length xs then Inr (xs[i := v]) else Inl OutOfBounds)"

lemma arr_get_Inr [simp]: "arr_get xs i = Inr v \<longleftrightarrow> i < length xs \<and> xs ! i = v"
  by (auto simp: arr_get_def)

lemma arr_set_Inr [simp]: "arr_set xs i v = Inr ys \<longleftrightarrow> i < length xs \<and> ys = xs[i := v]"
  by (auto simp: arr_set_def)

lemma arr_get_in [simp]: "i < length xs \<Longrightarrow> arr_get xs i = Inr (xs ! i)"
  by (simp add: arr_get_def)

section \<open>The ALIGN macro\<close>

definition ALIGN :: "u32 \<Rightarrow> u32 \<Rightarrow> u32" where
  "ALIGN value alignment = (value + (alignment - 1)) AND NOT (alignment - 1)"

abbreviation PAGE_SIZE :: u32 where "PAGE_SIZE \<equiv> 0x1000"
abbreviation FRAME_SIZE :: u32 where "FRAME_SIZE \<equiv> 0x1000"

lemma word_and_not_mask12: "x AND NOT (0xFFF :: u32) = push_bit 12 (drop_bit 12 x)"
proof (rule bit_eqI)
  fix n
  have m: "(0xFFF :: u32) = mask 12" by (simp add: mask_eq_exp_minus_1)
  show "bit (x AND NOT (0xFFF :: u32)) n = bit (push_bit 12 (drop_bit 12 x)) n" if "possible_bit TYPE(u32) n"
    using that unfolding m by (auto simp: bit_simps)
qed

lemma unat_u32_less [simp]: "unat (x :: u32) < 4294967296"
  using unsigned_less [of x, where ?'a = nat] by simp

lemma unat_and_not_4095: "unat (x AND - (0x1000 :: u32)) = unat x div 4096 * 4096"
proof -
  have "unat x div 4096 * 4096 \<le> unat x" by simp
  then have le: "unat x div 4096 * 4096 < 4294967296" 
    using unat_u32_less [of x] by (rule le_less_trans)
  have "unat x div 4096 < 4294967296" 
    using unat_u32_less [of x] by (rule le_less_trans [OF div_le_dividend])
  with le have "unat (push_bit 12 (drop_bit 12 x)) = unat x div 4096 * 4096"
    by (simp add: push_bit_eq_mult drop_bit_eq_div unat_word_ariths unat_div)
  moreover have "x AND - (0x1000 :: u32) = push_bit 12 (drop_bit 12 x)"
    using word_and_not_mask12 [of x] by simp
  ultimately show ?thesis by simp
qed

lemma unat_ALIGN: "unat (ALIGN v PAGE_SIZE) = ((unat v + 4095) mod 2 ^ 32) div 4096 * 4096"
  by (simp add: ALIGN_def unat_and_not_4095 unat_word_ariths)

definition page_aligned :: "u32 \<Rightarrow> bool" where
  "page_aligned a \<longleftrightarrow> unat a mod 4096 = 0"

lemma page_aligned_ALIGN [simp]: "page_aligned (ALIGN v PAGE_SIZE)"
  by (simp add: page_aligned_def unat_ALIGN)

lemma unat_ALIGN_no_wrap:
  "unat v \<le> 0xFFFFF000 \<Longrightarrow> unat (ALIGN v PAGE_SIZE) = (unat v + 4095) div 4096 * 4096"
  by (simp add: unat_ALIGN)

lemma ALIGN_ge:
  assumes "unat v \<le> 0xFFFFF000" shows "v \<le> ALIGN v PAGE_SIZE"
  using unat_ALIGN_no_wrap [OF assms] by (simp add: word_le_nat_alt)

lemma ALIGN_less:
  assumes "unat v \<le> 0xFFFFF000" shows "unat (ALIGN v PAGE_SIZE) < unat v + 4096"
  using unat_ALIGN_no_wrap [OF assms] by simp

lemma page_alignedE:
  assumes "page_aligned v"
  obtains q where "unat v = 4096 * q" and "q \<le> 0xFFFFF"
proof -
  from assms obtain q where q: "unat v = 4096 * q"
    by (auto simp: page_aligned_def elim: dvdE simp flip: dvd_eq_mod_eq_0)
  moreover have "q \<le> 0xFFFFF" using q unat_u32_less [of v] by linarith
  ultimately show ?thesis using that by blast
qed

lemma ALIGN_aligned:
  assumes "page_aligned v" shows "ALIGN v PAGE_SIZE = v"
proof -
  from assms obtain q where "unat v = 4096 * q" "q \<le> 0xFFFFF" by (rule page_alignedE)
  then have "unat (ALIGN v PAGE_SIZE) = unat v" by (subst unat_ALIGN_no_wrap) auto
  then show ?thesis by (simp add: word_unat_eq_iff)
qed

lemma unat_and_4095: "unat (x AND (0xFFF :: u32)) = unat x mod 4096"
proof -
  have m: "(0xFFF :: u32) = mask 12" by (simp add: mask_eq_exp_minus_1)
  show ?thesis unfolding m
    by (simp add: flip: take_bit_eq_mask) (simp add: unat_mod take_bit_eq_mod)
qed

section \<open>Further facts on words\<close>

lemma unat_drop_bit_div: "unat (drop_bit j (x :: u32)) = unat x div 2 ^ j"
  by (subst unat_drop_bit_eq) (simp add: drop_bit_eq_div)

lemma sint_small: "unat w < 2 ^ 31 \<Longrightarrow> sint (w :: u32) = int (unat w)"
proof -
  assume "unat w < 2 ^ 31"
  then have "uint w < 2 ^ 31" by (metis of_nat_less_numeral_power_cancel_iff of_nat_unat)
  then show ?thesis using int_word_sint [of "int (unat w)", where ?'a = 32] by simp
qed

lemma sdiv_nonneg: "0 \<le> a \<Longrightarrow> 0 < b \<Longrightarrow> a sdiv b = a div (b :: int)"
  by (cases "a = 0") (auto simp: signed_divide_int_def)

lemma bytes_sdiv: "(int q + 7) sdiv 8 = int ((q + 7) div 8)"
  by (simp add: sdiv_nonneg zdiv_int)

lemma mod_ring: "x < 2 * n \<Longrightarrow> x mod n = (if x < n then x else x - n)" for x n :: nat
  by (simp add: le_mod_geq)

section \<open>Repeated calls\<close>

fun repeat_res :: "nat \<Rightarrow> ('s \<Rightarrow> ('a \<times> 's) res) \<Rightarrow> 's \<Rightarrow> ('a list \<times> 's) res" where
  "repeat_res 0 f s = Inr ([], s)"
| "repeat_res (Suc n) f s =
     res_bind (f s) (\<lambda>(x, s1). res_bind (repeat_res n f s1) (\<lambda>(xs, s2). Inr (x # xs, s2)))"

end
