(* ===== verification/Keyboard.thy ===== *)
theory Keyboard
  imports Prelude
begin

text \<open>
  The keyboard driver (\<^verbatim>\<open>kernel/arch/i386/kb.c\<close>): the ring buffer between the interrupt
  handler and \<open>keyboard_getchar\<close>, the scancode table, and the handler. The buffer is refined to
  a bounded first-in first-out queue, stated as a locale that \<open>keyboard_buffer_put\<close> and
  \<open>keyboard_getchar\<close> interpret; the interleavings of interrupts and reads are explicit lists
  of events.
\<close>

section \<open>State and operations\<close>

abbreviation KEYBOARD_BUFFER_SIZE :: nat where "KEYBOARD_BUFFER_SIZE \<equiv> 128"

record kb_state =
  keyboard_buffer :: "u8 list"
  buffer_start :: nat
  buffer_end :: nat

definition kb_init :: kb_state where
  "kb_init = \<lparr>keyboard_buffer = replicate KEYBOARD_BUFFER_SIZE 0, buffer_start = 0, buffer_end = 0\<rparr>"

definition is_buffer_empty :: "kb_state \<Rightarrow> bool" where
  "is_buffer_empty s \<longleftrightarrow> buffer_start s = buffer_end s"

definition is_buffer_full :: "kb_state \<Rightarrow> bool" where
  "is_buffer_full s \<longleftrightarrow> (buffer_end s + 1) mod KEYBOARD_BUFFER_SIZE = buffer_start s"

definition keyboard_buffer_put :: "u8 \<Rightarrow> kb_state \<Rightarrow> kb_state res" where
  "keyboard_buffer_put c s =
     (if \<not> is_buffer_full s
      then res_bind (arr_set (keyboard_buffer s) (buffer_end s) c) (\<lambda>b.
           Inr (s\<lparr>keyboard_buffer := b,
                  buffer_end := (buffer_end s + 1) mod KEYBOARD_BUFFER_SIZE\<rparr>))
      else Inr s)"

text \<open>The US layout, indexed by scancode; the array's remaining entries are 0.\<close>

definition kb_us :: "u8 list" where
  "kb_us =
     [0, 27, 49, 50, 51, 52, 53, 54, 55, 56, 57, 48, 45, 61,
      8, 9, 113, 119, 101, 114, 116, 121, 117, 105, 111, 112, 91, 93,
      10, 0, 97, 115, 100, 102, 103, 104, 106, 107, 108, 59, 39, 96,
      0, 92, 122, 120, 99, 118, 98, 110, 109, 44, 46, 47, 0, 42,
      0, 32, 0, 0, 0, 0, 0, 0, 0, 0, 0, 0, 0, 0,
      0, 0, 221, 0, 45, 0, 0, 0, 43, 0, 0, 0, 0, 0,
      0, 0, 0, 0, 0, 0] @ replicate (128 - 90) 0"

text \<open>\<open>scancode\<close> is the byte that \<open>inb(0x60)\<close> returns.\<close>

definition keyboard_handler :: "u8 \<Rightarrow> kb_state \<Rightarrow> kb_state res" where
  "keyboard_handler scancode s =
     (if scancode AND 0x80 = 0
      then res_bind (arr_get kb_us (unat scancode)) (\<lambda>c. keyboard_buffer_put c s)
      else Inr s)"

text \<open>
  With an empty buffer the function spins until an interrupt fills it; this call then
  has no result of its own.
\<close>

definition keyboard_getchar :: "kb_state \<Rightarrow> (u8 \<times> kb_state) res" where
  "keyboard_getchar s =
     (if is_buffer_empty s then Inl Blocked
      else res_bind (arr_get (keyboard_buffer s) (buffer_start s)) (\<lambda>c.
           Inr (c, s\<lparr>buffer_start := (buffer_start s + 1) mod KEYBOARD_BUFFER_SIZE\<rparr>)))"

text \<open>
  The handler runs at any moment between reads. An execution is a list of events; a read
  event with an empty buffer is a spin that changes nothing.
\<close>

datatype kb_event = KeyIrq u8 | Getchar

fun kb_run :: "kb_event list \<Rightarrow> kb_state \<Rightarrow> (u8 list \<times> kb_state) res" where
  "kb_run [] s = Inr ([], s)"
| "kb_run (KeyIrq sc # es) s = res_bind (keyboard_handler sc s) (kb_run es)"
| "kb_run (Getchar # es) s =
     (if is_buffer_empty s then kb_run es s
      else res_bind (keyboard_getchar s) (\<lambda>(c, s1).
           res_bind (kb_run es s1) (\<lambda>(cs, s2). Inr (c # cs, s2))))"

section \<open>The interface of a bounded queue\<close>

locale bounded_queue =
  fixes ok :: "'q \<Rightarrow> bool" and contents :: "'q \<Rightarrow> 'a list" and capacity :: nat
    and put :: "'a \<Rightarrow> 'q \<Rightarrow> 'q res" and get :: "'q \<Rightarrow> ('a \<times> 'q) res"
  assumes put_accepts: "ok q \<Longrightarrow> length (contents q) < capacity \<Longrightarrow>
      \<exists>q'. put x q = Inr q' \<and> ok q' \<and> contents q' = contents q @ [x]"
    and put_drops: "ok q \<Longrightarrow> length (contents q) = capacity \<Longrightarrow> put x q = Inr q"
    and get_first: "ok q \<Longrightarrow> contents q = x # xs \<Longrightarrow>
      \<exists>q'. get q = Inr (x, q') \<and> ok q' \<and> contents q' = xs"
    and get_blocks: "ok q \<Longrightarrow> contents q = [] \<Longrightarrow> get q = Inl Blocked"
    and bounded: "ok q \<Longrightarrow> length (contents q) \<le> capacity"
begin

lemma put_contents:
  assumes "ok q"
  shows "\<exists>q'. put x q = Inr q' \<and> ok q' \<and>
    contents q' = (if length (contents q) < capacity then contents q @ [x] else contents q)"
  using put_accepts [OF assms] put_drops [OF assms] bounded [OF assms] assms
  by (cases "length (contents q) < capacity") auto

lemma put_get:
  assumes "ok q" and "contents q = []" and "0 < capacity"
  shows "\<exists>q1 q2. put x q = Inr q1 \<and> get q1 = Inr (x, q2) \<and> ok q2 \<and> contents q2 = []"
proof -
  obtain q1 where "put x q = Inr q1" "ok q1" "contents q1 = [x]"
    using put_accepts [OF assms(1)] assms(2,3) by auto
  with get_first [of q1 x "[]"] show ?thesis by auto
qed

end

section \<open>The ring buffer is a bounded queue\<close>

definition kb_ok :: "kb_state \<Rightarrow> bool" where
  "kb_ok s \<longleftrightarrow> length (keyboard_buffer s) = 128 \<and> buffer_start s < 128 \<and> buffer_end s < 128"

definition kb_count :: "kb_state \<Rightarrow> nat" where
  "kb_count s = (buffer_end s + 128 - buffer_start s) mod 128"

definition kb_contents :: "kb_state \<Rightarrow> u8 list" where
  "kb_contents s = map (\<lambda>i. keyboard_buffer s ! ((buffer_start s + i) mod 128)) [0..<kb_count s]"

lemma kb_ok_init: "kb_ok kb_init" and kb_contents_init: "kb_contents kb_init = []"
  by (simp_all add: kb_ok_def kb_init_def kb_contents_def kb_count_def)

lemma kb_count_eq:
  "kb_ok s \<Longrightarrow> kb_count s =
     (if buffer_start s \<le> buffer_end s then buffer_end s - buffer_start s
      else buffer_end s + 128 - buffer_start s)"
  unfolding kb_ok_def kb_count_def by (subst mod_ring) auto

lemma kb_count_less: "kb_count s < 128"
  by (simp add: kb_count_def)

lemma kb_slot_eq:
  "kb_ok s \<Longrightarrow> i < 128 \<Longrightarrow> (buffer_start s + i) mod 128 =
     (if buffer_start s + i < 128 then buffer_start s + i else buffer_start s + i - 128)"
  unfolding kb_ok_def by (subst mod_ring) auto

lemma length_kb_contents [simp]: "length (kb_contents s) = kb_count s"
  by (simp add: kb_contents_def)

lemma is_buffer_empty_iff: "kb_ok s \<Longrightarrow> is_buffer_empty s \<longleftrightarrow> kb_contents s = []"
  by (auto simp: kb_count_eq is_buffer_empty_def kb_ok_def simp flip: length_0_conv)

lemma is_buffer_full_iff: "kb_ok s \<Longrightarrow> is_buffer_full s \<longleftrightarrow> kb_count s = 127"
  unfolding kb_ok_def is_buffer_full_def by (subst kb_count_eq, simp add: kb_ok_def, subst mod_ring) auto

lemma kb_slot_end:
  "kb_ok s \<Longrightarrow> i \<le> kb_count s \<Longrightarrow> (buffer_start s + i) mod 128 = buffer_end s \<longleftrightarrow> i = kb_count s"
  using kb_count_less [of s] by (auto simp: kb_slot_eq kb_count_eq kb_ok_def split: if_splits)

lemma kb_put_accepts:
  assumes "kb_ok s" and "length (kb_contents s) < 127"
  shows "\<exists>s'. keyboard_buffer_put c s = Inr s' \<and> kb_ok s' \<and> kb_contents s' = kb_contents s @ [c]"
proof -
  let ?s = "s\<lparr>keyboard_buffer := (keyboard_buffer s)[buffer_end s := c],
               buffer_end := (buffer_end s + 1) mod 128\<rparr>"
  have nf: "\<not> is_buffer_full s" using assms by (simp add: is_buffer_full_iff)
  have ok: "kb_ok ?s" using assms(1) by (simp add: kb_ok_def)
  have "Suc (buffer_end s) mod 128 = (if buffer_end s = 127 then 0 else Suc (buffer_end s))"
    using assms(1) unfolding kb_ok_def by (subst mod_ring) auto
  then have n: "kb_count ?s = Suc (kb_count s)"
    using assms nf unfolding is_buffer_full_iff [OF assms(1)] kb_count_eq [OF assms(1)] kb_count_eq [OF ok]
    by (auto simp: kb_ok_def split: if_splits)
  have "(buffer_start s + kb_count s) mod 128 = buffer_end s"
    using kb_slot_end [OF assms(1), of "kb_count s"] by simp
  moreover have "buffer_end s \<noteq> (buffer_start s + i) mod 128" if "i < kb_count s" for i
    using kb_slot_end [OF assms(1), of i] that by auto
  ultimately have "kb_contents ?s = kb_contents s @ [c]"
    using assms(1) unfolding kb_contents_def n by (simp add: kb_ok_def)
  moreover have "keyboard_buffer_put c s = Inr ?s"
    using assms(1) nf by (simp add: keyboard_buffer_put_def kb_ok_def arr_set_def)
  ultimately show ?thesis using ok by blast
qed

lemma kb_get_first:
  assumes "kb_ok s" and "kb_contents s = c # cs"
  shows "\<exists>s'. keyboard_getchar s = Inr (c, s') \<and> kb_ok s' \<and> kb_contents s' = cs"
proof -
  let ?s = "s\<lparr>buffer_start := (buffer_start s + 1) mod 128\<rparr>"
  have ne: "\<not> is_buffer_empty s" using assms by (simp add: is_buffer_empty_iff)
  have ok: "kb_ok ?s" using assms(1) by (simp add: kb_ok_def)
  have "Suc (buffer_start s) mod 128 = (if buffer_start s = 127 then 0 else Suc (buffer_start s))"
    using assms(1) unfolding kb_ok_def by (subst mod_ring) auto
  then have n: "kb_count s = Suc (kb_count ?s)"
    using assms ne unfolding is_buffer_empty_def kb_count_eq [OF assms(1)] kb_count_eq [OF ok]
    by (auto simp: kb_ok_def split: if_splits)
  have "(buffer_start s + Suc i) mod 128 = (Suc (buffer_start s) mod 128 + i) mod 128" for i
    by (simp add: mod_add_left_eq)
  then have "kb_contents s = keyboard_buffer s ! buffer_start s # kb_contents ?s"
    using assms(1) unfolding kb_contents_def n
    by (simp add: kb_ok_def upt_conv_Cons map_Suc_upt [symmetric] o_def del: upt_Suc)
  moreover have "keyboard_getchar s = Inr (keyboard_buffer s ! buffer_start s, ?s)"
    using assms(1) ne by (simp add: keyboard_getchar_def kb_ok_def)
  ultimately show ?thesis using assms ok by auto
qed

interpretation kb_queue: bounded_queue kb_ok kb_contents 127 keyboard_buffer_put keyboard_getchar
proof unfold_locales
  show "kb_ok q \<Longrightarrow> length (kb_contents q) = 127 \<Longrightarrow> keyboard_buffer_put x q = Inr q" for q x
    by (simp add: keyboard_buffer_put_def is_buffer_full_iff)
  show "kb_ok q \<Longrightarrow> kb_contents q = [] \<Longrightarrow> keyboard_getchar q = Inl Blocked" for q
    by (simp add: keyboard_getchar_def is_buffer_empty_iff)
  show "kb_ok q \<Longrightarrow> length (kb_contents q) \<le> 127" for q
    using kb_count_less [of q] by simp
qed (use kb_put_accepts kb_get_first in blast)+

section \<open>Executions\<close>

text \<open>The specification: a queue of at most 127 characters, and what each event does to it.\<close>

definition key_char :: "u8 \<Rightarrow> u8 option" where
  "key_char sc = (if sc < 0x80 then Some (kb_us ! unat sc) else None)"

fun fifo_run :: "kb_event list \<Rightarrow> u8 list \<Rightarrow> u8 list \<times> u8 list" where
  "fifo_run [] q = ([], q)"
| "fifo_run (KeyIrq sc # es) q =
     (case key_char sc of
        None \<Rightarrow> fifo_run es q
      | Some c \<Rightarrow> fifo_run es (if length q < 127 then q @ [c] else q))"
| "fifo_run (Getchar # es) q =
     (case q of [] \<Rightarrow> fifo_run es q
      | c # q' \<Rightarrow> (let (cs, q2) = fifo_run es q' in (c # cs, q2)))"

lemma length_kb_us: "length kb_us = 128"
  by (simp add: kb_us_def)

lemma and_0x80_eq_0: "(sc AND 0x80 = 0) \<longleftrightarrow> sc < (0x80 :: u8)"
proof -
  have "bit (unat sc) 7 \<longleftrightarrow> bit sc 7" by (simp add: bit_unsigned_iff)
  then have "(sc AND 2 ^ 7 = 0) \<longleftrightarrow> even (unat sc div 2 ^ 7)"
    by (simp only: and_exp_eq_0_iff_not_bit) (simp add: bit_iff_odd)
  moreover have "unat sc div 2 ^ 7 = (if unat sc < 128 then 0 else 1)"
    using unsigned_less [of sc, where ?'a = nat] by (auto intro: div_nat_eqI)
  ultimately show ?thesis by (simp add: word_less_nat_alt)
qed

lemma keyboard_handler_spec:
  assumes "kb_ok s"
  shows "\<exists>s'. keyboard_handler sc s = Inr s' \<and> kb_ok s' \<and>
    kb_contents s' = (case key_char sc of None \<Rightarrow> kb_contents s
       | Some c \<Rightarrow> if length (kb_contents s) < 127 then kb_contents s @ [c] else kb_contents s)"
proof (cases "sc < 0x80")
  case True
  then have "unat sc < 128" by (simp add: word_less_nat_alt)
  with True kb_queue.put_contents [OF assms, of "kb_us ! unat sc"] show ?thesis
    by (simp add: keyboard_handler_def key_char_def and_0x80_eq_0 length_kb_us)
next
  case False
  with assms show ?thesis by (simp add: keyboard_handler_def key_char_def and_0x80_eq_0)
qed

lemma kb_run_refines:
  "kb_ok s \<Longrightarrow> \<exists>s'. kb_run es s = Inr (fst (fifo_run es (kb_contents s)), s') \<and> kb_ok s' \<and>
     kb_contents s' = snd (fifo_run es (kb_contents s))"
proof (induction es arbitrary: s)
  case Nil
  then show ?case by simp
next
  case (Cons e es)
  show ?case
  proof (cases e)
    case (KeyIrq sc)
    from keyboard_handler_spec [OF Cons.prems, of sc] obtain s1 where s1: "keyboard_handler sc s = Inr s1"
      "kb_ok s1" "kb_contents s1 = (case key_char sc of None \<Rightarrow> kb_contents s
       | Some c \<Rightarrow> if length (kb_contents s) < 127 then kb_contents s @ [c] else kb_contents s)" by blast
    then have "fifo_run (e # es) (kb_contents s) = fifo_run es (kb_contents s1)"
      using KeyIrq by (simp split: option.splits)
    with Cons.IH [OF s1(2)] s1(1) KeyIrq show ?thesis by simp
  next
    case Getchar
    show ?thesis
    proof (cases "kb_contents s")
      case Nil
      with Getchar Cons.prems Cons.IH [OF Cons.prems] show ?thesis by (simp add: is_buffer_empty_iff)
    next
      case q: (Cons c cs)
      from kb_queue.get_first [OF Cons.prems q] obtain s1 where
        "keyboard_getchar s = Inr (c, s1)" "kb_ok s1" "kb_contents s1 = cs" by blast
      with Cons.IH [of s1] Getchar Cons.prems q show ?thesis
        by (auto simp: is_buffer_empty_iff split: prod.splits)
    qed
  qed
qed

section \<open>Properties\<close>

text \<open>
  C39: refinement of the keyboard driver. Every interleaving of key interrupts and reads, from
  the initial buffer, runs without an access outside of the buffer or of the table, and the
  characters it delivers and keeps are those of a first-in first-out queue of capacity 127:
  pressed keys enter in order, released keys do nothing, keys pressed while 127 characters wait are dropped.
\<close>

theorem keyboard_fifo:
  "\<exists>s'. kb_run es kb_init = Inr (fst (fifo_run es []), s') \<and> kb_ok s' \<and>
     kb_contents s' = snd (fifo_run es [])"
  using kb_run_refines [OF kb_ok_init, of es] by (simp add: kb_contents_init)

text \<open>
  The handler and the reader, one call each. A call of the interrupt handler returns; it
  appends the character of the table for a pressed key if the buffer has room, and leaves the buffer as it
  is otherwise. A read of a buffer that is not empty returns its oldest character and removes it.
\<close>

theorem keyboard_handler_getchar:
  assumes "kb_ok s"
  shows "(\<exists>s'. keyboard_handler sc s = Inr s' \<and> kb_ok s' \<and>
      kb_contents s' = (if sc < 0x80 \<and> kb_count s < 127 then kb_contents s @ [kb_us ! unat sc]
                        else kb_contents s)) \<and>
    (case kb_contents s of [] \<Rightarrow> keyboard_getchar s = Inl Blocked
     | c # cs \<Rightarrow> \<exists>s'. keyboard_getchar s = Inr (c, s') \<and> kb_ok s' \<and> kb_contents s' = cs)"
  using keyboard_handler_spec [OF assms, of sc] kb_queue.get_first [OF assms] kb_queue.get_blocks [OF assms]
  by (auto simp: key_char_def split: list.splits if_splits)

theorem keyboard_handler_getchar_witness:
  "kb_ok kb_init \<and> (\<exists>s'. keyboard_handler 0x1E kb_init = Inr s' \<and> kb_contents s' = [0x61]) \<and>
   keyboard_getchar kb_init = Inl Blocked"
proof -
  have "kb_us ! unat (0x1E :: u8) = 0x61" by code_simp
  moreover have "kb_count kb_init = 0" by code_simp
  ultimately show ?thesis
    using keyboard_handler_getchar [OF kb_ok_init, of "0x1E"] kb_ok_init by (simp add: kb_contents_init) blast
qed

end
