(* ===== verification/Pm.thy ===== *)
theory Pm
  imports Prelude
begin

text \<open>
  Physical memory (\<^verbatim>\<open>kernel/arch/i386/pm.c\<close>): the layout computed from the multiboot
  memory map, the placement allocator that serves \<open>ikmalloc\<close> before the kernel heap
  exists, and the buddy allocator of physical frames with its eight bitmaps.
\<close>

section \<open>State\<close>

text \<open>
  A bitmap is the array of bytes that \<open>bitmap\<close> points to. The bitmaps of the program
  lie in memory next to one another; an index outside of the array is an error here.
\<close>

record buddy_bitmap =
  bitmap :: "u8 list"
  num_bits :: int

text \<open>\<open>pm_amount\<close> and \<open>pm_usable\<close> are C \<open>int\<close>s: words read with \<open>sint\<close>.\<close>

record pm_state =
  pm_start :: u32
  pm_end :: u32
  placement_address :: u32
  pm_amount :: u32
  pm_usable :: u32
  initrd_end :: u32
  initrd_size :: u32
  nframes :: u32
  buddy_bitmaps :: "buddy_bitmap list"

abbreviation MAX_ORDER :: nat where "MAX_ORDER \<equiv> 7"

section \<open>Operations\<close>

subsection \<open>Layout of physical memory\<close>

record mmap_entry =
  mmap_addr :: "64 word"
  mmap_len :: "64 word"
  mmap_type :: u32

abbreviation MULTIBOOT_MEMORY_AVAILABLE :: u32 where "MULTIBOOT_MEMORY_AVAILABLE \<equiv> 1"

text \<open>One round of the loop over the memory map, and the loop.\<close>

definition mmap_step :: "mmap_entry \<Rightarrow> pm_state \<Rightarrow> pm_state" where
  "mmap_step m s =
     (if mmap_type m = MULTIBOOT_MEMORY_AVAILABLE \<and> mmap_len m > 0x1000000
      then s\<lparr>pm_start := ucast (mmap_addr m), pm_amount := ucast (mmap_len m)\<rparr>
      else s)"

text \<open>
  \<open>kernel_size\<close> is \<^verbatim>\<open>ekernel - stext\<close>, fixed by the linker; \<open>mod_end\<close> is the end
  address of the first boot module. The parameter \<open>initrd_start\<close> shadows the global of
  the same name, which is never written.
\<close>

definition pm_initialize ::
  "mmap_entry list \<Rightarrow> u32 \<Rightarrow> u32 \<Rightarrow> u32 \<Rightarrow> pm_state \<Rightarrow> pm_state" where
  "pm_initialize mmap kernel_size mod_end initrd_start s =
     (let s1 = fold mmap_step mmap s;
          isize = mod_end - initrd_start;
          pend = pm_start s1 + pm_amount s1;
          pstart = pm_start s1 + ALIGN kernel_size FRAME_SIZE + ALIGN isize FRAME_SIZE
      in s1\<lparr>initrd_end := mod_end, initrd_size := isize, pm_end := pend, pm_start := pstart,
            pm_usable := pend - pstart, placement_address := pstart\<rparr>)"

text \<open>The branch of \<open>ikmalloc\<close> taken while \<open>kheap\<close> is still \<open>NULL\<close>.\<close>

definition placement_alloc :: "u32 \<Rightarrow> bool \<Rightarrow> pm_state \<Rightarrow> u32 \<times> pm_state" where
  "placement_alloc sz page_align s =
     (let p = (if page_align then ALIGN (placement_address s) FRAME_SIZE else placement_address s)
      in (p, s\<lparr>placement_address := p + sz\<rparr>))"

subsection \<open>Bitmaps\<close>

definition pm_set_bit :: "buddy_bitmap \<Rightarrow> nat \<Rightarrow> buddy_bitmap res" where
  "pm_set_bit bmp index =
     res_bind (arr_get (bitmap bmp) (index div 8)) (\<lambda>b.
     res_bind (arr_set (bitmap bmp) (index div 8) (b OR push_bit (index mod 8) 1)) (\<lambda>bs.
     Inr (bmp\<lparr>bitmap := bs\<rparr>)))"

definition pm_clear_bit :: "buddy_bitmap \<Rightarrow> nat \<Rightarrow> buddy_bitmap res" where
  "pm_clear_bit bmp index =
     res_bind (arr_get (bitmap bmp) (index div 8)) (\<lambda>b.
     res_bind (arr_set (bitmap bmp) (index div 8) (b AND NOT (push_bit (index mod 8) 1))) (\<lambda>bs.
     Inr (bmp\<lparr>bitmap := bs\<rparr>)))"

definition is_bit_set :: "buddy_bitmap \<Rightarrow> nat \<Rightarrow> bool res" where
  "is_bit_set bmp index =
     res_bind (arr_get (bitmap bmp) (index div 8)) (\<lambda>b.
     Inr (b AND push_bit (index mod 8) 1 \<noteq> 0))"

text \<open>
  \<open>num_bits\<close> is \<^verbatim>\<open>nframes / (1 << i)\<close> converted to \<open>int\<close>. A negative byte count reaches
  \<open>memset\<close> as a size near \<open>2 ^ 32\<close>, which overwrites all of memory.
\<close>

definition init_bitmap :: "nat \<Rightarrow> pm_state \<Rightarrow> pm_state res" where
  "init_bitmap i s =
     (let nb = sint (nframes s div push_bit i 1);
          bytes = (nb + 7) sdiv 8
      in if bytes < 0 then Inl OutOfBounds
         else let (p, s1) = placement_alloc (word_of_int bytes) (i = 0) s
              in res_bind (arr_set (buddy_bitmaps s1) i
                            \<lparr>bitmap = replicate (nat bytes) 0xFF, num_bits = nb\<rparr>) (\<lambda>bms.
                 Inr (s1\<lparr>buddy_bitmaps := bms\<rparr>)))"

fun init_bitmaps :: "nat list \<Rightarrow> pm_state \<Rightarrow> pm_state res" where
  "init_bitmaps [] s = Inr s"
| "init_bitmaps (i # is) s = res_bind (init_bitmap i s) (init_bitmaps is)"

definition frame_initialize :: "pm_state \<Rightarrow> pm_state res" where
  "frame_initialize s =
     init_bitmaps [0..<Suc MAX_ORDER]
       (s\<lparr>nframes := word_of_int (sint (pm_usable s) sdiv 0x1000)\<rparr>)"

subsection \<open>Allocation\<close>

function order_from :: "nat \<Rightarrow> nat \<Rightarrow> nat" where
  "order_from sz order = (if 2 ^ order < sz then order_from sz (Suc order) else order)"
  by pat_completeness auto
termination
proof (relation "measure (\<lambda>(sz, order). sz - order)", simp, clarsimp)
  fix sz order :: nat
  assume "2 ^ order < sz"
  moreover have "order < 2 ^ order" by simp
  ultimately show "sz - Suc order < sz - order" by linarith
qed

definition get_order :: "u32 \<Rightarrow> nat" where
  "get_order sz = order_from (unat ((sz + FRAME_SIZE - 1) div FRAME_SIZE)) 0"

text \<open>The index at order \<open>j\<close> of the block with index \<open>i\<close> at order \<open>order\<close>.\<close>

definition start_index :: "nat \<Rightarrow> nat \<Rightarrow> nat \<Rightarrow> nat" where
  "start_index order i j = (if order \<ge> j then i * 2 ^ (order - j) else i div 2 ^ (j - order))"

text \<open>How many bits of order \<open>j\<close> the inner loops run over.\<close>

definition run_length :: "nat \<Rightarrow> nat \<Rightarrow> nat" where
  "run_length order j = (if order > j then 2 ^ (order - j) else 1)"

fun clear_run :: "buddy_bitmap \<Rightarrow> nat \<Rightarrow> nat \<Rightarrow> buddy_bitmap res" where
  "clear_run bmp start 0 = Inr bmp"
| "clear_run bmp start (Suc k) = res_bind (pm_clear_bit bmp start) (\<lambda>b. clear_run b (Suc start) k)"

fun set_run :: "buddy_bitmap \<Rightarrow> nat \<Rightarrow> nat \<Rightarrow> buddy_bitmap res" where
  "set_run bmp start 0 = Inr bmp"
| "set_run bmp start (Suc k) = res_bind (pm_set_bit bmp start) (\<lambda>b. set_run b (Suc start) k)"

text \<open>The loop over the orders \<open>j\<close> in \<open>pmalloc\<close>, with its \<open>break\<close>.\<close>

fun mark_used :: "nat \<Rightarrow> nat \<Rightarrow> nat list \<Rightarrow> buddy_bitmap list \<Rightarrow> buddy_bitmap list res" where
  "mark_used order i [] bms = Inr bms"
| "mark_used order i (j # js) bms =
     res_bind (arr_get bms j) (\<lambda>b.
     res_bind (is_bit_set b (start_index order i j)) (\<lambda>is_set.
     if \<not> is_set then Inr bms
     else res_bind (clear_run b (start_index order i j) (run_length order j)) (\<lambda>b'.
          mark_used order i js (bms[j := b']))))"

text \<open>The scan over the blocks of one order: \<open>n\<close> blocks are left, \<open>i\<close> is the next.\<close>

fun pmalloc_scan :: "nat \<Rightarrow> nat \<Rightarrow> nat \<Rightarrow> buddy_bitmap list \<Rightarrow> (int \<times> buddy_bitmap list) res" where
  "pmalloc_scan order i 0 bms = Inr (-1, bms)"
| "pmalloc_scan order i (Suc n) bms =
     res_bind (arr_get bms order) (\<lambda>b.
     res_bind (is_bit_set b i) (\<lambda>is_set.
     if \<not> is_set then pmalloc_scan order (Suc i) n bms
     else res_bind (mark_used order i [0..<Suc MAX_ORDER] bms) (\<lambda>bms'.
          Inr (int (i * 2 ^ order), bms'))))"

definition pmalloc :: "u32 \<Rightarrow> pm_state \<Rightarrow> (int \<times> pm_state) res" where
  "pmalloc sz s =
     (let order = get_order sz in
      res_bind (arr_get (buddy_bitmaps s) order) (\<lambda>bmp.
      res_bind (pmalloc_scan order 0 (nat (num_bits bmp)) (buddy_bitmaps s)) (\<lambda>(pfn, bms).
      Inr (pfn, s\<lparr>buddy_bitmaps := bms\<rparr>))))"

text \<open>
  The loop of \<open>pfree\<close>. The test that stops the merging reads the bitmap of the order of
  the request, \<open>buddy_bitmaps[order]\<close>, in every round.
\<close>

fun mark_free :: "u32 \<Rightarrow> nat \<Rightarrow> nat list \<Rightarrow> buddy_bitmap list \<Rightarrow> buddy_bitmap list res" where
  "mark_free pfn order [] bms = Inr bms"
| "mark_free pfn order (j # js) bms =
     (let start = drop_bit j pfn in
      res_bind (arr_get bms j) (\<lambda>b.
      res_bind (set_run b (unat start) (run_length order j)) (\<lambda>b'.
      let bms' = bms[j := b'] in
      res_bind (arr_get bms' order) (\<lambda>bo.
      res_bind (is_bit_set bo (unat (start XOR 1))) (\<lambda>buddy_free.
      if \<not> buddy_free then Inr bms' else mark_free pfn order js bms')))))"

definition pfree :: "u32 \<Rightarrow> u32 \<Rightarrow> pm_state \<Rightarrow> pm_state res" where
  "pfree pfn sz s =
     res_bind (mark_free pfn (get_order sz) [0..<Suc MAX_ORDER] (buddy_bitmaps s)) (\<lambda>bms.
     Inr (s\<lparr>buddy_bitmaps := bms\<rparr>))"

definition frame_cleanup :: "pm_state \<Rightarrow> pm_state" where
  "frame_cleanup s = s\<lparr>buddy_bitmaps := map (\<lambda>b. b\<lparr>bitmap := []\<rparr>) (buddy_bitmaps s)\<rparr>"

section \<open>Bitmaps as functions on indices\<close>

text \<open>\<open>bits\<close> reads a bitmap, \<open>cap\<close> is the number of bits its bytes hold (\<open>num_bits\<close> rounded up).\<close>

definition bits :: "buddy_bitmap \<Rightarrow> nat \<Rightarrow> bool" where
  "bits b i \<longleftrightarrow> i div 8 < length (bitmap b) \<and> bit (bitmap b ! (i div 8)) (i mod 8)"

definition cap :: "buddy_bitmap \<Rightarrow> nat" where
  "cap b = 8 * length (bitmap b)"

lemma div8_less_cap: "i div 8 < length (bitmap b) \<longleftrightarrow> i < cap b"
  by (auto simp: cap_def)

lemma word_test_bit: "(w AND 2 ^ k = 0) \<longleftrightarrow> \<not> bit (w :: u8) k"
  by (simp add: and_exp_eq_0_iff_not_bit)

lemma is_bit_set_eq: "is_bit_set b i = (if i < cap b then Inr (bits b i) else Inl OutOfBounds)"
  by (auto simp: is_bit_set_def arr_get_def bits_def div8_less_cap word_test_bit)

lemma byte_index_cases:
  fixes i k :: nat
  obtains "k = i" | "k \<noteq> i" "k div 8 = i div 8" "k mod 8 \<noteq> i mod 8" | "k \<noteq> i" "k div 8 \<noteq> i div 8"
  by (metis div_mult_mod_eq)

lemma bit_or_push_1: "m < 8 \<Longrightarrow> bit (w OR 2 ^ m :: u8) k \<longleftrightarrow> bit w k \<or> k = m"
  by (auto simp: bit_simps)

lemma bit_and_not_push_1: "m < 8 \<Longrightarrow> bit (w AND NOT (2 ^ m) :: u8) k \<longleftrightarrow> bit w k \<and> k \<noteq> m"
  by (auto simp: bit_simps dest: bit_imp_le_length)

lemma pm_set_bit_Inr:
  assumes "i < cap b"
  shows "\<exists>b'. pm_set_bit b i = Inr b' \<and> cap b' = cap b \<and> num_bits b' = num_bits b \<and>
    bits b' = (bits b)(i := True)"
proof -
  let ?b = "b\<lparr>bitmap := (bitmap b)[i div 8 := bitmap b ! (i div 8) OR 2 ^ (i mod 8)]\<rparr>"
  have i: "i div 8 < length (bitmap b)" using assms by (simp add: div8_less_cap)
  have "bits ?b k = ((bits b)(i := True)) k" for k
    by (cases k i rule: byte_index_cases) (use i in \<open>simp_all add: bits_def bit_or_push_1\<close>)
  with i show ?thesis
    by (intro exI [of _ ?b]) (auto simp: pm_set_bit_def arr_get_def arr_set_def cap_def)
qed

lemma pm_clear_bit_Inr:
  assumes "i < cap b"
  shows "\<exists>b'. pm_clear_bit b i = Inr b' \<and> cap b' = cap b \<and> num_bits b' = num_bits b \<and>
    bits b' = (bits b)(i := False)"
proof -
  let ?b = "b\<lparr>bitmap := (bitmap b)[i div 8 := bitmap b ! (i div 8) AND NOT (2 ^ (i mod 8))]\<rparr>"
  have i: "i div 8 < length (bitmap b)" using assms by (simp add: div8_less_cap)
  have "bits ?b k = ((bits b)(i := False)) k" for k
    by (cases k i rule: byte_index_cases) (use i in \<open>simp_all add: bits_def bit_and_not_push_1\<close>)
  with i show ?thesis
    by (intro exI [of _ ?b]) (auto simp: pm_clear_bit_def arr_get_def arr_set_def cap_def)
qed

lemma clear_run_Inr:
  "start + n \<le> cap b \<Longrightarrow>
   \<exists>b'. clear_run b start n = Inr b' \<and> cap b' = cap b \<and> num_bits b' = num_bits b \<and>
     (\<forall>k. bits b' k \<longleftrightarrow> bits b k \<and> \<not> (start \<le> k \<and> k < start + n))"
proof (induction n arbitrary: start b)
  case 0
  then show ?case by auto
next
  case (Suc n)
  from Suc.prems have "start < cap b" by simp
  from pm_clear_bit_Inr [OF this] obtain b1 where b1: "pm_clear_bit b start = Inr b1"
    "cap b1 = cap b" "num_bits b1 = num_bits b" "bits b1 = (bits b)(start := False)" by blast
  with Suc.IH [of "Suc start" b1] Suc.prems show ?case by fastforce
qed

lemma set_run_Inr:
  "start + n \<le> cap b \<Longrightarrow>
   \<exists>b'. set_run b start n = Inr b' \<and> cap b' = cap b \<and> num_bits b' = num_bits b \<and>
     (\<forall>k. bits b' k \<longleftrightarrow> bits b k \<or> (start \<le> k \<and> k < start + n))"
proof (induction n arbitrary: start b)
  case 0
  then show ?case by auto
next
  case (Suc n)
  from Suc.prems have "start < cap b" by simp
  from pm_set_bit_Inr [OF this] obtain b1 where b1: "pm_set_bit b start = Inr b1"
    "cap b1 = cap b" "num_bits b1 = num_bits b" "bits b1 = (bits b)(start := True)" by blast
  with Suc.IH [of "Suc start" b1] Suc.prems show ?case by fastforce
qed

text \<open>The block \<open>k\<close> of order \<open>j\<close> overlaps the block \<open>i\<close> of order \<open>order\<close>.\<close>

definition related :: "nat \<Rightarrow> nat \<Rightarrow> nat \<Rightarrow> nat \<Rightarrow> bool" where
  "related order i j k \<longleftrightarrow> start_index order i j \<le> k \<and> k < start_index order i j + run_length order j"

lemma run_length_pos [simp]: "0 < run_length order j"
  by (simp add: run_length_def)

lemma related_start [simp]: "related order i j (start_index order i j)"
  by (simp add: related_def)

definition same_shape :: "buddy_bitmap list \<Rightarrow> buddy_bitmap list \<Rightarrow> bool" where
  "same_shape bms bms' \<longleftrightarrow> length bms' = length bms \<and>
     (\<forall>j < length bms. cap (bms' ! j) = cap (bms ! j) \<and> num_bits (bms' ! j) = num_bits (bms ! j))"

lemma same_shape_refl [simp]: "same_shape bms bms"
  by (simp add: same_shape_def)

lemma same_shape_trans: "same_shape a b \<Longrightarrow> same_shape b c \<Longrightarrow> same_shape a c"
  by (auto simp: same_shape_def)

lemma same_shape_update:
  "cap b = cap (bms ! j) \<Longrightarrow> num_bits b = num_bits (bms ! j) \<Longrightarrow> same_shape bms (bms[j := b])"
  by (auto simp: same_shape_def) (metis nth_list_update nth_list_update_neq)+

lemma mark_used_Inr:
  assumes "sorted js" "distinct js"
    and "\<And>j. j \<in> set js \<Longrightarrow> j < length bms \<and> start_index order i j + run_length order j \<le> cap (bms ! j)"
    and "\<And>j j' k. j \<in> set js \<Longrightarrow> \<not> bits (bms ! j) (start_index order i j) \<Longrightarrow>
           j' \<in> set js \<Longrightarrow> j \<le> j' \<Longrightarrow> related order i j' k \<Longrightarrow> \<not> bits (bms ! j') k"
  shows "\<exists>bms'. mark_used order i js bms = Inr bms' \<and> same_shape bms bms' \<and>
    (\<forall>j k. j < length bms \<longrightarrow> bits (bms' ! j) k = (bits (bms ! j) k \<and> \<not> (j \<in> set js \<and> related order i j k)))"
  using assms
proof (induction js arbitrary: bms)
  case Nil
  then show ?case by simp
next
  case (Cons j js)
  let ?st = "start_index order i j"
  have j: "j < length bms" and c: "?st + run_length order j \<le> cap (bms ! j)"
    using Cons.prems(3) [of j] by auto
  have st: "?st < cap (bms ! j)" using c run_length_pos [of order j] by linarith
  show ?case
  proof (cases "bits (bms ! j) ?st")
    case False
    have "\<forall>j'\<in>set (j # js). \<forall>k. related order i j' k \<longrightarrow> \<not> bits (bms ! j') k"
      using Cons.prems(1,4) False by fastforce
    with False j st show ?thesis by (auto simp: is_bit_set_eq)
  next
    case True
    obtain b' where b': "clear_run (bms ! j) ?st (run_length order j) = Inr b'"
        "cap b' = cap (bms ! j)" "num_bits b' = num_bits (bms ! j)"
        "\<And>k. bits b' k \<longleftrightarrow> bits (bms ! j) k \<and> \<not> related order i j k"
      using clear_run_Inr [OF c] unfolding related_def by blast
    have "\<exists>bms'. mark_used order i js (bms[j := b']) = Inr bms' \<and> same_shape (bms[j := b']) bms' \<and>
      (\<forall>j' k. j' < length (bms[j := b']) \<longrightarrow> bits (bms' ! j') k = (bits (bms[j := b'] ! j') k \<and> \<not> (j' \<in> set js \<and> related order i j' k)))"
    proof (rule Cons.IH)
      show "sorted js" "distinct js" using Cons.prems(1,2) by auto
      fix j1 assume j1: "j1 \<in> set js"
      then have ne: "j1 \<noteq> j" using Cons.prems(2) by auto
      show "j1 < length (bms[j := b']) \<and> start_index order i j1 + run_length order j1 \<le> cap (bms[j := b'] ! j1)"
        using Cons.prems(3) [of j1] j1 ne by auto
      fix j2 k assume "\<not> bits (bms[j := b'] ! j1) (start_index order i j1)" "j2 \<in> set js" "j1 \<le> j2" "related order i j2 k"
      moreover have "j2 \<noteq> j" using Cons.prems(2) \<open>j2 \<in> set js\<close> by auto
      ultimately show "\<not> bits (bms[j := b'] ! j2) k"
        using Cons.prems(4) [of j1 j2 k] j1 ne by simp
    qed
    then obtain bms' where r: "mark_used order i js (bms[j := b']) = Inr bms'" "same_shape (bms[j := b']) bms'"
      "\<forall>j' k. j' < length (bms[j := b']) \<longrightarrow> bits (bms' ! j') k = (bits (bms[j := b'] ! j') k \<and> \<not> (j' \<in> set js \<and> related order i j' k))"
      by blast
    have "same_shape bms bms'"
      using same_shape_trans [OF same_shape_update [OF b'(2,3)] r(2)] .
    moreover have "\<forall>j' k. j' < length bms \<longrightarrow> bits (bms' ! j') k = (bits (bms ! j') k \<and> \<not> (j' \<in> set (j # js) \<and> related order i j' k))"
      using r(3) b'(4) j by (auto simp: nth_list_update)
    ultimately show ?thesis using True j st b'(1) r(1) by (simp add: is_bit_set_eq)
  qed
qed

section \<open>Well-formed bitmaps\<close>

definition pm_wf :: "pm_state \<Rightarrow> bool" where
  "pm_wf s \<longleftrightarrow> length (buddy_bitmaps s) = 8 \<and>
     (\<forall>j < 8. num_bits (buddy_bitmaps s ! j) = int (unat (nframes s) div 2 ^ j) \<and>
             length (bitmap (buddy_bitmaps s ! j)) = (unat (nframes s) div 2 ^ j + 7) div 8)"

text \<open>Every frame has a bit in every bitmap, also where the last block of an order is cut off.\<close>

definition pm_covered :: "pm_state \<Rightarrow> bool" where
  "pm_covered s \<longleftrightarrow>
     (\<forall>j < 8. \<forall>f < unat (nframes s). f div 2 ^ j < cap (buddy_bitmaps s ! j))"

lemma pm_covered_128: 
  assumes "pm_wf s" "unat (nframes s) mod 128 = 0" shows "pm_covered s"
  unfolding pm_covered_def
proof (intro allI impI)
  fix j f :: nat assume j: "j < 8" and f: "f < unat (nframes s)"
  have "(2 ^ j :: nat) dvd 2 ^ 7" using j by (intro le_imp_power_dvd) simp
  then have "2 ^ j dvd unat (nframes s)" using assms(2) by (auto intro: dvd_trans)
  with f have "f div 2 ^ j < unat (nframes s) div 2 ^ j"
    by (metis dvd_mult_div_cancel less_mult_imp_div_less mult.commute)
  also have "\<dots> \<le> cap (buddy_bitmaps s ! j)"
    using assms(1) j by (simp add: pm_wf_def cap_def)
  finally show "f div 2 ^ j < cap (buddy_bitmaps s ! j)" .
qed

lemma pm_wf_cap: "pm_wf s \<Longrightarrow> j < 8 \<Longrightarrow> unat (nframes s) div 2 ^ j \<le> cap (buddy_bitmaps s ! j)"
  by (simp add: pm_wf_def cap_def)

lemma pm_wf_same_shape:
  assumes "pm_wf s" "same_shape (buddy_bitmaps s) bms"
  shows "pm_wf (s\<lparr>buddy_bitmaps := bms\<rparr>)"
  using assms by (auto simp: pm_wf_def same_shape_def cap_def)

lemma pm_covered_same_shape:
  "pm_wf s \<Longrightarrow> pm_covered s \<Longrightarrow> same_shape (buddy_bitmaps s) bms \<Longrightarrow> pm_covered (s\<lparr>buddy_bitmaps := bms\<rparr>)"
  by (auto simp: pm_covered_def same_shape_def pm_wf_def)

text \<open>A block that is marked used has no ancestor that is marked free.\<close>

definition buddy_inv :: "pm_state \<Rightarrow> bool" where
  "buddy_inv s \<longleftrightarrow> (\<forall>j k. j < 7 \<longrightarrow> k < cap (buddy_bitmaps s ! j) \<longrightarrow>
     bits (buddy_bitmaps s ! Suc j) (k div 2) \<longrightarrow> bits (buddy_bitmaps s ! j) k)"

lemma div_pow_Suc: "k div 2 ^ Suc d = k div 2 ^ d div 2" for k :: nat
  by (metis div_mult2_eq power_Suc2)

lemma div_2_pow: "k div 2 div 2 ^ d = k div 2 ^ Suc d" for k :: nat
  by (metis div_mult2_eq power_Suc)

lemma buddy_inv_ancestor:
  assumes inv: "buddy_inv s" and "j + d < 8" and "\<And>e. e < d \<Longrightarrow> k div 2 ^ e < cap (buddy_bitmaps s ! (j + e))"
    and "bits (buddy_bitmaps s ! (j + d)) (k div 2 ^ d)"
  shows "bits (buddy_bitmaps s ! j) k"
  using assms(2-)
proof (induction d)
  case 0
  then show ?case by simp
next
  case (Suc d)
  have "k div 2 ^ Suc d = (k div 2 ^ d) div 2"
    by (rule div_pow_Suc)
  with inv Suc.prems have "bits (buddy_bitmaps s ! (j + d)) (k div 2 ^ d)"
    unfolding buddy_inv_def by simp
  then show ?case using Suc.IH Suc.prems by simp
qed

lemma div_pow_le: "j \<le> j' \<Longrightarrow> k div 2 ^ j' = (k div 2 ^ j) div 2 ^ (j' - (j::nat))" for k :: nat
  by (metis div_mult2_eq le_add_diff_inverse power_add)

lemma div_eq_iff_range: "0 < n \<Longrightarrow> k div n = i \<longleftrightarrow> i * n \<le> k \<and> k < i * n + n" for k n i :: nat
  by (metis add.commute div_nat_eqI dividend_less_div_times mult.commute mult_Suc_right times_div_less_eq_dividend)

lemma related_iff:
  "related order i j k \<longleftrightarrow> (if j \<le> order then k div 2 ^ (order - j) = i else k = i div 2 ^ (j - order))"
  by (auto simp: related_def start_index_def run_length_def div_eq_iff_range not_less)

lemma related_parent: "related order i j k \<Longrightarrow> related order i (Suc j) (k div 2)"
  by (cases "Suc j" order rule: linorder_cases)
    (auto simp: related_iff div_2_pow Suc_diff_Suc Suc_diff_le simp flip: div_pow_Suc split: if_splits)

lemma start_index_div: "start_index order i j div 2 ^ e = start_index order i (j + e)"
proof (cases "j + e \<le> order")
  case True
  then have "(2 ^ (order - j) :: nat) = 2 ^ (order - (j + e)) * 2 ^ e" by (simp flip: power_add)
  with True show ?thesis by (simp add: start_index_def flip: mult.assoc)
next
  case False
  then show ?thesis
    by (cases "j \<le> order")
      (auto simp: start_index_def div_pow_le [of "order - j" e] add.commute simp flip: div_mult2_eq power_add)
qed

text \<open>\<open>pmalloc\<close> for a block of any order, from a state that satisfies the buddy invariant.\<close>

lemma frames_of_block: "i < N div 2 ^ order \<Longrightarrow> i * 2 ^ order + 2 ^ order \<le> (N :: nat)"
  by (metis Suc_leI add.commute div_times_less_eq_dividend le_trans mult_Suc mult_le_mono1)

text \<open>The bits that belong to a block of the managed frames lie within the bitmap of every order.\<close>

lemma start_index_in_bitmap:
  assumes wf: "pm_wf s" "pm_covered s" and o: "i < unat (nframes s) div 2 ^ order" and j: "j < 8"
  shows "start_index order i j + run_length order j \<le> cap (buddy_bitmaps s ! j)"
proof (cases "j \<le> order")
  case True
  then have "(2 ^ order :: nat) = 2 ^ (order - j) * 2 ^ j" by (simp flip: power_add)
  then have "(i * 2 ^ (order - j) + 2 ^ (order - j)) * 2 ^ j \<le> unat (nframes s)"
    using frames_of_block [OF o] by (simp add: algebra_simps)
  then have "i * 2 ^ (order - j) + 2 ^ (order - j) \<le> unat (nframes s) div 2 ^ j"
    by (simp add: less_eq_div_iff_mult_less_eq)
  with True pm_wf_cap [OF wf(1) j] show ?thesis
    by (cases "j = order") (auto simp: start_index_def run_length_def)
next
  case False
  have "i * 2 ^ order < unat (nframes s)" using frames_of_block [OF o] zero_less_power [of "2 :: nat" order] by linarith
  then have "(i * 2 ^ order) div 2 ^ j < cap (buddy_bitmaps s ! j)" using wf(2) j by (simp add: pm_covered_def)
  moreover have "(i * 2 ^ order) div 2 ^ j = i div 2 ^ (j - order)"
    using False by (subst div_pow_le [of order j]) auto
  ultimately show ?thesis using False by (simp add: start_index_def run_length_def)
qed

lemma buddy_inv_start:
  assumes wf: "pm_wf s" "pm_covered s" "buddy_inv s" and o: "i < unat (nframes s) div 2 ^ order"
    and J: "j \<le> J" "J < 8" "bits (buddy_bitmaps s ! J) (start_index order i J)"
  shows "bits (buddy_bitmaps s ! j) (start_index order i j)"
proof (rule buddy_inv_ancestor [OF wf(3), where d = "J - j"])
  fix e assume "e < J - j"
  then have "start_index order i (j + e) < cap (buddy_bitmaps s ! (j + e))"
    using start_index_in_bitmap [OF wf(1,2) o, of "j + e"] run_length_pos [of order "j + e"] J(2) by linarith
  then show "start_index order i j div 2 ^ e < cap (buddy_bitmaps s ! (j + e))" by (simp add: start_index_div)
qed (use J in \<open>simp_all add: start_index_div\<close>)

lemma mark_used_block:
  assumes wf: "pm_wf s" "pm_covered s" "buddy_inv s"
    and o: "order < 8" "i < unat (nframes s) div 2 ^ order"
    and free: "bits (buddy_bitmaps s ! order) i"
  shows "\<exists>bms. mark_used order i [0..<8] (buddy_bitmaps s) = Inr bms \<and> same_shape (buddy_bitmaps s) bms \<and>
    (\<forall>j<8. \<forall>k. bits (bms ! j) k = (bits (buddy_bitmaps s ! j) k \<and> \<not> related order i j k))"
proof -
  let ?B = "buddy_bitmaps s"
  have len: "length ?B = 8" using wf(1) by (simp add: pm_wf_def)
  have "\<exists>bms'. mark_used order i [0..<8] ?B = Inr bms' \<and> same_shape ?B bms' \<and>
    (\<forall>j k. j < length ?B \<longrightarrow> bits (bms' ! j) k = (bits (?B ! j) k \<and> \<not> (j \<in> set [0..<8] \<and> related order i j k)))"
  proof (rule mark_used_Inr)
    fix j j' k assume j: "j \<in> set [0..<8]" and nb: "\<not> bits (?B ! j) (start_index order i j)"
      and j': "j' \<in> set [0..<8]" "j \<le> j'" and r: "related order i j' k"
    note up = buddy_inv_start [OF wf o(2)]
    have "\<not> j \<le> order" using up [of j order] o(1) free nb by (auto simp: start_index_def)
    then have "k = start_index order i j'" using r j'(2) by (simp add: related_def run_length_def)
    then show "\<not> bits (?B ! j') k" using up [of j j'] j' nb by auto
  qed (use len start_index_in_bitmap [OF wf(1,2) o(2)] in auto)
  then show ?thesis using len by simp
qed

lemma pmalloc_scan_eq:
  assumes "order < length bms" "i + n \<le> cap (bms ! order)"
  shows "pmalloc_scan order i n bms =
     (case find (bits (bms ! order)) [i..<i + n] of
        None \<Rightarrow> Inr (-1, bms)
      | Some k \<Rightarrow> res_bind (mark_used order k [0..<8] bms) (\<lambda>bms'. Inr (int (k * 2 ^ order), bms')))"
  using assms
proof (induction n arbitrary: i)
  case 0
  then show ?case by simp
next
  case (Suc n)
  have "[i..<i + Suc n] = i # [Suc i..<Suc i + n]" by (simp add: upt_conv_Cons)
  with Suc.IH [of "Suc i"] Suc.prems show ?case by (simp add: is_bit_set_eq)
qed

lemma find_upt_Some:
  "find P [0..<n] = Some k \<longleftrightarrow> k < n \<and> P k \<and> (\<forall>m < k. \<not> P m)"
  by (auto simp: find_Some_iff)

text \<open>Orders of requests.\<close>

lemma order_from_spec:
  "(order_from sz order = order \<and> sz \<le> 2 ^ order) \<or>
   (order < order_from sz order \<and> sz \<le> 2 ^ order_from sz order \<and> 2 ^ (order_from sz order - 1) < sz)"
proof (induction sz order rule: order_from.induct)
  case (1 sz order)
  show ?case
  proof (cases "2 ^ order < sz")
    case True
    then have eq: "order_from sz order = order_from sz (Suc order)"
      by (subst order_from.simps) simp
    show ?thesis unfolding eq using 1 True by fastforce
  next
    case False
    then show ?thesis by (subst (1 2 ) order_from.simps) simp
  qed
qed

declare order_from.simps [simp del]

lemma get_order_FRAME_SIZE [simp]: "get_order FRAME_SIZE = 0"
  by (simp add: get_order_def order_from.simps)

definition free_frames :: "pm_state \<Rightarrow> nat set" where
  "free_frames s = {f. f < unat (nframes s) \<and> bits (buddy_bitmaps s ! 0) f}"

definition block_frames :: "nat \<Rightarrow> nat \<Rightarrow> nat set" where
  "block_frames order pfn = {pfn..<pfn + 2 ^ order}"

lemma buddy_inv_mark:
  assumes "buddy_inv s" "length (buddy_bitmaps s) = 8" "same_shape (buddy_bitmaps s) bms"
    "\<forall>j<8. \<forall>k. bits (bms ! j) k = (bits (buddy_bitmaps s ! j) k \<and> \<not> related order i j k)"
  shows "buddy_inv (s\<lparr>buddy_bitmaps := bms\<rparr>)"
  using assms related_parent unfolding buddy_inv_def same_shape_def
  by (auto simp: less_Suc_eq_le Suc_le_eq)

lemma pmalloc_eq:
  assumes "pm_wf s" "get_order sz < 8"
  shows "pmalloc sz s =
     (case find (bits (buddy_bitmaps s ! get_order sz)) [0..<unat (nframes s) div 2 ^ get_order sz] of
        None \<Rightarrow> Inr (-1, s)
      | Some k \<Rightarrow> res_bind (mark_used (get_order sz) k [0..<8] (buddy_bitmaps s))
                   (\<lambda>bms. Inr (int (k * 2 ^ get_order sz), s\<lparr>buddy_bitmaps := bms\<rparr>)))"
proof -
  have "pmalloc_scan (get_order sz) 0 (unat (nframes s) div 2 ^ get_order sz) (buddy_bitmaps s) =
     (case find (bits (buddy_bitmaps s ! get_order sz)) [0..<0 + unat (nframes s) div 2 ^ get_order sz] of
        None \<Rightarrow> Inr (-1, buddy_bitmaps s)
      | Some k \<Rightarrow> res_bind (mark_used (get_order sz) k [0..<8] (buddy_bitmaps s))
                    (\<lambda>bms'. Inr (int (k * 2 ^ get_order sz), bms')))"
    by (rule pmalloc_scan_eq) (use assms pm_wf_cap in \<open>auto simp: pm_wf_def\<close>)
  then show ?thesis
    using assms by (auto simp: pmalloc_def Let_def pm_wf_def res_bind_assoc split: option.splits)
qed

lemma related_frames: "related order i 0 f \<longleftrightarrow> f \<in> block_frames order (i * 2 ^ order)"
  by (auto simp: related_def start_index_def run_length_def block_frames_def)

text \<open>The blocks of an order that are marked free; the scan finds the first of them.\<close>

definition free_blocks :: "nat \<Rightarrow> pm_state \<Rightarrow> nat set" where
  "free_blocks order s = {i. i < unat (nframes s) div 2 ^ order \<and> bits (buddy_bitmaps s ! order) i}"

lemma finite_free_blocks [simp]: "finite (free_blocks order s)"
  by (simp add: free_blocks_def)

lemma find_free_block:
  "find (bits (buddy_bitmaps s ! order)) [0..<unat (nframes s) div 2 ^ order] =
     (if free_blocks order s = {} then None else Some (Min (free_blocks order s)))"
proof (cases "free_blocks order s = {}")
  case True
  then show ?thesis by (auto simp: free_blocks_def find_None_iff)
next
  case False
  let ?i = "Min (free_blocks order s)"
  have i: "?i \<in> free_blocks order s" using False by simp
  have "\<not> bits (buddy_bitmaps s ! order) m" if "m < ?i" for m
  proof
    assume "bits (buddy_bitmaps s ! order) m"
    then have "m \<in> free_blocks order s" using i that by (auto simp: free_blocks_def)
    then show False using that Min_le [OF finite_free_blocks, of m order s] by linarith
  qed
  moreover have "?i < unat (nframes s) div 2 ^ order" "bits (buddy_bitmaps s ! order) ?i"
    using i unfolding free_blocks_def by blast+
  ultimately show ?thesis using False unfolding find_upt_Some by (auto simp: find_upt_Some)
qed

lemma pmalloc_block_some:
  assumes wf: "pm_wf s" "pm_covered s" "buddy_inv s" and o: "get_order sz < 8" and ne: "free_blocks (get_order sz) s \<noteq> {}"
  defines "pfn \<equiv> Min (free_blocks (get_order sz) s) * 2 ^ get_order sz"
  shows "\<exists>s'. pmalloc sz s = Inr (int pfn, s') \<and> pm_wf s' \<and> pm_covered s' \<and> buddy_inv s' \<and>
    block_frames (get_order sz) pfn \<subseteq> free_frames s \<and> free_frames s' = free_frames s - block_frames (get_order sz) pfn"
proof -
  let ?o = "get_order sz"
  define i where "i = Min (free_blocks ?o s)"
  have pfn: "pfn = i * 2 ^ ?o" by (simp add: pfn_def i_def)
  have "i \<in> free_blocks ?o s" using ne by (simp add: i_def)
  then have i: "i < unat (nframes s) div 2 ^ ?o" "bits (buddy_bitmaps s ! ?o) i" by (auto simp: free_blocks_def)
  from mark_used_block [OF wf o i] obtain bms where m: "mark_used ?o i [0..<8] (buddy_bitmaps s) = Inr bms"
    "same_shape (buddy_bitmaps s) bms"
    "\<forall>j<8. \<forall>k. bits (bms ! j) k = (bits (buddy_bitmaps s ! j) k \<and> \<not> related ?o i j k)" by blast
  let ?s = "s\<lparr>buddy_bitmaps := bms\<rparr>"
  have "buddy_inv ?s" using buddy_inv_mark [OF wf(3) _ m(2,3)] wf(1) by (simp add: pm_wf_def)
  moreover have "free_frames ?s = free_frames s - block_frames ?o pfn"
    using m(3) by (auto simp: free_frames_def related_frames pfn)
  moreover have "block_frames ?o pfn \<subseteq> free_frames s"
  proof
    fix f assume f: "f \<in> block_frames ?o pfn"
    then have fi: "f div 2 ^ ?o = i" by (simp add: div_eq_iff_range block_frames_def pfn)
    then have fn: "f < unat (nframes s)" using i(1) by (metis div_le_mono not_le)
    have "bits (buddy_bitmaps s ! 0) f"
    proof (rule buddy_inv_ancestor [OF wf(3), where d = ?o])
      show "f div 2 ^ e < cap (buddy_bitmaps s ! (0 + e))" if "e < ?o" for e
        using wf(2) fn that o by (simp add: pm_covered_def)
    qed (use o i fi in auto)
    with fn show "f \<in> free_frames s" by (simp add: free_frames_def)
  qed
  moreover have "pmalloc sz s = Inr (int pfn, ?s)"
    using m(1) ne by (simp add: pmalloc_eq [OF wf(1) o] find_free_block pfn i_def)
  ultimately show ?thesis
    using pm_wf_same_shape [OF wf(1) m(2)] pm_covered_same_shape [OF wf(1,2) m(2)] by (intro exI [of _ ?s]) simp
qed

section \<open>Single frames\<close>

lemma mark_used_other:
  assumes "\<And>j. j \<in> set js \<Longrightarrow> j < length bms \<and> start_index order i j + run_length order j \<le> cap (bms ! j)"
  shows "\<exists>bms'. mark_used order i js bms = Inr bms' \<and> same_shape bms bms' \<and>
    (\<forall>j. j \<notin> set js \<longrightarrow> bms' ! j = bms ! j)"
  using assms
proof (induction js arbitrary: bms)
  case Nil
  then show ?case by simp
next
  case (Cons j js)
  let ?st = "start_index order i j"
  have j: "j < length bms" and c: "?st + run_length order j \<le> cap (bms ! j)"
    using Cons.prems [of j] by auto
  have st: "?st < cap (bms ! j)" using c run_length_pos [of order j] by linarith
  from clear_run_Inr [OF c] obtain b' where b': "clear_run (bms ! j) ?st (run_length order j) = Inr b'"
    "cap b' = cap (bms ! j)" "num_bits b' = num_bits (bms ! j)" by blast
  have sh: "same_shape bms (bms[j := b'])" using b'(2,3) by (rule same_shape_update)
  with Cons.prems have "\<And>j'. j' \<in> set js \<Longrightarrow> j' < length (bms[j := b']) \<and> 
      start_index order i j' + run_length order j' \<le> cap (bms[j := b'] ! j')"
    by (simp add: same_shape_def)
  from Cons.IH [OF this] show ?case
    using j st b' same_shape_trans [OF sh] by (fastforce simp: is_bit_set_eq)
qed

lemma mark_free_other:
  assumes "order < length bms"
    "\<And>j. j \<in> set js \<Longrightarrow> j < length bms \<and> unat (drop_bit j pfn) + run_length order j \<le> cap (bms ! j) \<and>
       unat (drop_bit j pfn XOR 1) < cap (bms ! order)"
  shows "\<exists>bms'. mark_free pfn order js bms = Inr bms' \<and> same_shape bms bms' \<and>
    (\<forall>j. j \<notin> set js \<longrightarrow> bms' ! j = bms ! j)"
  using assms
proof (induction js arbitrary: bms)
  case Nil
  then show ?case by simp
next
  case (Cons j js)
  let ?st = "unat (drop_bit j pfn)"
  have j: "j < length bms" and c: "?st + run_length order j \<le> cap (bms ! j)"
    and x: "unat (drop_bit j pfn XOR 1) < cap (bms ! order)"
    using Cons.prems(2) [of j] by auto
  from set_run_Inr [OF c] obtain b' where b': "set_run (bms ! j) ?st (run_length order j) = Inr b'"
    "cap b' = cap (bms ! j)" "num_bits b' = num_bits (bms ! j)" by blast
  have sh: "same_shape bms (bms[j := b'])" using b'(2,3) by (rule same_shape_update)
  with Cons.prems have "order < length (bms[j := b'])"
    "\<And>j'. j' \<in> set js \<Longrightarrow> j' < length (bms[j := b']) \<and> 
      unat (drop_bit j' pfn) + run_length order j' \<le> cap (bms[j := b'] ! j') \<and>
      unat (drop_bit j' pfn XOR 1) < cap (bms[j := b'] ! order)"
    by (simp_all add: same_shape_def)
  from Cons.IH [OF this] have "\<exists>bms'. mark_free pfn order js (bms[j := b']) = Inr bms' \<and> same_shape (bms[j := b']) bms' \<and>
    (\<forall>j'. j' \<notin> set js \<longrightarrow> bms' ! j' = bms[j := b'] ! j')" .
  moreover have "unat (drop_bit j pfn XOR 1) < cap (bms[j := b'] ! order)"
    using x sh Cons.prems(1) by (simp add: same_shape_def)
  ultimately show ?case
    using j b' sh same_shape_trans [OF sh] Cons.prems(1)
    by (cases "bits (bms[j := b'] ! order) (unat (drop_bit j pfn XOR 1))") (fastforce simp: is_bit_set_eq Let_def)+
qed

lemma cap_even: "even (cap b)"
  by (simp add: cap_def)

lemma xor_1_less: "even c \<Longrightarrow> unat x < c \<Longrightarrow> unat (x XOR 1 :: u32) < c"
proof -
  assume c: "even c" and x: "unat x < c"
  have "drop_bit 1 (x XOR 1) = drop_bit 1 x" by (simp add: drop_bit_xor)
  then have "unat (x XOR 1) div 2 = unat x div 2"
    by (metis drop_bit_eq_div power_one_right unat_drop_bit_eq)
  with c x show ?thesis by (metis dvd_mult_div_cancel less_mult_imp_div_less div_less_iff_less_mult mult.commute zero_less_numeral)
qed

definition pm_ok :: "pm_state \<Rightarrow> bool" where
  "pm_ok s \<longleftrightarrow> pm_wf s \<and> pm_covered s"

lemma start_index_frame [simp]: "start_index 0 f j = f div 2 ^ j" and run_length_frame [simp]: "run_length 0 j = 1"
  by (auto simp: start_index_def run_length_def)

lemma mark_used_frame:
  assumes "pm_ok s" "f \<in> free_frames s"
  shows "\<exists>bms. mark_used 0 f [0..<8] (buddy_bitmaps s) = Inr bms \<and> same_shape (buddy_bitmaps s) bms \<and>
    bits (bms ! 0) = (bits (buddy_bitmaps s ! 0))(f := False)"
proof -
  let ?B = "buddy_bitmaps s"
  have len: "length ?B = 8" and fb: "bits (?B ! 0) f"
    and fc: "\<And>j. j < 8 \<Longrightarrow> f div 2 ^ j < cap (?B ! j)"
    using assms by (auto simp: pm_ok_def pm_wf_def pm_covered_def free_frames_def)
  from pm_clear_bit_Inr [of f "?B ! 0"] fc [of 0] obtain b where b: "pm_clear_bit (?B ! 0) f = Inr b"
    "cap b = cap (?B ! 0)" "num_bits b = num_bits (?B ! 0)" "bits b = (bits (?B ! 0))(f := False)" by auto
  have sh: "same_shape ?B (?B[0 := b])" using b(2,3) by (rule same_shape_update)
  have "\<exists>bms'. mark_used 0 f [1..<8] (?B[0 := b]) = Inr bms' \<and> same_shape (?B[0 := b]) bms' \<and>
      (\<forall>j. j \<notin> set [1..<8] \<longrightarrow> bms' ! j = ?B[0 := b] ! j)"
    by (rule mark_used_other) (use sh len fc in \<open>auto simp: same_shape_def Suc_le_eq\<close>)
  moreover have "[0..<8] = 0 # [1..<8::nat]" by (simp add: upt_rec)
  ultimately show ?thesis
    using len fb fc [of 0] b same_shape_trans [OF sh] by (force simp: is_bit_set_eq)
qed

lemma finite_free_frames [simp]: "finite (free_frames s)"
  by (simp add: free_frames_def)

lemma pmalloc_frame_some:
  assumes "pm_ok s" "free_frames s \<noteq> {}"
  shows "\<exists>bms. pmalloc FRAME_SIZE s = Inr (int (Min (free_frames s)), s\<lparr>buddy_bitmaps := bms\<rparr>) \<and>
    pm_ok (s\<lparr>buddy_bitmaps := bms\<rparr>) \<and>
    free_frames (s\<lparr>buddy_bitmaps := bms\<rparr>) = free_frames s - {Min (free_frames s)}"
proof -
  let ?f = "Min (free_frames s)"
  have f: "?f \<in> free_frames s" using assms(2) by simp
  from mark_used_frame [OF assms(1) f] obtain bms where m: "mark_used 0 ?f [0..<8] (buddy_bitmaps s) = Inr bms"
    "same_shape (buddy_bitmaps s) bms" "bits (bms ! 0) = (bits (buddy_bitmaps s ! 0))(?f := False)" by blast
  have "\<not> bits (buddy_bitmaps s ! 0) k" if "k < ?f" for k
  proof
    assume "bits (buddy_bitmaps s ! 0) k"
    with that f have "k \<in> free_frames s" by (auto simp: free_frames_def)
    with that show False using Min_le [OF finite_free_frames, of k s] by linarith
  qed
  moreover have "?f < unat (nframes s)" "bits (buddy_bitmaps s ! 0) ?f"
    using f unfolding free_frames_def by blast+
  ultimately have "find (bits (buddy_bitmaps s ! 0)) [0..<unat (nframes s)] = Some ?f"
    unfolding find_upt_Some by blast
  with m(1) assms(1) have "pmalloc FRAME_SIZE s = Inr (int ?f, s\<lparr>buddy_bitmaps := bms\<rparr>)"
    by (simp add: pmalloc_eq pm_ok_def)
  moreover have "free_frames (s\<lparr>buddy_bitmaps := bms\<rparr>) = free_frames s - {?f}"
    using m(3) by (auto simp: free_frames_def)
  ultimately show ?thesis
    using assms(1) m(2) pm_wf_same_shape pm_covered_same_shape by (auto simp: pm_ok_def)
qed

lemma pmalloc_frame_none:
  assumes "pm_ok s" "free_frames s = {}"
  shows "pmalloc FRAME_SIZE s = Inr (-1, s)"
proof -
  have "find (bits (buddy_bitmaps s ! 0)) [0..<unat (nframes s)] = None"
    using assms(2) by (auto simp: find_None_iff free_frames_def)
  with assms(1) show ?thesis by (simp add: pmalloc_eq pm_ok_def)
qed

lemma pfree_frame:
  assumes "pm_ok s" "unat pfn < unat (nframes s)"
  shows "\<exists>bms. pfree pfn FRAME_SIZE s = Inr (s\<lparr>buddy_bitmaps := bms\<rparr>) \<and> pm_ok (s\<lparr>buddy_bitmaps := bms\<rparr>) \<and>
    free_frames (s\<lparr>buddy_bitmaps := bms\<rparr>) = insert (unat pfn) (free_frames s)"
proof -
  let ?B = "buddy_bitmaps s"
  have len: "length ?B = 8" and fc: "\<And>j. j < 8 \<Longrightarrow> unat (drop_bit j pfn) < cap (?B ! j)"
    using assms by (auto simp: pm_ok_def pm_wf_def pm_covered_def unat_drop_bit_div)
  have xc: "unat (drop_bit j pfn XOR 1) < cap (?B ! 0)" for j
  proof (rule xor_1_less [OF cap_even])
    have "unat (drop_bit j pfn) \<le> unat pfn" by (simp add: unat_drop_bit_div)
    also have "\<dots> < cap (?B ! 0)" using fc [of 0] by simp
    finally show "unat (drop_bit j pfn) < cap (?B ! 0)" .
  qed
  from pm_set_bit_Inr [of "unat pfn" "?B ! 0"] fc [of 0] obtain b where b: "pm_set_bit (?B ! 0) (unat pfn) = Inr b"
    "cap b = cap (?B ! 0)" "num_bits b = num_bits (?B ! 0)" "bits b = (bits (?B ! 0))(unat pfn := True)" by auto
  have sh: "same_shape ?B (?B[0 := b])" using b(2,3) by (rule same_shape_update)
  have "\<exists>bms'. mark_free pfn 0 [1..<8] (?B[0 := b]) = Inr bms' \<and> same_shape (?B[0 := b]) bms' \<and>
      (\<forall>j. j \<notin> set [1..<8] \<longrightarrow> bms' ! j = ?B[0 := b] ! j)"
    by (rule mark_free_other) (use sh len fc xc b in \<open>auto simp: same_shape_def Suc_le_eq\<close>)
  moreover have "[0..<8] = 0 # [1..<8::nat]" by (simp add: upt_rec)
  ultimately have "\<exists>bms. mark_free pfn 0 [0..<8] ?B = Inr bms \<and> same_shape ?B bms \<and> bits (bms ! 0) = bits b"
    using len fc [of 0] xc [of 0] b sh same_shape_trans [OF sh]
    by (cases "bits b (unat (pfn XOR 1))") (force simp: is_bit_set_eq Let_def)+
  then obtain bms where m: "mark_free pfn 0 [0..<8] ?B = Inr bms" "same_shape ?B bms" "bits (bms ! 0) = bits b" by blast
  have "pfree pfn FRAME_SIZE s = Inr (s\<lparr>buddy_bitmaps := bms\<rparr>)" using m(1) by (simp add: pfree_def)
  moreover have "free_frames (s\<lparr>buddy_bitmaps := bms\<rparr>) = insert (unat pfn) (free_frames s)"
    using m(3) b(4) assms(2) by (auto simp: free_frames_def)
  ultimately show ?thesis
    using assms(1) m(2) pm_wf_same_shape pm_covered_same_shape by (auto simp: pm_ok_def)
qed

section \<open>The interface of the frame allocator\<close>

locale frame_allocator =
  fixes ok :: "'s \<Rightarrow> bool" and free :: "'s \<Rightarrow> nat set" and total :: "'s \<Rightarrow> nat"
    and alloc :: "'s \<Rightarrow> (int \<times> 's) res" and release :: "u32 \<Rightarrow> 's \<Rightarrow> 's res"
  assumes finite_free: "finite (free s)"
    and alloc_some: "ok s \<Longrightarrow> free s \<noteq> {} \<Longrightarrow>
      \<exists>s'. alloc s = Inr (int (Min (free s)), s') \<and> ok s' \<and> total s' = total s \<and> free s' = free s - {Min (free s)}"
    and alloc_none: "ok s \<Longrightarrow> free s = {} \<Longrightarrow> alloc s = Inr (-1, s)"
    and release_frame: "ok s \<Longrightarrow> unat pfn < total s \<Longrightarrow>
      \<exists>s'. release pfn s = Inr s' \<and> ok s' \<and> total s' = total s \<and> free s' = insert (unat pfn) (free s)"
begin

lemma alloc_run:
  "ok s \<Longrightarrow> n \<le> card (free s) \<Longrightarrow>
   \<exists>s'. repeat_res n alloc s = Inr (map int (take n (sorted_list_of_set (free s))), s') \<and> ok s' \<and>
     total s' = total s \<and> free s' = free s - set (take n (sorted_list_of_set (free s)))"
proof (induction n arbitrary: s)
  case 0
  then show ?case by simp
next
  case (Suc n)
  have ne: "free s \<noteq> {}" using Suc.prems by auto
  from alloc_some [OF Suc.prems(1) ne] obtain s1 where s1: "alloc s = Inr (int (Min (free s)), s1)"
    "ok s1" "total s1 = total s" "free s1 = free s - {Min (free s)}" by blast
  have "sorted_list_of_set (free s) = Min (free s) # sorted_list_of_set (free s1)"
    using sorted_list_of_set_nonempty [OF finite_free ne] s1(4) by simp
  moreover have "n \<le> card (free s1)" using Suc.prems(2) ne finite_free s1(4) by simp
  ultimately show ?case using Suc.IH [OF s1(2)] s1 by auto
qed

lemma alloc_distinct:
  assumes "ok s" "n \<le> card (free s)"
  shows "\<exists>pfns s'. repeat_res n alloc s = Inr (pfns, s') \<and> length pfns = n \<and> distinct pfns \<and> 
    set pfns \<subseteq> int ` free s \<and> ok s' \<and> int ` free s' = int ` free s - set pfns"
proof -
  let ?t = "take n (sorted_list_of_set (free s))"
  obtain s' where s': "repeat_res n alloc s = Inr (map int ?t, s')" "ok s'" "free s' = free s - set ?t"
    using alloc_run [OF assms] by blast
  moreover have "set ?t \<subseteq> free s" using set_take_subset [of n] finite_free by fastforce
  moreover have "distinct (map int ?t)" by (simp add: distinct_map)
  moreover have "length ?t = n" using assms(2) by simp
  ultimately show ?thesis by (intro exI [of _ "map int ?t"] exI [of _ s']) auto
qed

lemma alloc_release:
  assumes "ok s" "free s \<noteq> {}" "free s \<subseteq> {..<total s}" "total s \<le> 2 ^ 32"
    and "alloc s = Inr (pfn, s1)"
  shows "\<exists>s2. release (of_int pfn) s1 = Inr s2 \<and> ok s2 \<and> free s2 = free s"
proof -
  have m: "Min (free s) \<in> free s" using assms(2) finite_free by simp
  have s1: "pfn = int (Min (free s))" "ok s1" "total s1 = total s" "free s1 = free s - {Min (free s)}"
    using alloc_some [OF assms(1,2)] assms(5) by auto
  have "Min (free s) < 2 ^ 32" using m assms(3,4) by auto
  then have u: "unat (of_int pfn :: u32) = Min (free s)" by (simp add: s1(1) unat_of_nat)
  with m assms(3) s1 have "unat (of_int pfn :: u32) < total s1" by auto
  from release_frame [OF s1(2) this] show ?thesis using u s1 m by auto
qed

end

interpretation pm_frames: frame_allocator pm_ok free_frames "\<lambda>s. unat (nframes s)" "pmalloc FRAME_SIZE" "\<lambda>pfn. pfree pfn FRAME_SIZE"
proof unfold_locales
  fix s assume "pm_ok s" "free_frames s \<noteq> {}"
  from pmalloc_frame_some [OF this] show "\<exists>s'. pmalloc FRAME_SIZE s = Inr (int (Min (free_frames s)), s') \<and> pm_ok s' \<and>
    unat (nframes s') = unat (nframes s) \<and> free_frames s' = free_frames s - {Min (free_frames s)}" by fastforce
next
  fix s :: pm_state and pfn :: u32 assume "pm_ok s" "unat pfn < unat (nframes s)"
  from pfree_frame [OF this] show "\<exists>s'. pfree pfn FRAME_SIZE s = Inr s' \<and> pm_ok s' \<and> unat (nframes s') = unat (nframes s) \<and>
    free_frames s' = insert (unat pfn) (free_frames s)" by fastforce
qed (simp_all add: pmalloc_frame_none)

section \<open>frame\_initialize\<close>

lemma init_bitmap_Inr:
  assumes "unat (nframes s) < 2 ^ 20" "i < 8" "length (buddy_bitmaps s) = 8"
  shows "\<exists>p. init_bitmap i s = Inr (s\<lparr>placement_address := p, buddy_bitmaps := (buddy_bitmaps s)[i :=
     \<lparr>bitmap = replicate ((unat (nframes s) div 2 ^ i + 7) div 8) 0xFF, num_bits = int (unat (nframes s) div 2 ^ i)\<rparr>]\<rparr>)"
proof -
  let ?q = "unat (nframes s) div 2 ^ i"
  have "nframes s div push_bit i 1 = drop_bit i (nframes s)" by (simp add: drop_bit_eq_div)
  then have u: "unat (nframes s div push_bit i 1) = ?q" by (simp add: unat_drop_bit_div)
  have "?q < 2 ^ 20" using assms(1) by (rule le_less_trans [OF div_le_dividend])
  then have "sint (nframes s div push_bit i 1) = int ?q"
    using u by (simp add: sint_small)
  moreover note bytes_sdiv [of ?q]
  ultimately show ?thesis
    using assms(2,3) by (auto simp: init_bitmap_def Let_def placement_alloc_def arr_set_def)
qed

lemma init_bitmaps_Inr:
  assumes "unat (nframes s) < 2 ^ 20" "length (buddy_bitmaps s) = 8" "\<forall>i \<in> set is. i < 8"
  shows "\<exists>p bms. init_bitmaps is s = Inr (s\<lparr>placement_address := p, buddy_bitmaps := bms\<rparr>) \<and> length bms = 8 \<and>
    (\<forall>j. bms ! j = (if j \<in> set is then \<lparr>bitmap = replicate ((unat (nframes s) div 2 ^ j + 7) div 8) 0xFF,
       num_bits = int (unat (nframes s) div 2 ^ j)\<rparr> else buddy_bitmaps s ! j))"
  using assms
proof (induction "is" arbitrary: s)
  case Nil
  then show ?case by (auto intro!: exI [of _ "placement_address s"] exI [of _ "buddy_bitmaps s"])
next
  case (Cons i "is")
  from init_bitmap_Inr [of s i] Cons.prems obtain p where p: "init_bitmap i s = Inr (s\<lparr>placement_address := p, buddy_bitmaps := (buddy_bitmaps s)[i :=
     \<lparr>bitmap = replicate ((unat (nframes s) div 2 ^ i + 7) div 8) 0xFF, num_bits = int (unat (nframes s) div 2 ^ i)\<rparr>]\<rparr>)" (is "_ = Inr ?s") by auto
  from Cons.IH [of ?s] Cons.prems obtain p' bms where "init_bitmaps is ?s = Inr (?s\<lparr>placement_address := p', buddy_bitmaps := bms\<rparr>)"
    "length bms = 8" "\<forall>j. bms ! j = (if j \<in> set is then \<lparr>bitmap = replicate ((unat (nframes s) div 2 ^ j + 7) div 8) 0xFF,
       num_bits = int (unat (nframes s) div 2 ^ j)\<rparr> else buddy_bitmaps ?s ! j)" by auto
  then show ?case using p Cons.prems by (intro exI [of _ p'] exI [of _ bms]) (auto simp: nth_list_update)
qed

lemma bit_255: "k < 8 \<Longrightarrow> bit (0xFF :: u8) k"
proof -
  assume "k < 8"
  then have "k \<in> {0, 1, 2, 3, 4, 5, 6, 7}" by auto
  then show ?thesis by auto
qed

lemma bits_full: "bits \<lparr>bitmap = replicate n 0xFF, num_bits = m\<rparr> k \<longleftrightarrow> k < 8 * n"
  by (auto simp: bits_def bit_255 simp del: bit_numeral_word_iff)

lemma frame_initialize_Inr:
  assumes "length (buddy_bitmaps s) = 8" "0 \<le> sint (pm_usable s)"
  shows "\<exists>s'. frame_initialize s = Inr s' \<and> pm_wf s' \<and> buddy_inv s' \<and>
    unat (nframes s') = nat (sint (pm_usable s)) div 4096 \<and> free_frames s' = {..<unat (nframes s')}"
proof -
  let ?n = "nat (sint (pm_usable s)) div 4096"
  let ?s = "s\<lparr>nframes := word_of_int (sint (pm_usable s) sdiv 0x1000)\<rparr>"
  have "sint (pm_usable s) < 2 ^ 31" using sint_lt [of "pm_usable s"] by simp
  then have n: "?n < 2 ^ 20" using assms(2) by simp
  have "sint (pm_usable s) sdiv 0x1000 = int ?n"
    using assms(2) by (simp add: sdiv_nonneg zdiv_int)
  then have u: "unat (nframes ?s) = ?n" using n by (simp add: unat_of_nat)
  from init_bitmaps_Inr [of ?s "[0..<8]"] assms(1) n u obtain p bms where
    r: "init_bitmaps [0..<8] ?s = Inr (?s\<lparr>placement_address := p, buddy_bitmaps := bms\<rparr>)" (is "_ = Inr ?s'") "length bms = 8"
    "\<And>j. j < 8 \<Longrightarrow> bms ! j = \<lparr>bitmap = replicate ((?n div 2 ^ j + 7) div 8) 0xFF, num_bits = int (?n div 2 ^ j)\<rparr>" by auto
  have "frame_initialize s = Inr ?s'" using r(1) by (simp add: frame_initialize_def)
  moreover have "pm_wf ?s'" using r(2,3) u by (simp add: pm_wf_def)
  moreover have "buddy_inv ?s'" using r(3) by (auto simp: buddy_inv_def bits_full cap_def)
  moreover have "free_frames ?s' = {..<?n}" using r(3) [of 0] u by (auto simp: free_frames_def bits_full)
  ultimately show ?thesis using u by auto
qed

section \<open>Properties\<close>

text \<open>A machine with \<open>n\<close> usable frames right before \<open>frame_initialize\<close>, and after it.\<close>

definition pm_boot :: "u32 \<Rightarrow> pm_state" where
  "pm_boot n = \<lparr>pm_start = 0x100000, pm_end = 0x100000 + n * 0x1000, placement_address = 0x100000,
     pm_amount = n * 0x1000, pm_usable = n * 0x1000, initrd_end = 0, initrd_size = 0, nframes = 0,
     buddy_bitmaps = replicate 8 \<lparr>bitmap = [], num_bits = 0\<rparr>\<rparr>"

definition pm_fresh :: "u32 \<Rightarrow> pm_state" where
  "pm_fresh n = (case frame_initialize (pm_boot n) of Inr s \<Rightarrow> s | Inl _ \<Rightarrow> pm_boot n)"

lemma pm_fresh_128:
  "pm_ok (pm_fresh 128)" "free_frames (pm_fresh 128) = {..<128}" "buddy_inv (pm_fresh 128)"
  "unat (nframes (pm_fresh 128)) = 128"
proof -
  show n: "unat (nframes (pm_fresh 128)) = 128" by code_simp
  have "frame_initialize (pm_boot 128) = Inr (pm_fresh 128)" by code_simp
  with frame_initialize_Inr [of "pm_boot 128"] n
  have "pm_wf (pm_fresh 128) \<and> free_frames (pm_fresh 128) = {..<128} \<and> buddy_inv (pm_fresh 128)"
    by (auto simp: pm_boot_def)
  then show "pm_ok (pm_fresh 128)" "free_frames (pm_fresh 128) = {..<128}" "buddy_inv (pm_fresh 128)"
    using pm_covered_128 [of "pm_fresh 128"] n by (auto simp: pm_ok_def)
qed

lemma Min_lessThan [simp]: "0 < n \<Longrightarrow> Min {..<n :: nat} = 0"
  by (auto intro!: Min_eqI)

lemma pm_fresh_128_Min: "free_frames (pm_fresh 128) \<noteq> {}" "Min (free_frames (pm_fresh 128)) = 0"
  by (simp_all add: pm_fresh_128(2) lessThan_empty_iff)

text \<open>
  C1: refinement of the buddy allocator to a set of free frames. Asked for one frame, which is all
  the kernel asks for, \<open>pmalloc\<close> always returns: the lowest free frame, which it takes out of
  the free frames and no other; or -1 with nothing changed when no frame is free. This holds in
  every state whose bitmaps have a bit for every frame at every order (\<open>pm_ok\<close>, which \<open>frame_initialize\<close> gives when the number of
  frames is a multiple of 128), whatever the bits of the higher orders say.
\<close>

theorem pmalloc_frame:
  assumes "pm_ok s"
  shows "\<exists>r s'. pmalloc FRAME_SIZE s = Inr (r, s') \<and> pm_ok s' \<and>
    (if free_frames s = {} then r = -1 \<and> s' = s
     else r = int (Min (free_frames s)) \<and> free_frames s' = free_frames s - {Min (free_frames s)})"
  using pm_frames.alloc_some [OF assms] pm_frames.alloc_none [OF assms] assms
  by (cases "free_frames s = {}") auto

theorem pmalloc_frame_witness:
  "pm_ok (pm_fresh 128) \<and>
   (\<exists>s'. pmalloc FRAME_SIZE (pm_fresh 128) = Inr (0, s') \<and> free_frames s' = {..<128} - {0})"
  using pmalloc_frame [OF pm_fresh_128(1)] pm_fresh_128(1,2) pm_fresh_128_Min by auto

text \<open>
  C2: no frame is handed out twice. While frames are left, a sequence of \<open>n\<close> allocations returns
  \<open>n\<close> different frames, all of them free before and none of them free after.
\<close>

theorem pmalloc_frames_distinct:
  assumes "pm_ok s" and "n \<le> card (free_frames s)"
  shows "\<exists>pfns s'. repeat_res n (pmalloc FRAME_SIZE) s = Inr (pfns, s') \<and> length pfns = n \<and>
    distinct pfns \<and> set pfns \<subseteq> int ` free_frames s \<and> pm_ok s' \<and>
    int ` free_frames s' = int ` free_frames s - set pfns"
  using assms by (rule pm_frames.alloc_distinct)

theorem pmalloc_frames_distinct_witness:
  "pm_ok (pm_fresh 128) \<and> 100 \<le> card (free_frames (pm_fresh 128)) \<and>
   (\<exists>pfns s'. repeat_res 100 (pmalloc FRAME_SIZE) (pm_fresh 128) = Inr (pfns, s') \<and>
      length pfns = 100 \<and> distinct pfns)"
  using pmalloc_frames_distinct [OF pm_fresh_128(1), of 100] pm_fresh_128(1,2) by auto

text \<open>
  C3: freeing undoes allocating. After \<open>pmalloc\<close> has returned a frame, \<open>pfree\<close> of this
  frame returns and the free frames are those of the beginning.
\<close>

theorem pmalloc_pfree_roundtrip:
  assumes "pm_ok s" and "pmalloc FRAME_SIZE s = Inr (pfn, s1)" and "pfn \<noteq> -1"
  shows "\<exists>s2. pfree (of_int pfn) FRAME_SIZE s1 = Inr s2 \<and> pm_ok s2 \<and> free_frames s2 = free_frames s"
proof (rule pm_frames.alloc_release [OF assms(1) _ _ _ assms(2)])
  show "free_frames s \<noteq> {}" using assms pmalloc_frame_none [OF assms(1)] by auto
  show "free_frames s \<subseteq> {..<unat (nframes s)}" by (auto simp: free_frames_def)
qed (use unat_u32_less [of "nframes s"] in \<open>simp add: less_imp_le\<close>)

theorem pmalloc_pfree_roundtrip_witness:
  "\<exists>s1 s2. pmalloc FRAME_SIZE (pm_fresh 128) = Inr (0, s1) \<and> pfree (of_int 0) FRAME_SIZE s1 = Inr s2 \<and>
     free_frames s2 = {..<128}"
proof -
  obtain s1 where s1: "pmalloc FRAME_SIZE (pm_fresh 128) = Inr (0, s1)"
    using pmalloc_frame_some [OF pm_fresh_128(1) pm_fresh_128_Min(1)] pm_fresh_128_Min(2) by auto
  show ?thesis using pmalloc_pfree_roundtrip [OF pm_fresh_128(1) s1] s1 pm_fresh_128(2) by auto
qed

text \<open>
  C4: blocks of any order. From a state in which no used block lies under a block marked free,
  a request of up to 128 frames returns the first block of its order that is marked free: all of its frames were free, all of them are used
  afterwards while the others are as before, and the state is again such a state; or -1 with nothing changed, when no block
  of this order is marked free.
\<close>

theorem pmalloc_block:
  assumes "pm_ok s" and "buddy_inv s" and "get_order sz \<le> MAX_ORDER" and "order = get_order sz"
  shows "\<exists>pfn s'. pmalloc sz s = Inr (pfn, s') \<and> pm_ok s' \<and> buddy_inv s' \<and>
    (if free_blocks order s = {} then pfn = -1 \<and> s' = s
     else pfn = int (Min (free_blocks order s) * 2 ^ order) \<and> block_frames order (nat pfn) \<subseteq> free_frames s \<and>
          free_frames s' = free_frames s - block_frames order (nat pfn))"
proof (cases "free_blocks order s = {}")
  case True
  then have "pmalloc sz s = Inr (-1, s)" using assms by (simp add: pmalloc_eq pm_ok_def find_free_block)
  with True assms(1,2) show ?thesis by simp
next
  case False
  then obtain s' where "pmalloc sz s = Inr (int (Min (free_blocks order s) * 2 ^ order), s')" "pm_ok s'" "buddy_inv s'"
    "block_frames order (Min (free_blocks order s) * 2 ^ order) \<subseteq> free_frames s"
    "free_frames s' = free_frames s - block_frames order (Min (free_blocks order s) * 2 ^ order)"
    using pmalloc_block_some [of s sz] assms unfolding pm_ok_def by auto
  with False show ?thesis by (intro exI [of _ "int (Min (free_blocks order s) * 2 ^ order)"] exI [of _ s']) (simp only: nat_int if_False refl simp_thms)
qed

theorem pmalloc_block_witness:
  "\<exists>s'. pmalloc 0x4000 (pm_fresh 128) = Inr (0, s') \<and> free_frames s' = {4..<128}"
proof -
  have o: "get_order 0x4000 = 2" by code_simp
  have "0 \<in> free_blocks 2 (pm_fresh 128)"
  proof -
    have "bits (buddy_bitmaps (pm_fresh 128) ! 2) 0" by code_simp
    then show ?thesis using pm_fresh_128(4) by (simp add: free_blocks_def)
  qed
  then have "free_blocks 2 (pm_fresh 128) \<noteq> {}" "Min (free_blocks 2 (pm_fresh 128)) = 0" by (auto intro!: Min_eqI)
  moreover obtain pfn s' where r: "pmalloc 0x4000 (pm_fresh 128) = Inr (pfn, s')"
    "if free_blocks 2 (pm_fresh 128) = {} then pfn = -1 \<and> s' = pm_fresh 128
     else pfn = int (Min (free_blocks 2 (pm_fresh 128)) * 2 ^ 2) \<and> block_frames 2 (nat pfn) \<subseteq> free_frames (pm_fresh 128) \<and>
          free_frames s' = free_frames (pm_fresh 128) - block_frames 2 (nat pfn)"
    using pmalloc_block [OF pm_fresh_128(1,3), of "0x4000" 2] o by fastforce
  ultimately have "pfn = 0" "free_frames s' = {..<128} - block_frames 2 0" unfolding pm_fresh_128(2) by simp_all
  moreover have "{..<128} - block_frames 2 0 = {4..<128}" by (auto simp: block_frames_def)
  ultimately show ?thesis using r(1) by blast
qed

text \<open>
  C5: what \<open>frame_initialize\<close> sets up. From the static bitmaps and a usable amount that is a
  non-negative C \<open>int\<close>, it returns a state with one bit per block of every order, in which every
  whole frame of the usable amount is free and the buddy invariant holds.
\<close>

theorem frame_initialize_all_free:
  assumes "length (buddy_bitmaps s) = 8" and "0 \<le> sint (pm_usable s)"
  shows "\<exists>s'. frame_initialize s = Inr s' \<and> pm_wf s' \<and> buddy_inv s' \<and>
    unat (nframes s') = nat (sint (pm_usable s)) div 4096 \<and> free_frames s' = {..<unat (nframes s')}"
  using assms by (rule frame_initialize_Inr)

theorem frame_initialize_all_free_witness:
  "\<exists>s'. frame_initialize (pm_boot 128) = Inr s' \<and> pm_wf s' \<and> buddy_inv s' \<and> free_frames s' = {..<128}"
proof -
  have "length (buddy_bitmaps (pm_boot 128)) = 8" "sint (pm_usable (pm_boot 128)) = 0x80000" by code_simp+
  then show ?thesis using frame_initialize_all_free [of "pm_boot 128"] by auto
qed

text \<open>What \<open>pfree\<close> of one frame does to the bitmaps of all orders.\<close>

lemma mark_free_orders:
  assumes "j \<le> 8" "0 < j" "length bms = 8" "\<And>i. i < 8 \<Longrightarrow> unat (drop_bit i pfn) < cap (bms ! i)" "\<And>i. unat (drop_bit i pfn XOR 1) < cap (bms ! 0)"
  shows "\<exists>bms'. mark_free pfn 0 [j..<8] bms = Inr bms' \<and> same_shape bms bms' \<and>
    (\<forall>m < 8. \<forall>k. bits (bms' ! m) k \<longleftrightarrow> bits (bms ! m) k \<or>
       j \<le> m \<and> k = unat (drop_bit m pfn) \<and> (\<forall>i. j \<le> i \<and> i < m \<longrightarrow> bits (bms ! 0) (unat (drop_bit i pfn XOR 1))))"
  using assms
proof (induction "8 - j" arbitrary: j bms)
  case 0
  then show ?case by auto
next
  case (Suc n)
  then have j: "j < 8" "0 < j" by simp_all
  have c: "unat (drop_bit j pfn) + 1 \<le> cap (bms ! j)" using Suc.prems(4) [OF j(1)] by simp
  from set_run_Inr [OF c] obtain b where b: "set_run (bms ! j) (unat (drop_bit j pfn)) 1 = Inr b" "cap b = cap (bms ! j)" "num_bits b = num_bits (bms ! j)"
    "\<forall>k. bits b k \<longleftrightarrow> bits (bms ! j) k \<or> (unat (drop_bit j pfn) \<le> k \<and> k < unat (drop_bit j pfn) + 1)" by blast
  then have bk: "bits b k \<longleftrightarrow> bits (bms ! j) k \<or> k = unat (drop_bit j pfn)" for k by auto
  have b': "set_run (bms ! j) (unat (drop_bit j pfn)) (Suc 0) = Inr b" using b(1) by simp
  have e: "[j..<8] = j # [Suc j..<8]" using j by (simp add: upt_conv_Cons)
  have sh: "same_shape bms (bms[j := b])" using b(2,3) by (rule same_shape_update)
  have z: "bms[j := b] ! 0 = bms ! 0" using j by simp
  have x: "unat (drop_bit j pfn XOR 1) < cap (bms ! 0)" by (rule Suc.prems(5))
  show ?case
  proof (cases "bits (bms ! 0) (unat (drop_bit j pfn XOR 1))")
    case False
    have "mark_free pfn 0 [j..<8] bms = Inr (bms[j := b])"
      using j Suc.prems(3) b' False x z unfolding e by (simp add: is_bit_set_eq Let_def)
    moreover have "bits (bms[j := b] ! m) k \<longleftrightarrow> bits (bms ! m) k \<or>
       j \<le> m \<and> k = unat (drop_bit m pfn) \<and> (\<forall>i. j \<le> i \<and> i < m \<longrightarrow> bits (bms ! 0) (unat (drop_bit i pfn XOR 1)))" if "m < 8" for m k
      using bk False that Suc.prems(3) by (cases "m = j") auto
    ultimately show ?thesis using sh by blast
  next
    case True
    have "\<exists>bms'. mark_free pfn 0 [Suc j..<8] (bms[j := b]) = Inr bms' \<and> same_shape (bms[j := b]) bms' \<and>
      (\<forall>m < 8. \<forall>k. bits (bms' ! m) k \<longleftrightarrow> bits (bms[j := b] ! m) k \<or>
        Suc j \<le> m \<and> k = unat (drop_bit m pfn) \<and> (\<forall>i. Suc j \<le> i \<and> i < m \<longrightarrow> bits (bms[j := b] ! 0) (unat (drop_bit i pfn XOR 1))))"
    proof (rule Suc.hyps(1))
      fix i show "i < 8 \<Longrightarrow> unat (drop_bit i pfn) < cap (bms[j := b] ! i)" using Suc.prems(3,4) sh by (simp add: same_shape_def)
      show "unat (drop_bit i pfn XOR 1) < cap (bms[j := b] ! 0)" unfolding z by (rule Suc.prems(5))
    qed (use Suc.hyps(2) j Suc.prems(3) in simp_all)
    then obtain bms' where r: "mark_free pfn 0 [Suc j..<8] (bms[j := b]) = Inr bms'" "same_shape (bms[j := b]) bms'"
      "\<forall>m < 8. \<forall>k. bits (bms' ! m) k \<longleftrightarrow> bits (bms[j := b] ! m) k \<or>
        Suc j \<le> m \<and> k = unat (drop_bit m pfn) \<and> (\<forall>i. Suc j \<le> i \<and> i < m \<longrightarrow> bits (bms ! 0) (unat (drop_bit i pfn XOR 1)))"
      unfolding z by blast
    have "mark_free pfn 0 [j..<8] bms = Inr bms'"
      using j Suc.prems(3) b' True x z r(1) unfolding e by (simp add: is_bit_set_eq Let_def)
    moreover have "bits (bms' ! m) k \<longleftrightarrow> bits (bms ! m) k \<or>
       j \<le> m \<and> k = unat (drop_bit m pfn) \<and> (\<forall>i. j \<le> i \<and> i < m \<longrightarrow> bits (bms ! 0) (unat (drop_bit i pfn XOR 1)))" if m: "m < 8" for m k
    proof -
      have "(\<forall>i. j \<le> i \<and> i < m \<longrightarrow> bits (bms ! 0) (unat (drop_bit i pfn XOR 1))) \<longleftrightarrow>
        (\<forall>i. Suc j \<le> i \<and> i < m \<longrightarrow> bits (bms ! 0) (unat (drop_bit i pfn XOR 1)))" if "j < m"
        using True that by (metis Suc_leI le_less Suc_leD)
      then show ?thesis using r(3) m bk Suc.prems(3) by (cases "m = j") (auto simp: Suc_le_eq)
    qed
    ultimately show ?thesis using same_shape_trans [OF sh r(2)] by blast
  qed
qed

lemma pfree_frame_marks:
  assumes "pm_ok s" "unat pfn < unat (nframes s)"
  shows "\<exists>bms. pfree pfn FRAME_SIZE s = Inr (s\<lparr>buddy_bitmaps := bms\<rparr>) \<and> same_shape (buddy_bitmaps s) bms \<and>
    (\<forall>j < 8. \<forall>k. bits (bms ! j) k \<longleftrightarrow> bits (buddy_bitmaps s ! j) k \<or>
       k = unat pfn div 2 ^ j \<and> (\<forall>i < j. bits (bms ! 0) (unat (drop_bit i pfn XOR 1))))"
proof -
  let ?B = "buddy_bitmaps s"
  have len: "length ?B = 8" and fc: "\<And>j. j < 8 \<Longrightarrow> unat (drop_bit j pfn) < cap (?B ! j)"
    using assms by (auto simp: pm_ok_def pm_wf_def pm_covered_def unat_drop_bit_div)
  have xc: "unat (drop_bit j pfn XOR 1) < cap (?B ! 0)" for j
  proof (rule xor_1_less [OF cap_even])
    have "unat (drop_bit j pfn) \<le> unat pfn" by (simp add: unat_drop_bit_div)
    also have "\<dots> < cap (?B ! 0)" using fc [of 0] by simp
    finally show "unat (drop_bit j pfn) < cap (?B ! 0)" .
  qed
  from pm_set_bit_Inr [of "unat pfn" "?B ! 0"] fc [of 0] obtain b where b: "pm_set_bit (?B ! 0) (unat pfn) = Inr b"
    "cap b = cap (?B ! 0)" "num_bits b = num_bits (?B ! 0)" "bits b = (bits (?B ! 0))(unat pfn := True)" by auto
  let ?C = "?B[0 := b]"
  have sh: "same_shape ?B ?C" using b(2,3) by (rule same_shape_update)
  have z: "?C ! 0 = b" using len by simp
  have e: "[0..<8] = 0 # [1..<8::nat]" by (simp add: upt_rec)
  have x0: "unat (pfn XOR 1) < cap b" using xc [of 0] b(2) by simp
  show ?thesis
  proof (cases "bits b (unat (pfn XOR 1))")
    case False
    have "mark_free pfn 0 [0..<8] ?B = Inr ?C" using len b(1) False x0 unfolding e by (simp add: is_bit_set_eq Let_def)
    moreover have "bits (?C ! j) k \<longleftrightarrow> bits (?B ! j) k \<or> k = unat pfn div 2 ^ j \<and> (\<forall>i < j. bits (?C ! 0) (unat (drop_bit i pfn XOR 1)))" if "j < 8" for j k
    proof (cases "j = 0")
      case True
      then show ?thesis using b(4) z by auto
    next
      case j0: False
      have "\<not> (\<forall>i < j. bits b (unat (drop_bit i pfn XOR 1)))" using False j0 by (auto intro: exI [of _ 0])
      then show ?thesis using j0 z by auto
    qed
    ultimately show ?thesis using sh by (intro exI [of _ ?C]) (simp add: pfree_def)
  next
    case True
    have fc': "unat (drop_bit i pfn) < cap (?C ! i)" if "i < 8" for i using fc [OF that] sh len that by (simp add: same_shape_def)
    have xc': "unat (drop_bit i pfn XOR 1) < cap (?C ! 0)" for i using xc [of i] b(2) z by simp
    obtain bms where m: "mark_free pfn 0 [1..<8] ?C = Inr bms" "same_shape ?C bms"
      "\<forall>m < 8. \<forall>k. bits (bms ! m) k \<longleftrightarrow> bits (?C ! m) k \<or>
         1 \<le> m \<and> k = unat (drop_bit m pfn) \<and> (\<forall>i. 1 \<le> i \<and> i < m \<longrightarrow> bits (?C ! 0) (unat (drop_bit i pfn XOR 1)))"
      using mark_free_orders [of 1 ?C pfn] fc' xc' len by auto
    have b0: "bits (bms ! 0) = bits b" using m(3) z by auto
    have "mark_free pfn 0 [0..<8] ?B = Inr bms" using len b(1) True x0 m(1) unfolding e by (simp add: is_bit_set_eq Let_def)
    moreover have "bits (bms ! j) k \<longleftrightarrow> bits (?B ! j) k \<or> k = unat pfn div 2 ^ j \<and> (\<forall>i < j. bits (bms ! 0) (unat (drop_bit i pfn XOR 1)))" if j: "j < 8" for j k
    proof (cases "j = 0")
      case True
      then show ?thesis using b0 b(4) by auto
    next
      case False
      have "(\<forall>i < j. bits b (unat (drop_bit i pfn XOR 1))) \<longleftrightarrow> (\<forall>i. 1 \<le> i \<and> i < j \<longrightarrow> bits b (unat (drop_bit i pfn XOR 1)))"
        using True by (metis One_nat_def Suc_leI drop_bit_0 gr0I id_apply)
      then show ?thesis using m(3) j False z b0 by (simp add: unat_drop_bit_div Suc_le_eq)
    qed
    ultimately show ?thesis using same_shape_trans [OF sh m(2)] by (intro exI [of _ bms]) (simp add: pfree_def)
  qed
qed

lemma pmalloc_first_block:
  assumes "pm_ok s" "get_order sz < 8" "free_blocks (get_order sz) s \<noteq> {}"
  shows "\<exists>s'. pmalloc sz s = Inr (int (Min (free_blocks (get_order sz) s) * 2 ^ get_order sz), s')"
proof -
  let ?o = "get_order sz" and ?i = "Min (free_blocks (get_order sz) s)"
  have "?i \<in> free_blocks ?o s" using assms(3) by simp
  then have i: "?i < unat (nframes s) div 2 ^ ?o" by (auto simp: free_blocks_def)
  have wf: "pm_wf s" "pm_covered s" "length (buddy_bitmaps s) = 8" using assms(1) by (auto simp: pm_ok_def pm_wf_def)
  obtain bms where "mark_used ?o ?i [0..<8] (buddy_bitmaps s) = Inr bms"
    using mark_used_other [of "[0..<8]" "buddy_bitmaps s" ?o ?i] start_index_in_bitmap [OF wf(1,2) i] wf(3) by auto
  then show ?thesis using assms(3) by (simp add: pmalloc_eq [OF wf(1) assms(2)] find_free_block)
qed

text \<open>Frames 0 to 3 are handed out, then 0 is freed again.\<close>

definition merge_scenario :: "pm_state res" where
  "merge_scenario = res_bind (repeat_res 4 (pmalloc FRAME_SIZE) (pm_fresh 128)) (\<lambda>(pfns, s). pfree 0 FRAME_SIZE s)"

definition merge_pm :: pm_state where
  "merge_pm = (case merge_scenario of Inr s \<Rightarrow> s | Inl _ \<Rightarrow> pm_boot 0)"

text \<open>
  C40: \<open>pfree\<close> merges too far. Its loop asks the bitmap of the order of the request, not the
  one of the order it has reached, whether the buddy is free. Freeing the frame \<open>f\<close> marks, besides the frame, exactly those blocks around it
  as free for which the frames with the numbers of the buddies are free at all orders below; whether the other frames of such a block are free plays no part. So if the frames \<open>f XOR 1\<close> and
  \<open>(f div 2) XOR 1\<close> are free and no earlier block of four frames is marked, the next request for four frames
  returns the block around \<open>f\<close>, in whatever use its other two frames are.
\<close>

theorem pfree_merges_used_frames:
  assumes "pm_ok s" and "unat f < unat (nframes s)"
  shows "\<exists>s'. pfree f FRAME_SIZE s = Inr s' \<and> pm_ok s' \<and> free_frames s' = insert (unat f) (free_frames s) \<and>
    (\<forall>j \<le> MAX_ORDER. \<forall>k. bits (buddy_bitmaps s' ! j) k \<longleftrightarrow> bits (buddy_bitmaps s ! j) k \<or>
       k = unat f div 2 ^ j \<and> (\<forall>i < j. bits (buddy_bitmaps s' ! 0) (unat (drop_bit i f XOR 1)))) \<and>
    (unat (f XOR 1) \<in> free_frames s' \<and> unat (drop_bit 1 f XOR 1) \<in> free_frames s' \<and> unat f div 4 < unat (nframes s) div 4 \<and>
       (\<forall>k < unat f div 4. \<not> bits (buddy_bitmaps s ! 2) k) \<longrightarrow>
     (\<exists>s''. pmalloc 0x4000 s' = Inr (int (4 * (unat f div 4)), s'')))"
proof -
  obtain bms where b: "pfree f FRAME_SIZE s = Inr (s\<lparr>buddy_bitmaps := bms\<rparr>)" "same_shape (buddy_bitmaps s) bms"
    "\<forall>j < 8. \<forall>k. bits (bms ! j) k \<longleftrightarrow> bits (buddy_bitmaps s ! j) k \<or>
       k = unat f div 2 ^ j \<and> (\<forall>i < j. bits (bms ! 0) (unat (drop_bit i f XOR 1)))"
    using pfree_frame_marks [OF assms] by blast
  let ?s' = "s\<lparr>buddy_bitmaps := bms\<rparr>"
  obtain bms' where b': "pfree f FRAME_SIZE s = Inr (s\<lparr>buddy_bitmaps := bms'\<rparr>)" "pm_ok (s\<lparr>buddy_bitmaps := bms'\<rparr>)"
    "free_frames (s\<lparr>buddy_bitmaps := bms'\<rparr>) = insert (unat f) (free_frames s)" using pfree_frame [OF assms] by blast
  have "s\<lparr>buddy_bitmaps := bms'\<rparr> = ?s'" using b(1) b'(1) by (simp only: sum.inject)
  then have ok: "pm_ok ?s'" "free_frames ?s' = insert (unat f) (free_frames s)" using b'(2,3) by simp_all
  have o: "get_order 0x4000 = 2" by code_simp
  have "\<exists>s''. pmalloc 0x4000 ?s' = Inr (int (4 * (unat f div 4)), s'')"
    if h: "unat (f XOR 1) \<in> free_frames ?s'" "unat (drop_bit 1 f XOR 1) \<in> free_frames ?s'" "unat f div 4 < unat (nframes s) div 4"
      "\<forall>k < unat f div 4. \<not> bits (buddy_bitmaps s ! 2) k"
  proof -
    have "\<forall>i < 2. bits (bms ! 0) (unat (drop_bit i f XOR 1))" using h(1,2) by (auto simp: free_frames_def less_2_cases_iff)
    then have set: "bits (bms ! 2) (unat f div 4)" using b(3) by simp
    then have m: "unat f div 4 \<in> free_blocks 2 ?s'" using h(3) by (simp add: free_blocks_def)
    have "unat f div 4 \<le> k" if "k \<in> free_blocks 2 ?s'" for k
    proof (rule ccontr)
      assume "\<not> ?thesis"
      then show False using that h(4) b(3) [rule_format, of 2 k] by (auto simp: free_blocks_def)
    qed
    then have "Min (free_blocks 2 ?s') = unat f div 4" using m by (intro Min_eqI) auto
    then show ?thesis using pmalloc_first_block [OF ok(1), of "0x4000"] m o by (auto simp: mult.commute)
  qed
  moreover have "\<forall>j \<le> MAX_ORDER. \<forall>k. bits (buddy_bitmaps ?s' ! j) k \<longleftrightarrow> bits (buddy_bitmaps s ! j) k \<or>
       k = unat f div 2 ^ j \<and> (\<forall>i < j. bits (buddy_bitmaps ?s' ! 0) (unat (drop_bit i f XOR 1)))"
    using b(3) by simp
  ultimately show ?thesis using b(1) ok by (intro exI [of _ ?s'] conjI) (assumption | blast)+
qed

theorem pfree_merges_used_frames_witness:
  "\<exists>s' s''. pfree 1 FRAME_SIZE merge_pm = Inr s' \<and> 2 \<notin> free_frames s' \<and> 3 \<notin> free_frames s' \<and>
     pmalloc 0x4000 s' = Inr (0, s'') \<and> block_frames (get_order 0x4000) 0 = {0..<4}"
proof -
  have r: "\<exists>pfns s. repeat_res 4 (pmalloc FRAME_SIZE) (pm_fresh 128) = Inr (pfns, s) \<and> pm_ok s"
    using pm_frames.alloc_distinct [OF pm_fresh_128(1), of 4] pm_fresh_128(2) by auto
  have n: "unat (nframes merge_pm) = 128" by code_simp
  have b: "\<not> bits (buddy_bitmaps merge_pm ! 0) 1" "\<not> bits (buddy_bitmaps merge_pm ! 0) 2" "\<not> bits (buddy_bitmaps merge_pm ! 0) 3"
     "bits (buddy_bitmaps merge_pm ! 0) 0" "get_order 0x4000 = 2" by code_simp+
  obtain pfns s where s: "repeat_res 4 (pmalloc FRAME_SIZE) (pm_fresh 128) = Inr (pfns, s)" "pm_ok s" using r by blast
  then have e: "merge_scenario = pfree 0 FRAME_SIZE s" by (simp add: merge_scenario_def)
  have "merge_scenario = Inr merge_pm" unfolding merge_pm_def by code_simp
  moreover have "unat (nframes s) = 128"
  proof -
    have "case repeat_res 4 (pmalloc FRAME_SIZE) (pm_fresh 128) of Inr (_, s) \<Rightarrow> nframes s = 128 | Inl _ \<Rightarrow> False" by code_simp
    then show ?thesis using s(1) by simp
  qed
  moreover from this obtain bms where "pfree 0 FRAME_SIZE s = Inr (s\<lparr>buddy_bitmaps := bms\<rparr>)" "pm_ok (s\<lparr>buddy_bitmaps := bms\<rparr>)"
    using pfree_frame [OF s(2), of 0] by auto
  ultimately have ok: "pm_ok merge_pm" unfolding e by simp
  have f: "unat (1 :: u32) < unat (nframes merge_pm)" using n by simp
  obtain s' where s': "pfree 1 FRAME_SIZE merge_pm = Inr s'" "free_frames s' = insert 1 (free_frames merge_pm)"
    "unat (1 XOR 1 :: u32) \<in> free_frames s' \<and> unat (drop_bit 1 1 XOR 1 :: u32) \<in> free_frames s' \<and> unat (1 :: u32) div 4 < unat (nframes merge_pm) div 4 \<and>
       (\<forall>k < unat (1 :: u32) div 4. \<not> bits (buddy_bitmaps merge_pm ! 2) k) \<longrightarrow> (\<exists>s''. pmalloc 0x4000 s' = Inr (int (4 * (unat (1 :: u32) div 4)), s''))"
    using pfree_merges_used_frames [OF ok f] by auto
  have "0 \<in> free_frames s'" "1 \<in> free_frames s'" "2 \<notin> free_frames s'" "3 \<notin> free_frames s'" using s'(2) b n by (auto simp: free_frames_def)
  moreover have "drop_bit 1 (1 :: u32) = 0" by code_simp
  ultimately show ?thesis using s'(1,3) n b(5) by (auto simp: block_frames_def)
qed

end
