(* ===== verification/Vm_State.thy ===== *)
theory Vm_State
  imports Pm
begin

text \<open>
  The state of \<^verbatim>\<open>kernel/arch/i386/vm.c\<close> and its data types (\<^verbatim>\<open>kernel/include/kernel/vm.h\<close>).
  A pointer is a 32-bit word, \<open>NULL\<close> is 0. Objects live in stores, one per type: a store maps
  the address of an object to its fields, so that two pointers to the same address see
  each other's writes. A dereference of \<open>NULL\<close> is the error \<open>NullDeref\<close>, a dereference
  of an address without an object is \<open>BadPointer\<close>. That objects of different types do not
  overlap in memory is what the allocation theorems are about; the stores assume it.
\<close>

section \<open>Data\<close>

record avl_node =
  avl_base :: u32
  avl_size :: u32
  avl_height :: int
  avl_left :: u32
  avl_right :: u32

record header =
  magic :: u32
  block_size :: u32

record heap =
  root :: u32
  start_addr :: u32
  end_addr :: u32
  max_size :: u32
  supervisor :: bool
  readonly :: bool

text \<open>The arrays \<open>entries\<close> and \<open>tables\<close> have 1024 elements each.\<close>

record page_directory =
  entries :: "u32 list"
  tables :: "u32 list"
  paddr_pde :: u32

type_synonym node_store = "u32 \<Rightarrow> avl_node option"

record vm =
  vm_pm :: pm_state
  nodes :: node_store
  headers :: "u32 \<Rightarrow> header option"
  heaps :: "u32 \<Rightarrow> heap option"
  page_tables :: "u32 \<Rightarrow> u32 list option"
  page_dirs :: "u32 \<Rightarrow> page_directory option"
  kheap :: u32
  kernel_pd :: u32
  current_pd :: u32
  cr0 :: u32
  cr3 :: u32
  phys_mem :: "u32 \<Rightarrow> u8"
  vm_out :: "(string \<times> u32 list) list"

text \<open>
  The calls of \<open>printf\<close> in the memory manager are kept in \<open>vm_out\<close>, each with its format and its arguments, until the console
  (theory \<open>Shell\<close>) prints them.
\<close>

definition vm_print :: "string \<Rightarrow> u32 list \<Rightarrow> vm \<Rightarrow> vm" where
  "vm_print fmt args s = s\<lparr>vm_out := vm_out s @ [(fmt, args)]\<rparr>"

section \<open>Dereferencing\<close>

definition deref :: "(u32 \<Rightarrow> 'a option) \<Rightarrow> u32 \<Rightarrow> 'a res" where
  "deref m p = (if p = 0 then Inl NullDeref
                else case m p of None \<Rightarrow> Inl BadPointer | Some x \<Rightarrow> Inr x)"

definition update_at :: "('a \<Rightarrow> 'a) \<Rightarrow> u32 \<Rightarrow> (u32 \<Rightarrow> 'a option) \<Rightarrow> (u32 \<Rightarrow> 'a option) res" where
  "update_at f p m = res_bind (deref m p) (\<lambda>x. Inr (m(p \<mapsto> f x)))"

lemma deref_Some [simp]: "p \<noteq> 0 \<Longrightarrow> m p = Some x \<Longrightarrow> deref m p = Inr x"
  by (simp add: deref_def)

lemma deref_0 [simp]: "deref m 0 = Inl NullDeref"
  by (simp add: deref_def)

lemma deref_Inr: "deref m p = Inr x \<longleftrightarrow> p \<noteq> 0 \<and> m p = Some x"
  by (auto simp: deref_def split: option.splits)

lemma update_at_Some [simp]: "p \<noteq> 0 \<Longrightarrow> m p = Some x \<Longrightarrow> update_at f p m = Inr (m(p \<mapsto> f x))"
  by (simp add: update_at_def)

section \<open>Sizes of the structures on the target\<close>

abbreviation sizeof_header :: u32 where "sizeof_header \<equiv> 8"
abbreviation sizeof_avl_node :: u32 where "sizeof_avl_node \<equiv> 20"
abbreviation sizeof_heap :: u32 where "sizeof_heap \<equiv> 20"
abbreviation sizeof_page_table :: u32 where "sizeof_page_table \<equiv> 0x1000"
abbreviation sizeof_page_directory :: u32 where "sizeof_page_directory \<equiv> 0x2004"

abbreviation HEAP_MAGIC :: u32 where "HEAP_MAGIC \<equiv> 0x5AFE205E"
abbreviation HEAP_MIN_SIZE :: u32 where "HEAP_MIN_SIZE \<equiv> 0x70000"
abbreviation KHEAP_START :: u32 where "KHEAP_START \<equiv> 0xC0000000"
abbreviation KHEAP_INITIAL_SIZE :: u32 where "KHEAP_INITIAL_SIZE \<equiv> 0x100000"
abbreviation KHEAP_MAX_SIZE :: u32 where "KHEAP_MAX_SIZE \<equiv> 0xCFFFF000"

text \<open>
  The interface of \<open>ikmalloc\<close> inside \<open>vm.c\<close>: size, page alignment, whether the caller
  passes a place for the physical address; the result is the virtual address, the physical
  address if asked for, and the new state.
\<close>

type_synonym malloc_fn = "u32 \<Rightarrow> bool \<Rightarrow> bool \<Rightarrow> vm \<Rightarrow> (u32 \<times> u32 option \<times> vm) res"

end
