(* ===== verification/Avl.thy ===== *)
theory Avl
  imports Vm_State
begin

text \<open>
  The AVL tree of free blocks (\<^verbatim>\<open>vm.c\<close>, from \<open>create_node\<close> to \<open>free_avl_tree\<close>), as it
  is written: nodes in a store, changed in place through pointers. A new node is allocated
  with \<open>kmalloc\<close>, that is, from the very heap whose free blocks the tree holds; the
  allocator is a parameter here, tied to the model's own \<open>ikmalloc\<close> in theory \<open>Kheap\<close>.
  The argument \<open>d\<close> of the recursive functions bounds the depth of the recursion.
\<close>

section \<open>Nodes\<close>

definition create_node :: "malloc_fn \<Rightarrow> u32 \<Rightarrow> u32 \<Rightarrow> vm \<Rightarrow> (u32 \<times> vm) res" where
  "create_node malloc base sz s =
     res_bind (malloc sizeof_avl_node False False s) (\<lambda>(node, _, s).
     if node = 0 then Inl NullDeref
     else Inr (node, s\<lparr>nodes := (nodes s)(node \<mapsto>
            \<lparr>avl_base = base, avl_size = sz, avl_height = 1, avl_left = 0, avl_right = 0\<rparr>)\<rparr>))"

definition height :: "node_store \<Rightarrow> u32 \<Rightarrow> int res" where
  "height m node = (if node \<noteq> 0 then res_bind (deref m node) (\<lambda>n. Inr (avl_height n)) else Inr 0)"

definition get_balance :: "node_store \<Rightarrow> u32 \<Rightarrow> int res" where
  "get_balance m node =
     (if node \<noteq> 0
      then res_bind (deref m node) (\<lambda>n.
           res_bind (height m (avl_left n)) (\<lambda>hl.
           res_bind (height m (avl_right n)) (\<lambda>hr. Inr (hl - hr))))
      else Inr 0)"

text \<open>The C expression \<^verbatim>\<open>(height(a) > height(b)) ? height(a) : height(c)\<close>.\<close>

definition pick_height :: "node_store \<Rightarrow> u32 \<Rightarrow> u32 \<Rightarrow> u32 \<Rightarrow> int res" where
  "pick_height m a b c =
     res_bind (height m a) (\<lambda>ha. res_bind (height m b) (\<lambda>hb. if ha > hb then Inr ha else height m c))"

definition set_height :: "u32 \<Rightarrow> int \<Rightarrow> node_store \<Rightarrow> node_store res" where
  "set_height p h = update_at (\<lambda>n. n\<lparr>avl_height := h\<rparr>) p"

section \<open>Rotations\<close>

text \<open>
  Both rotations compute one height from the wrong pair of subtrees: \<open>rotate_right\<close>
  compares \<^verbatim>\<open>x->left\<close> with \<^verbatim>\<open>y->right\<close> for the height of \<open>x\<close>, \<open>rotate_left\<close>
  compares \<^verbatim>\<open>x->left\<close> with \<^verbatim>\<open>y->right\<close> for the height of \<open>x\<close>.
\<close>

definition rotate_right :: "u32 \<Rightarrow> node_store \<Rightarrow> (u32 \<times> node_store) res" where
  "rotate_right y m =
     res_bind (deref m y) (\<lambda>ny. let x = avl_left ny in
     res_bind (deref m x) (\<lambda>nx. let T2 = avl_right nx in
     res_bind (update_at (\<lambda>n. n\<lparr>avl_right := y\<rparr>) x m) (\<lambda>m.
     res_bind (update_at (\<lambda>n. n\<lparr>avl_left := T2\<rparr>) y m) (\<lambda>m.
     res_bind (deref m y) (\<lambda>ny.
     res_bind (pick_height m (avl_left ny) (avl_right ny) (avl_right ny)) (\<lambda>h.
     res_bind (set_height y (1 + h) m) (\<lambda>m.
     res_bind (deref m x) (\<lambda>nx.
     res_bind (deref m y) (\<lambda>ny.
     res_bind (pick_height m (avl_left nx) (avl_right ny) (avl_right nx)) (\<lambda>h.
     res_bind (set_height x (1 + h) m) (\<lambda>m.
     Inr (x, m))))))))))))"

definition rotate_left :: "u32 \<Rightarrow> node_store \<Rightarrow> (u32 \<times> node_store) res" where
  "rotate_left x m =
     res_bind (deref m x) (\<lambda>nx. let y = avl_right nx in
     res_bind (deref m y) (\<lambda>ny. let T2 = avl_left ny in
     res_bind (update_at (\<lambda>n. n\<lparr>avl_left := x\<rparr>) y m) (\<lambda>m.
     res_bind (update_at (\<lambda>n. n\<lparr>avl_right := T2\<rparr>) x m) (\<lambda>m.
     res_bind (deref m x) (\<lambda>nx.
     res_bind (deref m y) (\<lambda>ny.
     res_bind (pick_height m (avl_left nx) (avl_right ny) (avl_right nx)) (\<lambda>h.
     res_bind (set_height x (1 + h) m) (\<lambda>m.
     res_bind (deref m y) (\<lambda>ny.
     res_bind (pick_height m (avl_left ny) (avl_right ny) (avl_right ny)) (\<lambda>h.
     res_bind (set_height y (1 + h) m) (\<lambda>m.
     Inr (y, m))))))))))))"

text \<open>\<^verbatim>\<open>node->left = rotate_left(node->left); return rotate_right(node);\<close> and its mirror image.\<close>

definition rotate_left_right :: "u32 \<Rightarrow> node_store \<Rightarrow> (u32 \<times> node_store) res" where
  "rotate_left_right node m =
     res_bind (deref m node) (\<lambda>n.
     res_bind (rotate_left (avl_left n) m) (\<lambda>(l, m).
     res_bind (update_at (\<lambda>n. n\<lparr>avl_left := l\<rparr>) node m) (rotate_right node)))"

definition rotate_right_left :: "u32 \<Rightarrow> node_store \<Rightarrow> (u32 \<times> node_store) res" where
  "rotate_right_left node m =
     res_bind (deref m node) (\<lambda>n.
     res_bind (rotate_right (avl_right n) m) (\<lambda>(r, m).
     res_bind (update_at (\<lambda>n. n\<lparr>avl_right := r\<rparr>) node m) (rotate_left node)))"

text \<open>\<^verbatim>\<open>node->height = 1 + (height(left) > height(right) ? height(left) : height(right))\<close>.\<close>

definition update_height :: "u32 \<Rightarrow> node_store \<Rightarrow> node_store res" where
  "update_height node m =
     res_bind (deref m node) (\<lambda>n.
     res_bind (pick_height m (avl_left n) (avl_right n) (avl_right n)) (\<lambda>h.
     set_height node (1 + h) m))"

section \<open>Insertion\<close>

text \<open>
  The end of \<open>avl_insert\<close>: the height and the four rotation cases. The two tests for a tree
  that leans to the left are merged, as are the two for the right; they read the same child.
\<close>

definition insert_rebalance :: "u32 \<Rightarrow> u32 \<Rightarrow> node_store \<Rightarrow> (u32 \<times> node_store) res" where
  "insert_rebalance node base m =
     res_bind (update_height node m) (\<lambda>m.
     res_bind (get_balance m node) (\<lambda>balance.
     res_bind (deref m node) (\<lambda>n.
     if balance > 1 then
       res_bind (deref m (avl_left n)) (\<lambda>l.
       if base < avl_base l then rotate_right node m
       else if base > avl_base l then rotate_left_right node m
       else Inr (node, m))
     else if balance < -1 then
       res_bind (deref m (avl_right n)) (\<lambda>r.
       if base > avl_base r then rotate_left node m
       else if base < avl_base r then rotate_right_left node m
       else Inr (node, m))
     else Inr (node, m))))"

text \<open>Run an operation on the nodes inside of the state.\<close>

definition on_nodes :: "(node_store \<Rightarrow> ('a \<times> node_store) res) \<Rightarrow> vm \<Rightarrow> ('a \<times> vm) res" where
  "on_nodes f s = res_bind (f (nodes s)) (\<lambda>(x, m). Inr (x, s\<lparr>nodes := m\<rparr>))"

fun avl_insert :: "malloc_fn \<Rightarrow> nat \<Rightarrow> u32 \<Rightarrow> u32 \<Rightarrow> u32 \<Rightarrow> vm \<Rightarrow> (u32 \<times> vm) res" where
  "avl_insert malloc 0 node base sz s = Inl OutOfFuel"
| "avl_insert malloc (Suc d) node base sz s =
     (if sz = 0 then Inr (node, s)
      else if node = 0 then create_node malloc base sz s
      else res_bind (deref (nodes s) node) (\<lambda>n.
        if base < avl_base n then
          res_bind (avl_insert malloc d (avl_left n) base sz s) (\<lambda>(l, s).
          on_nodes (\<lambda>m. res_bind (update_at (\<lambda>n. n\<lparr>avl_left := l\<rparr>) node m) (insert_rebalance node base)) s)
        else if base > avl_base n then
          res_bind (avl_insert malloc d (avl_right n) base sz s) (\<lambda>(r, s).
          on_nodes (\<lambda>m. res_bind (update_at (\<lambda>n. n\<lparr>avl_right := r\<rparr>) node m) (insert_rebalance node base)) s)
        else Inr (node, s)))"

section \<open>Deletion\<close>

fun find_min_base :: "nat \<Rightarrow> u32 \<Rightarrow> node_store \<Rightarrow> u32 res" where
  "find_min_base 0 node m = Inl OutOfFuel"
| "find_min_base (Suc d) node m =
     res_bind (deref m node) (\<lambda>n.
     if avl_left n \<noteq> 0 then find_min_base d (avl_left n) m else Inr node)"

definition delete_rebalance :: "u32 \<Rightarrow> node_store \<Rightarrow> (u32 \<times> node_store) res" where
  "delete_rebalance node m =
     res_bind (update_height node m) (\<lambda>m.
     res_bind (get_balance m node) (\<lambda>balance.
     res_bind (deref m node) (\<lambda>n.
     if balance > 1 then
       res_bind (get_balance m (avl_left n)) (\<lambda>bl.
       if bl \<ge> 0 then rotate_right node m else rotate_left_right node m)
     else if balance < -1 then
       res_bind (get_balance m (avl_right n)) (\<lambda>br.
       if br \<le> 0 then rotate_left node m else rotate_right_left node m)
     else Inr (node, m))))"

fun avl_delete :: "nat \<Rightarrow> u32 \<Rightarrow> u32 \<Rightarrow> node_store \<Rightarrow> (u32 \<times> node_store) res" where
  "avl_delete 0 node base m = Inl OutOfFuel"
| "avl_delete (Suc d) node base m =
     (if node = 0 then Inr (node, m)
      else res_bind (deref m node) (\<lambda>n.
        if base < avl_base n then
          res_bind (avl_delete d (avl_left n) base m) (\<lambda>(l, m).
          res_bind (update_at (\<lambda>n. n\<lparr>avl_left := l\<rparr>) node m) (delete_rebalance node))
        else if base > avl_base n then
          res_bind (avl_delete d (avl_right n) base m) (\<lambda>(r, m).
          res_bind (update_at (\<lambda>n. n\<lparr>avl_right := r\<rparr>) node m) (delete_rebalance node))
        else if avl_left n = 0 \<and> avl_right n = 0 then Inr (0, m)
        else if avl_left n = 0 \<or> avl_right n = 0 then
          Inr (if avl_left n \<noteq> 0 then avl_left n else avl_right n, m)
        else
          res_bind (find_min_base d (avl_right n) m) (\<lambda>temp.
          res_bind (deref m temp) (\<lambda>t.
          res_bind (update_at (\<lambda>n. n\<lparr>avl_base := avl_base t, avl_size := avl_size t\<rparr>) node m) (\<lambda>m.
          res_bind (avl_delete d (avl_right n) (avl_base t) m) (\<lambda>(r, m).
          res_bind (update_at (\<lambda>n. n\<lparr>avl_right := r\<rparr>) node m) (delete_rebalance node)))))))"

section \<open>Search\<close>

fun find_best_fit :: "nat \<Rightarrow> u32 \<Rightarrow> u32 \<Rightarrow> node_store \<Rightarrow> u32 res" where
  "find_best_fit 0 node sz m = Inl OutOfFuel"
| "find_best_fit (Suc d) node sz m =
     (if node = 0 then Inr 0
      else res_bind (deref m node) (\<lambda>n.
        if avl_size n \<ge> sz then
          res_bind (find_best_fit d (avl_left n) sz m) (\<lambda>left_best.
          if left_best \<noteq> 0 then
            res_bind (deref m left_best) (\<lambda>b.
            Inr (if avl_size b < avl_size n then left_best else node))
          else Inr node)
        else find_best_fit d (avl_right n) sz m))"

text \<open>The traversal frees nothing: the \<open>kfree\<close> in it is commented out.\<close>

fun free_avl_tree :: "nat \<Rightarrow> u32 \<Rightarrow> node_store \<Rightarrow> unit res" where
  "free_avl_tree 0 node m = Inl OutOfFuel"
| "free_avl_tree (Suc d) node m =
     (if node = 0 then Inr ()
      else res_bind (deref m node) (\<lambda>n.
           res_bind (free_avl_tree d (avl_left n) m) (\<lambda>_. free_avl_tree d (avl_right n) m)))"

end
