(* ===== verification/Pages.thy ===== *)
theory Pages
  imports Avl
begin

text \<open>
  Page table entries (\<^verbatim>\<open>vm.c\<close>: \<open>get_page\<close>, \<open>alloc_frame\<close>, \<open>free_frame\<close>). A pointer to an entry
  is the address of its page table with an index. A page table that is missing is allocated with
  \<open>ikmalloc\<close>, which is a parameter here as it is in theory \<open>Avl\<close>.
\<close>

section \<open>Flags\<close>

abbreviation PAGE_PRESENT :: u32 where "PAGE_PRESENT \<equiv> 0x1"
abbreviation PAGE_RW :: u32 where "PAGE_RW \<equiv> 0x2"
abbreviation PAGE_USER :: u32 where "PAGE_USER \<equiv> 0x4"
abbreviation PAGE_WRITETHRU :: u32 where "PAGE_WRITETHRU \<equiv> 0x8"
abbreviation PAGE_CACHE_DIS :: u32 where "PAGE_CACHE_DIS \<equiv> 0x10"
abbreviation PAGE_ACCESSED :: u32 where "PAGE_ACCESSED \<equiv> 0x20"
abbreviation PAGE_DIRTY :: u32 where "PAGE_DIRTY \<equiv> 0x40"
abbreviation TABLE_PRESENT :: u32 where "TABLE_PRESENT \<equiv> 0x1"
abbreviation TABLE_RW :: u32 where "TABLE_RW \<equiv> 0x2"
abbreviation TABLE_USER :: u32 where "TABLE_USER \<equiv> 0x4"
abbreviation PT_ENTRIES :: nat where "PT_ENTRIES \<equiv> 1024"
abbreviation PD_ENTRIES :: nat where "PD_ENTRIES \<equiv> 1024"

section \<open>Entries\<close>

text \<open>A \<^verbatim>\<open>pte_t *\<close>; \<open>None\<close> is \<open>NULL\<close>.\<close>

type_synonym pte_ptr = "(u32 \<times> nat) option"

fun read_pte :: "pte_ptr \<Rightarrow> vm \<Rightarrow> u32 res" where
  "read_pte None s = Inl NullDeref"
| "read_pte (Some (pt, i)) s = res_bind (deref (page_tables s) pt) (\<lambda>es. arr_get es i)"

fun write_pte :: "pte_ptr \<Rightarrow> u32 \<Rightarrow> vm \<Rightarrow> vm res" where
  "write_pte None v s = Inl NullDeref"
| "write_pte (Some (pt, i)) v s =
     res_bind (deref (page_tables s) pt) (\<lambda>es.
     res_bind (arr_set es i v) (\<lambda>es. Inr (s\<lparr>page_tables := (page_tables s)(pt \<mapsto> es)\<rparr>)))"

definition PTE_TO_PFN :: "u32 \<Rightarrow> u32" where
  "PTE_TO_PFN pte = drop_bit 12 pte"

text \<open>The stores \<^verbatim>\<open>pd->tables[i] = ...\<close> and \<^verbatim>\<open>pd->entries[i] = ...\<close>.\<close>

definition set_table :: "u32 \<Rightarrow> nat \<Rightarrow> u32 \<Rightarrow> u32 \<Rightarrow> vm \<Rightarrow> vm res" where
  "set_table pd i table entry s =
     res_bind (deref (page_dirs s) pd) (\<lambda>p.
     res_bind (arr_set (tables p) i table) (\<lambda>ts.
     res_bind (arr_set (entries p) i entry) (\<lambda>es.
     Inr (s\<lparr>page_dirs := (page_dirs s)(pd \<mapsto> p\<lparr>tables := ts, entries := es\<rparr>)\<rparr>))))"

definition get_page :: "malloc_fn \<Rightarrow> u32 \<Rightarrow> u32 \<Rightarrow> bool \<Rightarrow> vm \<Rightarrow> (pte_ptr \<times> vm) res" where
  "get_page malloc vaddr pd create s =
     (let pd_index = unat (drop_bit 22 vaddr); pt_index = unat (drop_bit 12 vaddr AND 0x03FF) in
      res_bind (deref (page_dirs s) pd) (\<lambda>p.
      res_bind (arr_get (tables p) pd_index) (\<lambda>table.
      if table \<noteq> 0 then Inr (Some (table, pt_index), s)
      else if \<not> create then Inr (None, s)
      else
        res_bind (malloc sizeof_page_table True True s) (\<lambda>(new_table, paddr, s).
        if new_table = 0 then Inr (None, s)
        else case paddr of
          None \<Rightarrow> Inl BadPointer
        | Some paddr \<Rightarrow>
            res_bind (set_table pd pd_index new_table (paddr OR TABLE_PRESENT OR TABLE_RW)
              (s\<lparr>page_tables := (page_tables s)(new_table \<mapsto> replicate PT_ENTRIES PAGE_RW)\<rparr>)) (\<lambda>s.
            Inr (Some (new_table, pt_index), s))))))"

text \<open>The allocated frame is marked used in the frame allocator of theory \<open>Pm\<close>.\<close>

definition alloc_frame :: "pte_ptr \<Rightarrow> bool \<Rightarrow> bool \<Rightarrow> vm \<Rightarrow> vm res" where
  "alloc_frame page is_kernel writable s =
     res_bind (read_pte page s) (\<lambda>pte.
     if PTE_TO_PFN pte \<noteq> 0 then Inr s
     else
       res_bind (pmalloc FRAME_SIZE (vm_pm s)) (\<lambda>(pfn, pm).
       if pfn = -1 then Inl (Panic ''No free frames'')
       else
         let pte = push_bit 12 (word_of_int pfn) OR PAGE_PRESENT;
             pte = (if \<not> is_kernel then pte OR PAGE_USER else pte);
             pte = (if writable then pte OR PAGE_RW else pte)
         in write_pte page pte (s\<lparr>vm_pm := pm\<rparr>)))"

definition free_frame :: "pte_ptr \<Rightarrow> vm \<Rightarrow> vm res" where
  "free_frame page s =
     res_bind (read_pte page s) (\<lambda>pte.
     let pfn = PTE_TO_PFN pte in
     if pfn = 0 then Inr s
     else
       res_bind (pfree pfn FRAME_SIZE (vm_pm s)) (\<lambda>pm.
       write_pte page (pte AND PAGE_RW) (s\<lparr>vm_pm := pm\<rparr>)))"

end
