(* ===== verification/Avl_Spec.thy ===== *)
theory Avl_Spec
  imports Avl
begin

text \<open>
  What the tree operations of theory \<open>Avl\<close> compute. A tree in the store is read off as a value
  (\<open>tree_at\<close>); insertion and deletion are written again as functions on values (\<open>ins\<close>, \<open>del\<close>),
  and the pointer code is shown to refine them, writing only to the nodes of the tree. On
  values the abstract contents of a tree is its list of blocks, kept sorted by base.
\<close>

section \<open>Trees as values\<close>

text \<open>
  A tree of the program as a value: each node with its address, its block (base and size)
  and its height field. \<open>tree_at m t\<close> says that the store \<open>m\<close> holds \<open>t\<close>.
\<close>

datatype atree = Leaf | Node atree u32 u32 u32 int atree

fun ptr :: "atree \<Rightarrow> u32" where
  "ptr Leaf = 0"
| "ptr (Node l a b n h r) = a"

fun ht :: "atree \<Rightarrow> int" where
  "ht Leaf = 0"
| "ht (Node l a b n h r) = h"

fun addrs :: "atree \<Rightarrow> u32 list" where
  "addrs Leaf = []"
| "addrs (Node l a b n h r) = addrs l @ a # addrs r"

text \<open>The free blocks in the order of the tree: the abstract value of the structure.\<close>

fun blocks :: "atree \<Rightarrow> (u32 \<times> u32) list" where
  "blocks Leaf = []"
| "blocks (Node l a b n h r) = blocks l @ (b, n) # blocks r"

fun depth :: "atree \<Rightarrow> nat" where
  "depth Leaf = 0"
| "depth (Node l a b n h r) = Suc (max (depth l) (depth r))"

fun tree_at :: "node_store \<Rightarrow> atree \<Rightarrow> bool" where
  "tree_at m Leaf = True"
| "tree_at m (Node l a b n h r) \<longleftrightarrow>
     a \<noteq> 0 \<and> m a = Some \<lparr>avl_base = b, avl_size = n, avl_height = h, avl_left = ptr l, avl_right = ptr r\<rparr> \<and>
     tree_at m l \<and> tree_at m r"

text \<open>Height fields are positive; nothing more is known of them, as the rotations get some wrong.\<close>

fun heights_pos :: "atree \<Rightarrow> bool" where
  "heights_pos Leaf = True"
| "heights_pos (Node l a b n h r) \<longleftrightarrow> 1 \<le> h \<and> heights_pos l \<and> heights_pos r"

abbreviation bases :: "atree \<Rightarrow> u32 list" where
  "bases t \<equiv> map fst (blocks t)"

definition bst :: "atree \<Rightarrow> bool" where
  "bst t \<longleftrightarrow> sorted_wrt (<) (bases t)"

lemma ptr_0_iff: "tree_at m t \<Longrightarrow> ptr t = 0 \<longleftrightarrow> t = Leaf"
  by (cases t) auto

lemma ptr_in_addrs: "t \<noteq> Leaf \<Longrightarrow> ptr t \<in> set (addrs t)"
  by (cases t) auto

lemma tree_at_frame:
  "tree_at m t \<Longrightarrow> (\<And>a. a \<in> set (addrs t) \<Longrightarrow> m' a = m a) \<Longrightarrow> tree_at m' t"
  by (induction t) auto

lemma tree_at_upd [simp]: "a \<notin> set (addrs t) \<Longrightarrow> tree_at (m(a := x)) t = tree_at m t"
  by (induction t) auto

lemma tree_at_addr_nonzero: "tree_at m t \<Longrightarrow> 0 \<notin> set (addrs t)"
  by (induction t) auto

lemma height_tree: "tree_at m t \<Longrightarrow> height m (ptr t) = Inr (ht t)"
  by (cases t) (auto simp: height_def)

lemma heights_pos_ht: "heights_pos t \<Longrightarrow> 0 \<le> ht t" "heights_pos t \<Longrightarrow> ht t = 0 \<longleftrightarrow> t = Leaf"
  by (cases t; simp)+

lemma height_addr: "a \<noteq> 0 \<Longrightarrow> m a = Some n \<Longrightarrow> height m a = Inr (avl_height n)"
  by (simp add: height_def)

lemma pick_height_tree:
  "tree_at m a \<Longrightarrow> tree_at m b \<Longrightarrow> tree_at m c \<Longrightarrow>
   pick_height m (ptr a) (ptr b) (ptr c) = Inr (if ht a > ht b then ht a else ht c)"
  by (simp add: pick_height_def height_tree)

section \<open>The operations on values\<close>

fun rot_right :: "atree \<Rightarrow> atree" where
  "rot_right (Node (Node A x bx nx hx T2) y b n h C) =
     (let y' = Node T2 y b n (1 + max (ht T2) (ht C)) C
      in Node A x bx nx (1 + (if ht A > ht C then ht A else ht y')) y')"
| "rot_right t = t"

fun rot_left :: "atree \<Rightarrow> atree" where
  "rot_left (Node A x b n h (Node T2 y b' n' h' C)) =
     (let x' = Node A x b n (1 + (if ht A > ht C then ht A else ht T2)) T2
      in Node x' y b' n' (1 + max (ht x') (ht C)) C)"
| "rot_left t = t"

fun rot_left_right :: "atree \<Rightarrow> atree" where
  "rot_left_right (Node l a b n h r) = rot_right (Node (rot_left l) a b n h r)"
| "rot_left_right Leaf = Leaf"

fun rot_right_left :: "atree \<Rightarrow> atree" where
  "rot_right_left (Node l a b n h r) = rot_left (Node l a b n h (rot_right r))"
| "rot_right_left Leaf = Leaf"

lemma blocks_rot1 [simp]: "blocks (rot_right t) = blocks t" "blocks (rot_left t) = blocks t"
  by (cases t rule: rot_right.cases; auto simp: Let_def) (cases t rule: rot_left.cases; auto simp: Let_def)

lemma blocks_rot2 [simp]: "blocks (rot_left_right t) = blocks t" "blocks (rot_right_left t) = blocks t"
  by (cases t; simp)+

lemma addrs_rot1 [simp]: "addrs (rot_right t) = addrs t" "addrs (rot_left t) = addrs t"
  by (cases t rule: rot_right.cases; auto simp: Let_def) (cases t rule: rot_left.cases; auto simp: Let_def)

lemma addrs_rot2 [simp]: "addrs (rot_left_right t) = addrs t" "addrs (rot_right_left t) = addrs t"
  by (cases t; simp)+

lemma heights_pos_rot1:
  "heights_pos t \<Longrightarrow> heights_pos (rot_right t)" "heights_pos t \<Longrightarrow> heights_pos (rot_left t)"
  by (cases t rule: rot_right.cases; auto simp: Let_def max_def dest: heights_pos_ht(1))
    (cases t rule: rot_left.cases; auto simp: Let_def max_def dest: heights_pos_ht(1))

lemma heights_pos_rot2:
  "heights_pos t \<Longrightarrow> heights_pos (rot_left_right t)" "heights_pos t \<Longrightarrow> heights_pos (rot_right_left t)"
  by (cases t; simp add: heights_pos_rot1)+

lemmas heights_pos_rot = heights_pos_rot1 heights_pos_rot2

text \<open>The store after an operation holds the result, and differs only at the nodes of the tree.\<close>

definition refines :: "u32 list \<Rightarrow> node_store \<Rightarrow> (u32 \<times> node_store) res \<Rightarrow> atree \<Rightarrow> bool" where
  "refines as m r t \<longleftrightarrow> (\<exists>m'. r = Inr (ptr t, m') \<and> tree_at m' t \<and> (\<forall>a. a \<notin> set as \<longrightarrow> m' a = m a))"

lemma rotate_right_refines:
  assumes "tree_at m t" and "distinct (addrs t)" and "t = Node l a b n h r" and "l \<noteq> Leaf"
  shows "refines (addrs t) m (rotate_right a m) (rot_right t)"
  using assms
  by (cases l) (auto simp: refines_def rotate_right_def Let_def set_height_def pick_height_def height_tree height_addr max_def)

lemma rotate_left_refines:
  assumes "tree_at m t" and "distinct (addrs t)" and "t = Node l a b n h r" and "r \<noteq> Leaf"
  shows "refines (addrs t) m (rotate_left a m) (rot_left t)"
  using assms
  by (cases r) (auto simp: refines_def rotate_left_def Let_def set_height_def pick_height_def height_tree height_addr max_def)

lemma rotate_left_right_refines:
  assumes t: "tree_at m t" "distinct (addrs t)" "t = Node (Node A x bx nx hx T) a b n h r" and "T \<noteq> Leaf"
  shows "refines (addrs t) m (rotate_left_right a m) (rot_left_right t)"
proof -
  let ?l = "Node A x bx nx hx T"
  have "refines (addrs ?l) m (rotate_left x m) (rot_left ?l)"
    by (rule rotate_left_refines) (use assms in auto)
  then obtain m1 where m1: "rotate_left x m = Inr (ptr (rot_left ?l), m1)" "tree_at m1 (rot_left ?l)"
    "\<And>p. p \<notin> set (addrs ?l) \<Longrightarrow> m1 p = m p" by (auto simp: refines_def)
  have dis: "a \<notin> set (addrs ?l)" "set (addrs ?l) \<inter> set (addrs r) = {}" "a \<notin> set (addrs r)" "a \<noteq> 0"
    and ma: "m a = Some \<lparr>avl_base = b, avl_size = n, avl_height = h, avl_left = x, avl_right = ptr r\<rparr>"
    and r: "tree_at m r" using t by auto
  let ?m2 = "m1(a \<mapsto> \<lparr>avl_base = b, avl_size = n, avl_height = h, avl_left = ptr (rot_left ?l), avl_right = ptr r\<rparr>)"
  let ?t2 = "Node (rot_left ?l) a b n h r"
  have "tree_at m1 r" by (rule tree_at_frame [OF r m1(3)]) (use dis(2) in blast)
  then have "tree_at ?m2 ?t2" using m1(2) dis by (simp del: rot_left.simps)
  moreover have "rot_left ?l \<noteq> Leaf" using \<open>T \<noteq> Leaf\<close> by (cases T) (auto simp: Let_def)
  ultimately have "refines (addrs ?t2) ?m2 (rotate_right a ?m2) (rot_right ?t2)"
    by (intro rotate_right_refines) (use t in auto)
  moreover have "m1 a = m a" using m1(3) dis(1) by blast
  ultimately show ?thesis
    using t(3) ma m1(1,3) dis(4) by (auto simp: refines_def rotate_left_right_def simp del: rot_left.simps rot_right.simps)
qed

lemma rotate_right_left_refines:
  assumes t: "tree_at m t" "distinct (addrs t)" "t = Node l a b n h (Node T y b' n' h' C)" and "T \<noteq> Leaf"
  shows "refines (addrs t) m (rotate_right_left a m) (rot_right_left t)"
proof -
  let ?r = "Node T y b' n' h' C"
  have "refines (addrs ?r) m (rotate_right y m) (rot_right ?r)"
    by (rule rotate_right_refines) (use assms in auto)
  then obtain m1 where m1: "rotate_right y m = Inr (ptr (rot_right ?r), m1)" "tree_at m1 (rot_right ?r)"
    "\<And>p. p \<notin> set (addrs ?r) \<Longrightarrow> m1 p = m p" by (auto simp: refines_def)
  have dis: "a \<notin> set (addrs ?r)" "set (addrs ?r) \<inter> set (addrs l) = {}" "a \<notin> set (addrs l)" "a \<noteq> 0"
    and ma: "m a = Some \<lparr>avl_base = b, avl_size = n, avl_height = h, avl_left = ptr l, avl_right = y\<rparr>"
    and l: "tree_at m l" using t by auto
  let ?m2 = "m1(a \<mapsto> \<lparr>avl_base = b, avl_size = n, avl_height = h, avl_left = ptr l, avl_right = ptr (rot_right ?r)\<rparr>)"
  let ?t2 = "Node l a b n h (rot_right ?r)"
  have "tree_at m1 l" by (rule tree_at_frame [OF l m1(3)]) (use dis(2) in blast)
  then have "tree_at ?m2 ?t2" using m1(2) dis by (simp del: rot_right.simps)
  moreover have "rot_right ?r \<noteq> Leaf" using \<open>T \<noteq> Leaf\<close> by (cases T) (auto simp: Let_def)
  ultimately have "refines (addrs ?t2) ?m2 (rotate_left a ?m2) (rot_left ?t2)"
    by (intro rotate_left_refines) (use t in auto)
  moreover have "m1 a = m a" using m1(3) dis(1) by blast
  ultimately show ?thesis
    using t(3) ma m1(1,3) dis(4) by (auto simp: refines_def rotate_right_left_def simp del: rot_left.simps rot_right.simps)
qed

subsection \<open>Rebalancing\<close>

fun fix_height :: "atree \<Rightarrow> atree" where
  "fix_height (Node l a b n h r) = Node l a b n (1 + max (ht l) (ht r)) r"
| "fix_height Leaf = Leaf"

fun balance :: "atree \<Rightarrow> int" where
  "balance (Node l a b n h r) = ht l - ht r"
| "balance Leaf = 0"

fun ins_rebal :: "u32 \<Rightarrow> atree \<Rightarrow> atree" where
  "ins_rebal base (Node l a b n h r) =
     (let t = fix_height (Node l a b n h r) in
      if balance t > 1 then
        (case l of Leaf \<Rightarrow> t
         | Node _ _ lb _ _ _ \<Rightarrow>
             if base < lb then rot_right t else if base > lb then rot_left_right t else t)
      else if balance t < -1 then
        (case r of Leaf \<Rightarrow> t
         | Node _ _ rb _ _ _ \<Rightarrow>
             if base > rb then rot_left t else if base < rb then rot_right_left t else t)
      else t)"
| "ins_rebal base Leaf = Leaf"

fun del_rebal :: "atree \<Rightarrow> atree" where
  "del_rebal (Node l a b n h r) =
     (let t = fix_height (Node l a b n h r) in
      if balance t > 1 then (if balance l \<ge> 0 then rot_right t else rot_left_right t)
      else if balance t < -1 then (if balance r \<le> 0 then rot_left t else rot_right_left t)
      else t)"
| "del_rebal Leaf = Leaf"

lemma fix_height_simps [simp]: "blocks (fix_height t) = blocks t" "addrs (fix_height t) = addrs t"
  by (cases t; simp)+

lemma heights_pos_fix: "heights_pos t \<Longrightarrow> heights_pos (fix_height t)"
  by (cases t) (auto simp: max_def dest: heights_pos_ht(1))

lemma rebal_simps [simp]:
  "blocks (ins_rebal base t) = blocks t" "addrs (ins_rebal base t) = addrs t"
  "blocks (del_rebal t) = blocks t" "addrs (del_rebal t) = addrs t"
  by (cases t; auto simp: Let_def split: atree.splits simp del: fix_height.simps rot_right.simps rot_left.simps
        rot_left_right.simps rot_right_left.simps)+

lemma heights_pos_rebal:
  assumes "heights_pos t" shows "heights_pos (ins_rebal base t)" "heights_pos (del_rebal t)"
  using assms heights_pos_fix [OF assms]
  by (cases t; auto simp: Let_def heights_pos_rot split: atree.splits simp del: fix_height.simps rot_right.simps
        rot_left.simps rot_left_right.simps rot_right_left.simps)+

lemma update_height_refines:
  assumes "tree_at m t" and "distinct (addrs t)" and "t \<noteq> Leaf"
  shows "\<exists>m'. update_height (ptr t) m = Inr m' \<and> tree_at m' (fix_height t) \<and> (\<forall>a. a \<notin> set (addrs t) \<longrightarrow> m' a = m a)"
  using assms
  by (cases t) (auto simp: update_height_def pick_height_tree set_height_def max_def)

lemma get_balance_tree: "tree_at m t \<Longrightarrow> get_balance m (ptr t) = Inr (balance t)"
  by (cases t) (auto simp: get_balance_def height_tree)

lemma refines_frame:
  assumes "refines as m1 r t" and "\<And>a. a \<notin> set as \<Longrightarrow> m1 a = m a"
  shows "refines as m r t"
  using assms by (force simp: refines_def)

lemma insert_rebalance_refines:
  assumes t: "tree_at m t" "distinct (addrs t)" "t = Node l a b n h r" "heights_pos l" "heights_pos r"
    and sl: "\<And>A x lb nl hl T. l = Node A x lb nl hl T \<Longrightarrow> base > lb \<Longrightarrow> ht l > ht r + 1 \<Longrightarrow> T \<noteq> Leaf"
    and sr: "\<And>T x rb nr hr C. r = Node T x rb nr hr C \<Longrightarrow> base < rb \<Longrightarrow> ht r > ht l + 1 \<Longrightarrow> T \<noteq> Leaf"
  shows "refines (addrs t) m (insert_rebalance a base m) (ins_rebal base t)"
proof -
  obtain m1 where u: "update_height a m = Inr m1" and t1: "tree_at m1 (fix_height t)"
    and fr: "\<And>p. p \<notin> set (addrs t) \<Longrightarrow> m1 p = m p"
    using update_height_refines [OF t(1,2)] t(3) by auto
  have bal: "get_balance m1 a = Inr (balance (fix_height t))"
    using get_balance_tree [OF t1] t(3) by simp
  have d1: "distinct (addrs (fix_height t))" using t(2) by simp
  have "refines (addrs t) m1 (insert_rebalance a base m) (ins_rebal base t)"
  proof (cases "balance (fix_height t) > 1")
    case True
    then obtain A x lb nl hl T where l: "l = Node A x lb nl hl T"
      using t(3) heights_pos_ht [OF t(5)] by (cases l) auto
    have "refines (addrs t) m1 (rotate_right a m1) (rot_right (fix_height t))"
      using rotate_right_refines [OF t1 d1] t(3) l by auto
    moreover have "refines (addrs t) m1 (rotate_left_right a m1) (rot_left_right (fix_height t))" if "base > lb"
      using rotate_left_right_refines [OF t1 d1] sl [OF l that] True t(3) l by auto
    moreover have "refines (addrs t) m1 (Inr (a, m1)) (fix_height t)"
      using t1 t(3) by (auto simp: refines_def)
    ultimately show ?thesis
      using u bal t1 True t(3) l
      by (auto simp: insert_rebalance_def Let_def simp del: rot_right.simps rot_left_right.simps)
  next
    case False
    show ?thesis
    proof (cases "balance (fix_height t) < -1")
      case True
      then obtain T x rb nr hr C where r: "r = Node T x rb nr hr C"
        using t(3) heights_pos_ht [OF t(4)] by (cases r) auto
      have "refines (addrs t) m1 (rotate_left a m1) (rot_left (fix_height t))"
        using rotate_left_refines [OF t1 d1] t(3) r by auto
      moreover have "refines (addrs t) m1 (rotate_right_left a m1) (rot_right_left (fix_height t))" if "base < rb"
        using rotate_right_left_refines [OF t1 d1] sr [OF r that] True t(3) r by auto
      moreover have "refines (addrs t) m1 (Inr (a, m1)) (fix_height t)"
        using t1 t(3) by (auto simp: refines_def)
      ultimately show ?thesis
        using u bal t1 True False t(3) r
        by (auto simp: insert_rebalance_def Let_def simp del: rot_left.simps rot_right_left.simps)
    next
      case b: False
      then show ?thesis using u bal t1 False t(3) by (auto simp: insert_rebalance_def Let_def refines_def)
    qed
  qed
  then show ?thesis using fr by (rule refines_frame)
qed

lemma delete_rebalance_refines:
  assumes t: "tree_at m t" "distinct (addrs t)" "t = Node l a b n h r" "heights_pos l" "heights_pos r"
  shows "refines (addrs t) m (delete_rebalance a m) (del_rebal t)"
proof -
  obtain m1 where u: "update_height a m = Inr m1" and t1: "tree_at m1 (fix_height t)"
    and fr: "\<And>p. p \<notin> set (addrs t) \<Longrightarrow> m1 p = m p"
    using update_height_refines [OF t(1,2)] t(3) by auto
  have bal: "get_balance m1 a = Inr (balance (fix_height t))"
    using get_balance_tree [OF t1] t(3) by simp
  have ch: "get_balance m1 (ptr l) = Inr (balance l)" "get_balance m1 (ptr r) = Inr (balance r)"
    using t1 t(3) by (auto intro!: get_balance_tree)
  have d1: "distinct (addrs (fix_height t))" using t(2) by simp
  have "refines (addrs t) m1 (delete_rebalance a m) (del_rebal t)"
  proof (cases "balance (fix_height t) > 1")
    case True
    then obtain A x lb nl hl T where l: "l = Node A x lb nl hl T"
      using t(3) heights_pos_ht [OF t(5)] by (cases l) auto
    have "refines (addrs t) m1 (rotate_right a m1) (rot_right (fix_height t))"
      using rotate_right_refines [OF t1 d1] t(3) l by auto
    moreover have "refines (addrs t) m1 (rotate_left_right a m1) (rot_left_right (fix_height t))" if "balance l < 0"
    proof -
      have "T \<noteq> Leaf" using that l t(4) heights_pos_ht(1) [of A] by (cases T) auto
      then show ?thesis using rotate_left_right_refines [OF t1 d1] t(3) l by auto
    qed
    ultimately show ?thesis
      using u bal ch t1 True t(3)
      by (auto simp: delete_rebalance_def Let_def simp del: rot_right.simps rot_left_right.simps)
  next
    case False
    show ?thesis
    proof (cases "balance (fix_height t) < -1")
      case True
      then obtain T x rb nr hr C where r: "r = Node T x rb nr hr C"
        using t(3) heights_pos_ht [OF t(4)] by (cases r) auto
      have "refines (addrs t) m1 (rotate_left a m1) (rot_left (fix_height t))"
        using rotate_left_refines [OF t1 d1] t(3) r by auto
      moreover have "refines (addrs t) m1 (rotate_right_left a m1) (rot_right_left (fix_height t))" if "balance r > 0"
      proof -
        have "T \<noteq> Leaf" using that r t(5) heights_pos_ht(1) [of C] by (cases T) auto
        then show ?thesis using rotate_right_left_refines [OF t1 d1] t(3) r by auto
      qed
      ultimately show ?thesis
        using u bal ch t1 True False t(3)
        by (auto simp: delete_rebalance_def Let_def simp del: rot_left.simps rot_right_left.simps)
    next
      case b: False
      then show ?thesis using u bal t1 False t(3) by (auto simp: delete_rebalance_def Let_def refines_def)
    qed
  qed
  then show ?thesis using fr by (rule refines_frame)
qed

declare ins_rebal.simps [simp del] del_rebal.simps [simp del] fix_height.simps [simp del]
  rot_right.simps [simp del] rot_left.simps [simp del]
  rot_left_right.simps [simp del] rot_right_left.simps [simp del]

subsection \<open>Insertion and deletion\<close>

text \<open>\<open>new\<close> is the address of the node that \<open>create_node\<close> returns.\<close>

fun ins :: "u32 \<Rightarrow> u32 \<Rightarrow> u32 \<Rightarrow> atree \<Rightarrow> atree" where
  "ins new base sz Leaf = Node Leaf new base sz 1 Leaf"
| "ins new base sz (Node l a b n h r) =
     (if base < b then ins_rebal base (Node (ins new base sz l) a b n h r)
      else if base > b then ins_rebal base (Node l a b n h (ins new base sz r))
      else Node l a b n h r)"

fun min_block :: "atree \<Rightarrow> u32 \<times> u32" where
  "min_block (Node Leaf a b n h r) = (b, n)"
| "min_block (Node l a b n h r) = min_block l"
| "min_block Leaf = (0, 0)"

fun del :: "u32 \<Rightarrow> atree \<Rightarrow> atree" where
  "del base Leaf = Leaf"
| "del base (Node l a b n h r) =
     (if base < b then del_rebal (Node (del base l) a b n h r)
      else if base > b then del_rebal (Node l a b n h (del base r))
      else if l = Leaf \<and> r = Leaf then Leaf
      else if l = Leaf \<or> r = Leaf then (if l \<noteq> Leaf then l else r)
      else del_rebal (Node l a (fst (min_block r)) (snd (min_block r)) h (del (fst (min_block r)) r)))"

text \<open>What they do to the list of blocks.\<close>

fun ins_block :: "u32 \<times> u32 \<Rightarrow> (u32 \<times> u32) list \<Rightarrow> (u32 \<times> u32) list" where
  "ins_block x [] = [x]"
| "ins_block x (y # ys) =
     (if fst x < fst y then x # y # ys else if fst y < fst x then y # ins_block x ys else y # ys)"

lemma ins_block_append_less:
  "sorted_wrt (<) (map fst (xs @ y # ys)) \<Longrightarrow> fst x < fst y \<Longrightarrow> ins_block x (xs @ y # ys) = ins_block x xs @ y # ys"
  by (induction xs) auto

lemma ins_block_append_greater:
  "sorted_wrt (<) (map fst (xs @ y # ys)) \<Longrightarrow> fst y < fst x \<Longrightarrow> ins_block x (xs @ y # ys) = xs @ y # ins_block x ys"
  by (induction xs) auto

lemma ins_block_append_eq:
  "sorted_wrt (<) (map fst (xs @ y # ys)) \<Longrightarrow> fst y = fst x \<Longrightarrow> ins_block x (xs @ y # ys) = xs @ y # ys"
  by (induction xs) auto

lemma set_ins_block: "fst x \<notin> fst ` set xs \<Longrightarrow> set (ins_block x xs) = insert x (set xs)"
  by (induction xs) auto

lemma fst_set_ins_block: "fst ` set (ins_block x xs) = insert (fst x) (fst ` set xs)"
  by (induction xs) auto

lemma set_ins_blockD: "y \<in> set (ins_block x xs) \<Longrightarrow> y = x \<or> y \<in> set xs"
  by (induction xs) (auto split: if_splits)

lemma sorted_ins_block:
  "sorted_wrt (<) (map fst xs) \<Longrightarrow> sorted_wrt (<) (map fst (ins_block x xs))"
  by (induction xs) (auto dest: set_ins_blockD)

lemma blocks_ins: "bst t \<Longrightarrow> blocks (ins new base sz t) = ins_block (base, sz) (blocks t)"
proof (induction t)
  case Leaf
  then show ?case by simp
next
  case (Node l a b n h r)
  then have "bst l" "bst r" by (auto simp: bst_def sorted_wrt_append)
  with Node show ?case
    by (auto simp: bst_def ins_block_append_less ins_block_append_greater ins_block_append_eq)
qed

lemma bst_ins: "bst t \<Longrightarrow> bst (ins new base sz t)"
  using sorted_ins_block [of "blocks t" "(base, sz)"] by (simp add: bst_def blocks_ins)

lemma bst_Node: "bst (Node l a b n h r) \<longleftrightarrow> bst l \<and> bst r \<and> (\<forall>x \<in> set (bases l). x < b) \<and> (\<forall>x \<in> set (bases r). b < x)"
  by (auto simp: bst_def sorted_wrt_append) force+

lemma blocks_min_block: "t \<noteq> Leaf \<Longrightarrow> \<exists>xs. blocks t = min_block t # xs"
  by (induction t rule: min_block.induct) (auto, metis append_Cons append_assoc)

lemma filter_id: "(\<And>x. x \<in> set xs \<Longrightarrow> P x) \<Longrightarrow> filter P xs = xs"
  by (induction xs) auto

lemma blocks_del: "bst t \<Longrightarrow> blocks (del base t) = filter (\<lambda>x. fst x \<noteq> base) (blocks t)"
proof (induction t arbitrary: base)
  case Leaf
  then show ?case by simp
next
  case (Node l a b n h r)
  have bl: "bst l" and br: "bst r" and lt: "\<And>x. x \<in> set (blocks l) \<Longrightarrow> fst x < b" and gt: "\<And>x. x \<in> set (blocks r) \<Longrightarrow> b < fst x"
    using Node.prems by (auto simp: bst_Node)
  consider "base < b" | "base > b" | "base = b" by fastforce
  then show ?case
  proof cases
    case 1
    then have "filter (\<lambda>x. fst x \<noteq> base) (blocks r) = blocks r" using gt by (intro filter_id) force
    with 1 Node.IH(1) [OF bl] show ?thesis by simp
  next
    case 2
    then have "filter (\<lambda>x. fst x \<noteq> base) (blocks l) = blocks l" using lt by (intro filter_id) force
    with 2 Node.IH(2) [OF br] show ?thesis by auto
  next
    case 3
    have k: "filter (\<lambda>x. fst x \<noteq> base) (blocks l) = blocks l" "filter (\<lambda>x. fst x \<noteq> base) (blocks r) = blocks r"
      using lt gt 3 by (auto intro!: filter_id)
    show ?thesis
    proof (cases "l = Leaf \<or> r = Leaf")
      case True
      with 3 k show ?thesis by auto
    next
      case False
      then obtain xs where xs: "blocks r = min_block r # xs" using blocks_min_block by blast
      have "filter (\<lambda>x. fst x \<noteq> fst (min_block r)) xs = xs"
        using br xs by (intro filter_id) (auto simp: bst_def)
      then have "blocks (del (fst (min_block r)) r) = xs" using Node.IH(2) [OF br] xs by simp
      with False 3 k xs show ?thesis by simp
    qed
  qed
qed

lemma bst_del: "bst t \<Longrightarrow> bst (del base t)"
  by (simp add: bst_def blocks_del sorted_wrt_filter sorted_wrt_map)

lemma heights_pos_ins: "heights_pos t \<Longrightarrow> heights_pos (ins new base sz t)"
  by (induction t) (auto intro!: heights_pos_rebal)

lemma heights_pos_del: "heights_pos t \<Longrightarrow> heights_pos (del base t)"
  by (induction t arbitrary: base) (auto intro!: heights_pos_rebal)

lemma addrs_ins: "base \<notin> set (bases t) \<Longrightarrow> set (addrs (ins new base sz t)) = insert new (set (addrs t))"
  by (induction t) auto

lemma distinct_addrs_ins:
  "distinct (addrs t) \<Longrightarrow> new \<notin> set (addrs t) \<Longrightarrow> base \<notin> set (bases t) \<Longrightarrow> distinct (addrs (ins new base sz t))"
  by (induction t) (auto simp: addrs_ins)

lemma addrs_ins_dup: "base \<in> set (bases t) \<Longrightarrow> bst t \<Longrightarrow> addrs (ins new base sz t) = addrs t"
  by (induction t) (auto simp: bst_Node)

lemma addrs_del_subset: "set (addrs (del base t)) \<subseteq> set (addrs t)"
  by (induction t arbitrary: base) auto

lemma distinct_addrs_del: "distinct (addrs t) \<Longrightarrow> distinct (addrs (del base t))"
  using addrs_del_subset by (induction t arbitrary: base) (auto, blast+)

section \<open>The program refines the operations on values\<close>

subsection \<open>Deletion\<close>

lemma find_min_base_tree:
  "tree_at m t \<Longrightarrow> t \<noteq> Leaf \<Longrightarrow> depth t \<le> d \<Longrightarrow>
   \<exists>p x. find_min_base d (ptr t) m = Inr p \<and> p \<in> set (addrs t) \<and> m p = Some x \<and> p \<noteq> 0 \<and> (avl_base x, avl_size x) = min_block t"
proof (induction t arbitrary: d)
  case Leaf
  then show ?case by simp
next
  case (Node l a b n h r)
  then obtain e where d: "d = Suc e" by (cases d) auto
  show ?case
  proof (cases l)
    case Leaf
    with Node d show ?thesis by auto
  next
    case l: (Node ll la lb ln lh lr)
    have "min_block (Node l a b n h r) = min_block l" using l by simp
    with Node.IH(1) [of e] Node.prems d l show ?thesis by auto
  qed
qed

lemma refines_Inr: "refines as m r t \<Longrightarrow> \<exists>m'. r = Inr (ptr t, m') \<and> tree_at m' t \<and> (\<forall>a. a \<notin> set as \<longrightarrow> m' a = m a)"
  by (simp add: refines_def)

lemma set_left_refines:
  assumes "tree_at m (Node l a b n h r)" "distinct (addrs (Node l a b n h r))"
    and "tree_at m' l'" "\<And>p. p \<notin> set as \<Longrightarrow> m' p = m p" "set as \<inter> set (addrs r) = {}" "a \<notin> set as" "a \<notin> set (addrs l')"
  shows "update_at (\<lambda>n. n\<lparr>avl_left := ptr l'\<rparr>) a m' = Inr (m'(a \<mapsto> \<lparr>avl_base = b, avl_size = n, avl_height = h, avl_left = ptr l', avl_right = ptr r\<rparr>))"
    and "tree_at (m'(a \<mapsto> \<lparr>avl_base = b, avl_size = n, avl_height = h, avl_left = ptr l', avl_right = ptr r\<rparr>)) (Node l' a b n h r)"
proof -
  have "tree_at m' r" by (rule tree_at_frame [of m]) (use assms in auto)
  moreover have "m' a = m a" using assms by blast
  ultimately show "update_at (\<lambda>n. n\<lparr>avl_left := ptr l'\<rparr>) a m' = Inr (m'(a \<mapsto> \<lparr>avl_base = b, avl_size = n, avl_height = h, avl_left = ptr l', avl_right = ptr r\<rparr>))"
    "tree_at (m'(a \<mapsto> \<lparr>avl_base = b, avl_size = n, avl_height = h, avl_left = ptr l', avl_right = ptr r\<rparr>)) (Node l' a b n h r)"
    using assms by auto
qed

lemma set_right_refines:
  assumes "tree_at m (Node l a b n h r)" "distinct (addrs (Node l a b n h r))"
    and "tree_at m' r'" "\<And>p. p \<notin> set as \<Longrightarrow> m' p = m p" "set as \<inter> set (addrs l) = {}" "a \<notin> set as" "a \<notin> set (addrs r')"
  shows "update_at (\<lambda>n. n\<lparr>avl_right := ptr r'\<rparr>) a m' = Inr (m'(a \<mapsto> \<lparr>avl_base = b, avl_size = n, avl_height = h, avl_left = ptr l, avl_right = ptr r'\<rparr>))"
    and "tree_at (m'(a \<mapsto> \<lparr>avl_base = b, avl_size = n, avl_height = h, avl_left = ptr l, avl_right = ptr r'\<rparr>)) (Node l a b n h r')"
proof -
  have "tree_at m' l" by (rule tree_at_frame [of m]) (use assms in auto)
  moreover have "m' a = m a" using assms by blast
  ultimately show "update_at (\<lambda>n. n\<lparr>avl_right := ptr r'\<rparr>) a m' = Inr (m'(a \<mapsto> \<lparr>avl_base = b, avl_size = n, avl_height = h, avl_left = ptr l, avl_right = ptr r'\<rparr>))"
    "tree_at (m'(a \<mapsto> \<lparr>avl_base = b, avl_size = n, avl_height = h, avl_left = ptr l, avl_right = ptr r'\<rparr>)) (Node l a b n h r')"
    using assms by auto
qed

lemma refines_extend:
  assumes "refines as' m2 r t" and "set as' \<subseteq> set as" and "\<And>p. p \<notin> set as \<Longrightarrow> m2 p = m p"
  shows "refines as m r t"
  using assms by (fastforce simp: refines_def)

text \<open>Writing a subtree back and rebalancing, after the recursive call of \<open>avl_delete\<close>.\<close>

lemma delete_left_refines:
  assumes t: "tree_at m (Node l a b n h r)" "distinct (addrs (Node l a b n h r))" "heights_pos (Node l a b n h r)"
    and l: "refines (addrs l) m res (del base l)"
  shows "refines (addrs (Node l a b n h r)) m
    (res_bind res (\<lambda>(l, m). res_bind (update_at (\<lambda>n. n\<lparr>avl_left := l\<rparr>) a m) (delete_rebalance a)))
    (del_rebal (Node (del base l) a b n h r))"
proof -
  from refines_Inr [OF l] obtain m1 where m1: "res = Inr (ptr (del base l), m1)" "tree_at m1 (del base l)"
    "\<And>p. p \<notin> set (addrs l) \<Longrightarrow> m1 p = m p" by blast
  note sub = addrs_del_subset [of base l]
  let ?m2 = "m1(a \<mapsto> \<lparr>avl_base = b, avl_size = n, avl_height = h, avl_left = ptr (del base l), avl_right = ptr r\<rparr>)"
  have w: "update_at (\<lambda>n. n\<lparr>avl_left := ptr (del base l)\<rparr>) a m1 = Inr ?m2" "tree_at ?m2 (Node (del base l) a b n h r)"
    by (rule set_left_refines [OF t(1,2) m1(2), where as = "addrs l"]; use t(2) sub m1(3) in auto)+
  have "refines (addrs (Node (del base l) a b n h r)) ?m2 (delete_rebalance a ?m2) (del_rebal (Node (del base l) a b n h r))"
    by (rule delete_rebalance_refines [OF w(2) _ refl])
      (use t sub distinct_addrs_del [of l base] heights_pos_del [of l base] in auto)
  then have "refines (addrs (Node l a b n h r)) m (delete_rebalance a ?m2) (del_rebal (Node (del base l) a b n h r))"
    by (rule refines_extend) (use m1(3) sub in auto)
  then show ?thesis using m1(1) w(1) by simp
qed

lemma delete_right_refines:
  assumes t: "tree_at m (Node l a b n h r)" "distinct (addrs (Node l a b n h r))" "heights_pos (Node l a b n h r)"
    and r: "refines (addrs r) m res (del base r)"
  shows "refines (addrs (Node l a b n h r)) m
    (res_bind res (\<lambda>(r, m). res_bind (update_at (\<lambda>n. n\<lparr>avl_right := r\<rparr>) a m) (delete_rebalance a)))
    (del_rebal (Node l a b n h (del base r)))"
proof -
  from refines_Inr [OF r] obtain m1 where m1: "res = Inr (ptr (del base r), m1)" "tree_at m1 (del base r)"
    "\<And>p. p \<notin> set (addrs r) \<Longrightarrow> m1 p = m p" by blast
  note sub = addrs_del_subset [of base r]
  let ?m2 = "m1(a \<mapsto> \<lparr>avl_base = b, avl_size = n, avl_height = h, avl_left = ptr l, avl_right = ptr (del base r)\<rparr>)"
  have w: "update_at (\<lambda>n. n\<lparr>avl_right := ptr (del base r)\<rparr>) a m1 = Inr ?m2" "tree_at ?m2 (Node l a b n h (del base r))"
    by (rule set_right_refines [OF t(1,2) m1(2), where as = "addrs r"]; use t(2) sub m1(3) in auto)+
  have "refines (addrs (Node l a b n h (del base r))) ?m2 (delete_rebalance a ?m2) (del_rebal (Node l a b n h (del base r)))"
    by (rule delete_rebalance_refines [OF w(2) _ refl])
      (use t sub distinct_addrs_del [of r base] heights_pos_del [of r base] in auto)
  then have "refines (addrs (Node l a b n h r)) m (delete_rebalance a ?m2) (del_rebal (Node l a b n h (del base r)))"
    by (rule refines_extend) (use m1(3) sub in auto)
  then show ?thesis using m1(1) w(1) by simp
qed

lemma avl_delete_refines:
  "tree_at m t \<Longrightarrow> distinct (addrs t) \<Longrightarrow> heights_pos t \<Longrightarrow> depth t < d \<Longrightarrow>
   refines (addrs t) m (avl_delete d (ptr t) base m) (del base t)"
proof (induction t arbitrary: base m d)
  case Leaf
  then show ?case by (cases d) (auto simp: refines_def)
next
  case (Node l a b n h r)
  then obtain e where d: "d = Suc e" "depth l < e" "depth r < e" by (cases d) auto
  have sub: "tree_at m l" "tree_at m r" "distinct (addrs l)" "distinct (addrs r)" "heights_pos l" "heights_pos r"
    and a: "a \<noteq> 0" "m a = Some \<lparr>avl_base = b, avl_size = n, avl_height = h, avl_left = ptr l, avl_right = ptr r\<rparr>"
    using Node.prems by auto
  consider "base < b" | "base > b" | "base = b" by fastforce
  then show ?case
  proof cases
    case 1
    with delete_left_refines [OF Node.prems(1-3) Node.IH(1) [OF sub(1,3,5) d(2)]] d a show ?thesis by simp
  next
    case 2
    with delete_right_refines [OF Node.prems(1-3) Node.IH(2) [OF sub(2,4,6) d(3)]] d a show ?thesis by auto
  next
    case 3
    show ?thesis
    proof (cases "l = Leaf \<or> r = Leaf")
      case True
      with 3 d a sub show ?thesis
        by (auto simp: refines_def ptr_0_iff)
    next
      case False
      obtain p x where p: "find_min_base e (ptr r) m = Inr p" "p \<in> set (addrs r)" "m p = Some x" "p \<noteq> 0"
        "(avl_base x, avl_size x) = min_block r"
        using find_min_base_tree [OF sub(2), of e] False d(3) by auto
      let ?b = "avl_base x" and ?n = "avl_size x"
      let ?m1 = "m(a \<mapsto> \<lparr>avl_base = ?b, avl_size = ?n, avl_height = h, avl_left = ptr l, avl_right = ptr r\<rparr>)"
      let ?t1 = "Node l a ?b ?n h r"
      have t1: "tree_at ?m1 ?t1" using Node.prems by auto
      have tr: "tree_at ?m1 r" using Node.prems by (subst tree_at_upd) auto
      have "refines (addrs r) ?m1 (avl_delete e (ptr r) ?b ?m1) (del ?b r)"
        by (rule Node.IH(2) [OF tr sub(4,6) d(3)])
      from delete_right_refines [OF t1 _ _ this] Node.prems
      have "refines (addrs ?t1) ?m1 (res_bind (avl_delete e (ptr r) ?b ?m1)
        (\<lambda>(r, m). res_bind (update_at (\<lambda>n. n\<lparr>avl_right := r\<rparr>) a m) (delete_rebalance a))) (del_rebal (Node l a ?b ?n h (del ?b r)))"
        by simp
      then have "refines (addrs ?t1) m (res_bind (avl_delete e (ptr r) ?b ?m1)
        (\<lambda>(r, m). res_bind (update_at (\<lambda>n. n\<lparr>avl_right := r\<rparr>) a m) (delete_rebalance a))) (del_rebal (Node l a ?b ?n h (del ?b r)))"
        by (rule refines_frame) auto
      moreover have "ptr l \<noteq> 0" "ptr r \<noteq> 0" using False sub by (auto simp: ptr_0_iff)
      moreover have "fst (min_block r) = ?b" "snd (min_block r) = ?n" using p(5) by (metis fst_conv snd_conv)+
      ultimately show ?thesis using 3 d a p False by simp
    qed
  qed
qed

subsection \<open>Insertion\<close>

text \<open>
  The new node comes from \<open>kmalloc\<close>, which may take it out of a block that the very tree
  holds: the block at some node is then moved and shrunk between the descent and the way
  back. \<open>moved base t t'\<close>: \<open>t'\<close> has the shape, the nodes and the height fields of \<open>t\<close>, with
  blocks that compare in the same way with \<open>base\<close>.
\<close>

fun moved :: "u32 \<Rightarrow> atree \<Rightarrow> atree \<Rightarrow> bool" where
  "moved base Leaf Leaf = True"
| "moved base (Node l a b n h r) (Node l' a' b' n' h' r') \<longleftrightarrow>
     a' = a \<and> h' = h \<and> (base < b \<longleftrightarrow> base < b') \<and> (b < base \<longleftrightarrow> b' < base) \<and> moved base l l' \<and> moved base r r'"
| "moved base _ _ = False"

lemma moved_refl: "moved base t t"
  by (induction t) auto

lemma moved_shape: "moved base t t' \<Longrightarrow> addrs t' = addrs t \<and> depth t' = depth t \<and> ptr t' = ptr t \<and> heights_pos t' = heights_pos t"
  by (induction base t t' rule: moved.induct) auto

lemma moved_NodeE:
  assumes "moved base (Node l a b n h r) t'"
  obtains l' b' n' r' where "t' = Node l' a b' n' h r'" "base < b \<longleftrightarrow> base < b'" "b < base \<longleftrightarrow> b' < base"
    "moved base l l'" "moved base r r'"
  using assms by (cases t') auto

lemma bases_ins: "bst t \<Longrightarrow> base \<in> set (bases (ins new base sz t))"
  using fst_set_ins_block [of "(base, sz)" "blocks t"] by (simp add: blocks_ins)

lemma bst_inner:
  assumes "bst t" "base \<in> set (bases t)" "t = Node l a b n h r"
  shows "base > b \<Longrightarrow> r \<noteq> Leaf" "base < b \<Longrightarrow> l \<noteq> Leaf"
  using assms by (auto simp: bst_Node)

text \<open>
  A rotation dereferences the inner grandchild for a double rotation. \<open>ins_ok\<close>: it is there on
  the whole way back. Height fields that are wrong can make it fail.
\<close>

fun rebal_ok :: "u32 \<Rightarrow> atree \<Rightarrow> bool" where
  "rebal_ok base Leaf = True"
| "rebal_ok base (Node l a b n h r) \<longleftrightarrow>
     (ht l > ht r + 1 \<longrightarrow> (case l of Leaf \<Rightarrow> True | Node _ _ lb _ _ T \<Rightarrow> lb < base \<longrightarrow> T \<noteq> Leaf)) \<and>
     (ht r > ht l + 1 \<longrightarrow> (case r of Leaf \<Rightarrow> True | Node T _ rb _ _ _ \<Rightarrow> base < rb \<longrightarrow> T \<noteq> Leaf))"

fun ins_ok :: "u32 \<Rightarrow> u32 \<Rightarrow> u32 \<Rightarrow> atree \<Rightarrow> bool" where
  "ins_ok new base sz Leaf = True"
| "ins_ok new base sz (Node l a b n h r) =
     (if base < b then ins_ok new base sz l \<and> rebal_ok base (Node (ins new base sz l) a b n h r)
      else if base > b then ins_ok new base sz r \<and> rebal_ok base (Node l a b n h (ins new base sz r))
      else True)"

lemma insert_rebalance_ok:
  assumes "tree_at m t" "distinct (addrs t)" "t = Node l a b n h r" "heights_pos l" "heights_pos r" "rebal_ok base t"
  shows "refines (addrs t) m (insert_rebalance a base m) (ins_rebal base t)"
proof (rule insert_rebalance_refines [OF assms(1-5)])
  show "T \<noteq> Leaf" if "l = Node A x lb nl hl T" "base > lb" "ht l > ht r + 1" for A x lb nl hl T
    using assms(6) that by (simp add: assms(3))
  show "T \<noteq> Leaf" if "r = Node T x rb nr hr C" "base < rb" "ht r > ht l + 1" for T x rb nr hr C
    using assms(6) that by (simp add: assms(3))
qed

text \<open>Writing a subtree back and rebalancing, after the recursive call of \<open>avl_insert\<close>.\<close>

lemma insert_left_refines:
  assumes t: "tree_at m (Node l a b n h r)" "distinct (addrs (Node l a b n h r))" "heights_pos (Node l a b n h r)"
    and L: "tree_at m' L" "\<And>p. p \<notin> set as \<Longrightarrow> m' p = m p"
    and as: "set (addrs L) \<subseteq> set as" "a \<notin> set as" "set as \<inter> set (addrs r) = {}" "distinct (addrs L)" "heights_pos L"
    and ok: "rebal_ok base (Node L a b n h r)"
  shows "refines (as @ a # addrs r) m
    (res_bind (update_at (\<lambda>n. n\<lparr>avl_left := ptr L\<rparr>) a m') (insert_rebalance a base))
    (ins_rebal base (Node L a b n h r))"
proof -
  let ?m2 = "m'(a \<mapsto> \<lparr>avl_base = b, avl_size = n, avl_height = h, avl_left = ptr L, avl_right = ptr r\<rparr>)"
  have w: "update_at (\<lambda>n. n\<lparr>avl_left := ptr L\<rparr>) a m' = Inr ?m2" "tree_at ?m2 (Node L a b n h r)"
    by (rule set_left_refines [OF t(1,2) L(1), where as = as]; use t(2) L(2) as in auto)+
  have "refines (addrs (Node L a b n h r)) ?m2 (insert_rebalance a base ?m2) (ins_rebal base (Node L a b n h r))"
    by (rule insert_rebalance_ok [OF w(2) _ refl]) (use t as ok in auto)
  then have "refines (as @ a # addrs r) m (insert_rebalance a base ?m2) (ins_rebal base (Node L a b n h r))"
    by (rule refines_extend) (use L(2) as in auto)
  then show ?thesis using w(1) by simp
qed

lemma insert_right_refines:
  assumes t: "tree_at m (Node l a b n h r)" "distinct (addrs (Node l a b n h r))" "heights_pos (Node l a b n h r)"
    and R: "tree_at m' R" "\<And>p. p \<notin> set as \<Longrightarrow> m' p = m p"
    and as: "set (addrs R) \<subseteq> set as" "a \<notin> set as" "set as \<inter> set (addrs l) = {}" "distinct (addrs R)" "heights_pos R"
    and ok: "rebal_ok base (Node l a b n h R)"
  shows "refines (addrs l @ a # as) m
    (res_bind (update_at (\<lambda>n. n\<lparr>avl_right := ptr R\<rparr>) a m') (insert_rebalance a base))
    (ins_rebal base (Node l a b n h R))"
proof -
  let ?m2 = "m'(a \<mapsto> \<lparr>avl_base = b, avl_size = n, avl_height = h, avl_left = ptr l, avl_right = ptr R\<rparr>)"
  have w: "update_at (\<lambda>n. n\<lparr>avl_right := ptr R\<rparr>) a m' = Inr ?m2" "tree_at ?m2 (Node l a b n h R)"
    by (rule set_right_refines [OF t(1,2) R(1), where as = as]; use t(2) R(2) as in auto)+
  have "refines (addrs (Node l a b n h R)) ?m2 (insert_rebalance a base ?m2) (ins_rebal base (Node l a b n h R))"
    by (rule insert_rebalance_ok [OF w(2) _ refl]) (use t as ok in auto)
  then have "refines (addrs l @ a # as) m (insert_rebalance a base ?m2) (ins_rebal base (Node l a b n h R))"
    by (rule refines_extend) (use R(2) as in auto)
  then show ?thesis using w(1) by simp
qed

text \<open>\<open>avl_insert\<close> in terms of the state that the allocator leaves.\<close>

definition inserts :: "u32 list \<Rightarrow> vm \<Rightarrow> (u32 \<times> vm) res \<Rightarrow> atree \<Rightarrow> bool" where
  "inserts as s r t \<longleftrightarrow> (\<exists>m'. r = Inr (ptr t, s\<lparr>nodes := m'\<rparr>) \<and> tree_at m' t \<and> (\<forall>a. a \<notin> set as \<longrightarrow> m' a = nodes s a))"

text \<open>The insertion at a node, given the insertion into its left or its right subtree.\<close>

lemma inserts_set: "inserts as s r t \<Longrightarrow> set as = set bs \<Longrightarrow> inserts bs s r t"
  by (simp add: inserts_def)

lemma inserts_left:
  assumes sub: "inserts as s' (avl_insert malloc e (ptr l) base sz s) (ins new base sz l')" and "sz \<noteq> 0" "base < b" "base < b'"
    and a: "a \<noteq> 0" "nodes s a = Some \<lparr>avl_base = b, avl_size = n, avl_height = h, avl_left = ptr l, avl_right = ptr r\<rparr>"
    and w: "tree_at (nodes s') (Node l' a b' n' h r')" "distinct (addrs (Node l' a b' n' h r'))" "heights_pos (Node l' a b' n' h r')"
    and as: "set (addrs (ins new base sz l')) \<subseteq> set as" "a \<notin> set as" "set as \<inter> set (addrs r') = {}" "distinct (addrs (ins new base sz l'))"
    and ok: "ins_ok new base sz (Node l' a b' n' h r')"
  shows "inserts (as @ a # addrs r') s' (avl_insert malloc (Suc e) a base sz s) (ins new base sz (Node l' a b' n' h r'))"
proof -
  have ok1: "rebal_ok base (Node (ins new base sz l') a b' n' h r')" using ok(1) assms(4) by (auto simp del: rebal_ok.simps)
  have hp: "heights_pos (ins new base sz l')" using w(3) by (simp add: heights_pos_ins)
  obtain m' where m': "avl_insert malloc e (ptr l) base sz s = Inr (ptr (ins new base sz l'), s'\<lparr>nodes := m'\<rparr>)"
    "tree_at m' (ins new base sz l')" "\<And>p. p \<notin> set as \<Longrightarrow> m' p = nodes s' p"
    using sub by (auto simp: inserts_def)
  have "refines (as @ a # addrs r') (nodes s')
    (res_bind (update_at (\<lambda>n. n\<lparr>avl_left := ptr (ins new base sz l')\<rparr>) a m') (insert_rebalance a base))
    (ins_rebal base (Node (ins new base sz l') a b' n' h r'))"
    by (rule insert_left_refines [OF w m'(2,3) as hp ok1])
  with m'(1) a assms(2-4) show ?thesis by (auto simp: inserts_def refines_def on_nodes_def)
qed

lemma inserts_right:
  assumes sub: "inserts as s' (avl_insert malloc e (ptr r) base sz s) (ins new base sz r')" and "sz \<noteq> 0" "b < base" "b' < base"
    and a: "a \<noteq> 0" "nodes s a = Some \<lparr>avl_base = b, avl_size = n, avl_height = h, avl_left = ptr l, avl_right = ptr r\<rparr>"
    and w: "tree_at (nodes s') (Node l' a b' n' h r')" "distinct (addrs (Node l' a b' n' h r'))" "heights_pos (Node l' a b' n' h r')"
    and as: "set (addrs (ins new base sz r')) \<subseteq> set as" "a \<notin> set as" "set as \<inter> set (addrs l') = {}" "distinct (addrs (ins new base sz r'))"
    and ok: "ins_ok new base sz (Node l' a b' n' h r')"
  shows "inserts (addrs l' @ a # as) s' (avl_insert malloc (Suc e) a base sz s) (ins new base sz (Node l' a b' n' h r'))"
proof -
  have ok1: "rebal_ok base (Node l' a b' n' h (ins new base sz r'))" using ok(1) assms(4) by (auto simp del: rebal_ok.simps)
  have hp: "heights_pos (ins new base sz r')" using w(3) by (simp add: heights_pos_ins)
  obtain m' where m': "avl_insert malloc e (ptr r) base sz s = Inr (ptr (ins new base sz r'), s'\<lparr>nodes := m'\<rparr>)"
    "tree_at m' (ins new base sz r')" "\<And>p. p \<notin> set as \<Longrightarrow> m' p = nodes s' p"
    using sub by (auto simp: inserts_def)
  have "refines (addrs l' @ a # as) (nodes s')
    (res_bind (update_at (\<lambda>n. n\<lparr>avl_right := ptr (ins new base sz r')\<rparr>) a m') (insert_rebalance a base))
    (ins_rebal base (Node l' a b' n' h (ins new base sz r')))"
    by (rule insert_right_refines [OF w m'(2,3) as hp ok1])
  with m'(1) a assms(2-4) show ?thesis by (auto simp: inserts_def refines_def on_nodes_def)
qed

lemma avl_insert_refines:
  assumes "malloc sizeof_avl_node False False s = Inr (new, x, s')" and "new \<noteq> 0" "sz \<noteq> 0"
    and "tree_at (nodes s) t" "tree_at (nodes s') t'" "moved base t t'"
    and "distinct (addrs t)" "heights_pos t" "new \<notin> set (addrs t)" "base \<notin> set (bases t')"
    and "ins_ok new base sz t'" "depth t < d"
  shows "inserts (new # addrs t) s' (avl_insert malloc d (ptr t) base sz s) (ins new base sz t')"
  using assms(4-)
proof (induction t arbitrary: t' d)
  case Leaf
  then have "t' = Leaf" by (cases t') auto
  with Leaf assms(1-3) show ?case by (cases d) (auto simp: inserts_def create_node_def)
next
  case (Node l a b n h r)
  obtain l' b' n' r' where t': "t' = Node l' a b' n' h r'" and cmp: "base < b \<longleftrightarrow> base < b'" "b < base \<longleftrightarrow> b' < base"
    and mv: "moved base l l'" "moved base r r'" using Node.prems(3) by (rule moved_NodeE)
  obtain e where d: "d = Suc e" "depth l < e" "depth r < e" using Node.prems by (cases d) auto
  note sh = moved_shape [OF mv(1)] moved_shape [OF mv(2)]
  have a: "a \<noteq> 0" "nodes s a = Some \<lparr>avl_base = b, avl_size = n, avl_height = h, avl_left = ptr l, avl_right = ptr r\<rparr>"
    using Node.prems by auto
  have w: "tree_at (nodes s') (Node l' a b' n' h r')" "distinct (addrs (Node l' a b' n' h r'))"
    "heights_pos (Node l' a b' n' h r')" "new \<notin> set (addrs (Node l' a b' n' h r'))"
    using Node.prems t' sh by auto
  have "base \<noteq> b'" using Node.prems t' by simp
  then consider "base < b'" | "base > b'" by fastforce
  then show ?case
  proof cases
    case 1
    have "inserts (new # addrs l) s' (avl_insert malloc e (ptr l) base sz s) (ins new base sz l')"
      by (rule Node.IH(1)) (use Node.prems t' mv(1) d(2) 1 in simp_all)
    moreover have "base \<notin> set (bases l')" using Node.prems(7) t' by simp
    then have "inserts ((new # addrs l) @ a # addrs r') s' (avl_insert malloc (Suc e) a base sz s) (ins new base sz (Node l' a b' n' h r'))"
      using cmp(1) 1 w(4) Node.prems(8) sh(1) t' w(2)
      by (intro inserts_left [OF calculation assms(3) _ 1 a w(1-3)]) (auto simp: addrs_ins distinct_addrs_ins simp del: ins_ok.simps)
    then show ?thesis unfolding t' d(1) ptr.simps by (rule inserts_set) (use sh in auto)
  next
    case 2
    have "inserts (new # addrs r) s' (avl_insert malloc e (ptr r) base sz s) (ins new base sz r')"
      by (rule Node.IH(2)) (use Node.prems t' mv(2) d(3) 2 in simp_all)
    moreover have "base \<notin> set (bases r')" using Node.prems(7) t' by simp
    then have "inserts (addrs l' @ a # new # addrs r) s' (avl_insert malloc (Suc e) a base sz s) (ins new base sz (Node l' a b' n' h r'))"
      using cmp(2) 2 w(4) Node.prems(8) sh(2) t' w(2)
      by (intro inserts_right [OF calculation assms(3) _ 2 a w(1-3)]) (auto simp: addrs_ins distinct_addrs_ins simp del: ins_ok.simps)
    then show ?thesis unfolding t' d(1) ptr.simps by (rule inserts_set) (use sh in auto)
  qed
qed

text \<open>
  Where \<open>ins_ok\<close> does not hold, the double rotation reads the child of a leaf: the insertion ends with a
  dereference of \<open>NULL\<close>. So does an insertion for which the allocator has no node.
\<close>

lemma insert_rebalance_null:
  assumes t: "tree_at m t" "distinct (addrs t)" "t = Node l a b n h r" and bad: "\<not> rebal_ok base t"
  shows "insert_rebalance a base m = Inl NullDeref"
proof -
  obtain m1 where u: "update_height a m = Inr m1" and t1: "tree_at m1 (fix_height t)"
    using update_height_refines [OF t(1,2)] t(3) by auto
  have bal: "get_balance m1 a = Inr (balance (fix_height t))" using get_balance_tree [OF t1] t(3) by (simp add: fix_height.simps)
  consider A x lb nl hl where "l = Node A x lb nl hl Leaf" "ht l > ht r + 1" "lb < base"
    | C y rb nr hr where "r = Node Leaf y rb nr hr C" "ht r > ht l + 1" "base < rb"
    using bad t(3) by (auto split: atree.splits)
  then show ?thesis
  proof cases
    case 1
    then have "rotate_left_right a m1 = Inl NullDeref"
      using t1 t(3) by (simp add: fix_height.simps rotate_left_right_def rotate_left_def)
    moreover have "\<not> base < lb" using 1(3) by simp
    ultimately show ?thesis using u bal t1 t(3) 1 by (simp add: insert_rebalance_def fix_height.simps)
  next
    case 2
    then have "rotate_right_left a m1 = Inl NullDeref"
      using t1 t(3) by (simp add: fix_height.simps rotate_right_left_def rotate_right_def)
    moreover have "\<not> rb < base" using 2(3) by simp
    ultimately show ?thesis using u bal t1 t(3) 2 by (simp add: insert_rebalance_def fix_height.simps)
  qed
qed

lemma avl_insert_left_null:
  assumes sub: "inserts as s' (avl_insert malloc e (ptr l) base sz s) (ins new base sz l')" and "sz \<noteq> 0" "base < b" "base < b'"
    and a: "a \<noteq> 0" "nodes s a = Some \<lparr>avl_base = b, avl_size = n, avl_height = h, avl_left = ptr l, avl_right = ptr r\<rparr>"
    and w: "tree_at (nodes s') (Node l' a b' n' h r')" "distinct (addrs (Node l' a b' n' h r'))"
    and as: "set (addrs (ins new base sz l')) \<subseteq> set as" "a \<notin> set as" "set as \<inter> set (addrs r') = {}" "distinct (addrs (ins new base sz l'))"
    and bad: "\<not> rebal_ok base (Node (ins new base sz l') a b' n' h r')"
  shows "avl_insert malloc (Suc e) a base sz s = Inl NullDeref"
proof -
  obtain m' where m': "avl_insert malloc e (ptr l) base sz s = Inr (ptr (ins new base sz l'), s'\<lparr>nodes := m'\<rparr>)"
    "tree_at m' (ins new base sz l')" "\<And>p. p \<notin> set as \<Longrightarrow> m' p = nodes s' p" using sub by (auto simp: inserts_def)
  let ?L = "ins new base sz l'"
  let ?m2 = "m'(a \<mapsto> \<lparr>avl_base = b', avl_size = n', avl_height = h, avl_left = ptr ?L, avl_right = ptr r'\<rparr>)"
  have u: "update_at (\<lambda>n. n\<lparr>avl_left := ptr ?L\<rparr>) a m' = Inr ?m2" "tree_at ?m2 (Node ?L a b' n' h r')"
    by (rule set_left_refines [OF w m'(2), where as = as]; use w(2) m'(3) as in auto)+
  have "insert_rebalance a base ?m2 = Inl NullDeref"
    by (rule insert_rebalance_null [OF u(2) _ refl bad]) (use w as in auto)
  then show ?thesis using m'(1) u(1) a assms(2-4) by (simp add: on_nodes_def)
qed

lemma avl_insert_right_null:
  assumes sub: "inserts as s' (avl_insert malloc e (ptr r) base sz s) (ins new base sz r')" and "sz \<noteq> 0" "b < base" "b' < base"
    and a: "a \<noteq> 0" "nodes s a = Some \<lparr>avl_base = b, avl_size = n, avl_height = h, avl_left = ptr l, avl_right = ptr r\<rparr>"
    and w: "tree_at (nodes s') (Node l' a b' n' h r')" "distinct (addrs (Node l' a b' n' h r'))"
    and as: "set (addrs (ins new base sz r')) \<subseteq> set as" "a \<notin> set as" "set as \<inter> set (addrs l') = {}" "distinct (addrs (ins new base sz r'))"
    and bad: "\<not> rebal_ok base (Node l' a b' n' h (ins new base sz r'))"
  shows "avl_insert malloc (Suc e) a base sz s = Inl NullDeref"
proof -
  obtain m' where m': "avl_insert malloc e (ptr r) base sz s = Inr (ptr (ins new base sz r'), s'\<lparr>nodes := m'\<rparr>)"
    "tree_at m' (ins new base sz r')" "\<And>p. p \<notin> set as \<Longrightarrow> m' p = nodes s' p" using sub by (auto simp: inserts_def)
  let ?R = "ins new base sz r'"
  let ?m2 = "m'(a \<mapsto> \<lparr>avl_base = b', avl_size = n', avl_height = h, avl_left = ptr l', avl_right = ptr ?R\<rparr>)"
  have u: "update_at (\<lambda>n. n\<lparr>avl_right := ptr ?R\<rparr>) a m' = Inr ?m2" "tree_at ?m2 (Node l' a b' n' h ?R)"
    by (rule set_right_refines [OF w m'(2), where as = as]; use w(2) m'(3) as in auto)+
  have "insert_rebalance a base ?m2 = Inl NullDeref"
    by (rule insert_rebalance_null [OF u(2) _ refl bad]) (use w as in auto)
  moreover have "\<not> base < b" using assms(3) by simp
  ultimately show ?thesis using m'(1) u(1) a assms(2-4) by (simp add: on_nodes_def)
qed

lemma avl_insert_null:
  assumes "malloc sizeof_avl_node False False s = Inr (new, x, s')" and "new \<noteq> 0" "sz \<noteq> 0"
    and "tree_at (nodes s) t" "tree_at (nodes s') t'" "moved base t t'"
    and "distinct (addrs t)" "heights_pos t" "new \<notin> set (addrs t)" "base \<notin> set (bases t')"
    and "\<not> ins_ok new base sz t'" "depth t < d"
  shows "avl_insert malloc d (ptr t) base sz s = Inl NullDeref"
  using assms(4-)
proof (induction t arbitrary: t' d)
  case Leaf
  then show ?case by (cases t') auto
next
  case (Node l a b n h r)
  obtain l' b' n' r' where t': "t' = Node l' a b' n' h r'" and cmp: "base < b \<longleftrightarrow> base < b'" "b < base \<longleftrightarrow> b' < base"
    and mv: "moved base l l'" "moved base r r'" using Node.prems(3) by (rule moved_NodeE)
  obtain e where d: "d = Suc e" "depth l < e" "depth r < e" using Node.prems by (cases d) auto
  note sh = moved_shape [OF mv(1)] moved_shape [OF mv(2)]
  have a: "a \<noteq> 0" "nodes s a = Some \<lparr>avl_base = b, avl_size = n, avl_height = h, avl_left = ptr l, avl_right = ptr r\<rparr>"
    using Node.prems by auto
  have w: "tree_at (nodes s') (Node l' a b' n' h r')" "distinct (addrs (Node l' a b' n' h r'))" using Node.prems t' sh by auto
  note ref = avl_insert_refines [where malloc = malloc and s = s and x = x and new = new and s' = s' and sz = sz and base = base, OF assms(1-3)]
  have "base \<noteq> b'" using Node.prems t' by simp
  then consider "base < b'" | "base > b'" by fastforce
  then show ?case
  proof cases
    case 1
    show ?thesis
    proof (cases "ins_ok new base sz l'")
      case True
      have "inserts (new # addrs l) s' (avl_insert malloc e (ptr l) base sz s) (ins new base sz l')"
        by (rule ref) (use Node.prems t' mv(1) d(2) True in simp_all)
      moreover have "\<not> rebal_ok base (Node (ins new base sz l') a b' n' h r')" using Node.prems(8) t' 1 True by (simp del: rebal_ok.simps)
      moreover have "base \<notin> set (bases l')" "new \<notin> set (addrs l')" "distinct (addrs l')" using Node.prems(4,6,7) t' sh by simp_all
      then have "set (addrs (ins new base sz l')) \<subseteq> set (new # addrs l)" "distinct (addrs (ins new base sz l'))"
        using sh by (auto simp: addrs_ins distinct_addrs_ins)
      ultimately show ?thesis unfolding d(1) ptr.simps
        by (intro avl_insert_left_null [OF _ assms(3) _ 1 a w]) (use cmp(1) 1 Node.prems(4,6) sh in auto)
    next
      case False
      have "avl_insert malloc e (ptr l) base sz s = Inl NullDeref"
        by (rule Node.IH(1)) (use Node.prems t' mv(1) d(2) False in simp_all)
      then show ?thesis using a d(1) assms(3) cmp(1) 1 by simp
    qed
  next
    case 2
    then have nl: "\<not> base < b'" "\<not> base < b" using cmp by auto
    show ?thesis
    proof (cases "ins_ok new base sz r'")
      case True
      have "inserts (new # addrs r) s' (avl_insert malloc e (ptr r) base sz s) (ins new base sz r')"
        by (rule ref) (use Node.prems t' mv(2) d(3) True in simp_all)
      moreover have "\<not> rebal_ok base (Node l' a b' n' h (ins new base sz r'))" using Node.prems(8) t' 2 nl True by (simp del: rebal_ok.simps)
      moreover have "base \<notin> set (bases r')" "new \<notin> set (addrs r')" "distinct (addrs r')" using Node.prems(4,6,7) t' sh by simp_all
      then have "set (addrs (ins new base sz r')) \<subseteq> set (new # addrs r)" "distinct (addrs (ins new base sz r'))"
        using sh by (auto simp: addrs_ins distinct_addrs_ins)
      ultimately show ?thesis unfolding d(1) ptr.simps
        by (intro avl_insert_right_null [OF _ assms(3) _ 2 a w]) (use cmp(2) 2 Node.prems(4,6) sh in auto)
    next
      case False
      have "avl_insert malloc e (ptr r) base sz s = Inl NullDeref"
        by (rule Node.IH(2)) (use Node.prems t' mv(2) d(3) False in simp_all)
      then show ?thesis using a d(1) assms(3) cmp(2) 2 nl by simp
    qed
  qed
qed

lemma avl_insert_no_node:
  assumes "malloc sizeof_avl_node False False s = Inr (0, x, s')" "sz \<noteq> 0"
  shows "tree_at (nodes s) t \<Longrightarrow> base \<notin> set (bases t) \<Longrightarrow> depth t < d \<Longrightarrow> avl_insert malloc d (ptr t) base sz s = Inl NullDeref"
proof (induction t arbitrary: d)
  case Leaf
  then show ?case using assms by (cases d) (auto simp: create_node_def)
next
  case (Node l a b n h r)
  obtain e where d: "d = Suc e" "depth l < e" "depth r < e" using Node.prems by (cases d) auto
  have "base \<noteq> b" using Node.prems(2) by simp
  then consider "base < b" | "base > b" "\<not> base < b" by fastforce
  then show ?case using Node d assms(2) by cases auto
qed

text \<open>A base that the tree has already: the block is dropped without an allocation, but the height
  fields on the way back are computed again.\<close>

lemma distinct_addrs_ins_dup: "distinct (addrs t) \<Longrightarrow> base \<in> set (bases t) \<Longrightarrow> bst t \<Longrightarrow> distinct (addrs (ins new base sz t))"
  by (simp add: addrs_ins_dup)

lemma avl_insert_duplicate:
  assumes "tree_at (nodes s) t" "bst t" "base \<in> set (bases t)" "sz \<noteq> 0" "distinct (addrs t)" "heights_pos t"
    and "ins_ok new base sz t" "depth t < d"
  shows "inserts (addrs t) s (avl_insert malloc d (ptr t) base sz s) (ins new base sz t)"
  using assms
proof (induction t arbitrary: d)
  case Leaf
  then show ?case by simp
next
  case (Node l a b n h r)
  obtain e where d: "d = Suc e" "depth l < e" "depth r < e" using Node.prems by (cases d) auto
  have a: "a \<noteq> 0" "nodes s a = Some \<lparr>avl_base = b, avl_size = n, avl_height = h, avl_left = ptr l, avl_right = ptr r\<rparr>"
    and bl: "bst l" "bst r"
    using Node.prems by (auto simp: bst_Node)
  consider "base < b" | "base > b" | "base = b" by fastforce
  then show ?case
  proof cases
    case 1
    have ok: "base \<in> set (bases l)" using Node.prems(2,3) 1 by (auto simp: bst_Node)
    have "inserts (addrs l) s (avl_insert malloc e (ptr l) base sz s) (ins new base sz l)"
      by (rule Node.IH(1)) (use Node.prems bl ok d(2) 1 in simp_all)
    then have "inserts (addrs l @ a # addrs r) s (avl_insert malloc (Suc e) a base sz s) (ins new base sz (Node l a b n h r))"
      using Node.prems(5,7) ok bl by (intro inserts_left [OF _ Node.prems(4) 1 1 a Node.prems(1,5,6)]) (auto simp: addrs_ins_dup simp del: ins_ok.simps)
    then show ?thesis using d(1) by simp
  next
    case 2
    have ok: "base \<in> set (bases r)" using Node.prems(2,3) 2 by (auto simp: bst_Node)
    have "inserts (addrs r) s (avl_insert malloc e (ptr r) base sz s) (ins new base sz r)"
      by (rule Node.IH(2)) (use Node.prems bl ok d(3) 2 in simp_all)
    then have "inserts (addrs l @ a # addrs r) s (avl_insert malloc (Suc e) a base sz s) (ins new base sz (Node l a b n h r))"
      using Node.prems(5,7) ok bl by (intro inserts_right [OF _ Node.prems(4) 2 2 a Node.prems(1,5,6)]) (auto simp: addrs_ins_dup simp del: ins_ok.simps)
    then show ?thesis using d(1) by simp
  next
    case 3
    with a d(1) Node.prems show ?thesis
      by (auto simp: inserts_def intro!: exI [of _ "nodes s"])
  qed
qed

subsection \<open>Search\<close>

text \<open>\<open>find_best_fit\<close> on values: the node it returns, with its block.\<close>

fun fit_of :: "u32 \<Rightarrow> atree \<Rightarrow> (u32 \<times> u32 \<times> u32) option" where
  "fit_of sz Leaf = None"
| "fit_of sz (Node l a b n h r) =
     (if n \<ge> sz
      then (case fit_of sz l of Some (a', b', n') \<Rightarrow> if n' < n then Some (a', b', n') else Some (a, b, n)
            | None \<Rightarrow> Some (a, b, n))
      else fit_of sz r)"

fun entries_of :: "atree \<Rightarrow> (u32 \<times> u32 \<times> u32) list" where
  "entries_of Leaf = []"
| "entries_of (Node l a b n h r) = entries_of l @ (a, b, n) # entries_of r"

lemma entries_of_projections: "map snd (entries_of t) = blocks t" "map fst (entries_of t) = addrs t"
  by (induction t) auto

lemma tree_at_entry: "tree_at m t \<Longrightarrow> (a, b, n) \<in> set (entries_of t) \<Longrightarrow> a \<noteq> 0 \<and> (\<exists>x. m a = Some x \<and> avl_base x = b \<and> avl_size x = n)"
  by (induction t) auto

lemma fit_of_entry: "fit_of sz t = Some (a, b, n) \<Longrightarrow> (a, b, n) \<in> set (entries_of t) \<and> sz \<le> n"
  by (induction t arbitrary: a b n) (auto split: if_splits option.splits)

lemma blocks_Nil: "blocks t = [] \<longleftrightarrow> t = Leaf"
  by (cases t) auto

text \<open>The search gives up only if the block with the highest base is too small.\<close>

lemma fit_of_None: "fit_of sz t = None \<Longrightarrow> t \<noteq> Leaf \<Longrightarrow> snd (last (blocks t)) < sz"
  by (induction t) (auto simp: blocks_Nil split: if_splits option.splits)

lemma find_best_fit_tree:
  "tree_at m t \<Longrightarrow> depth t < d \<Longrightarrow>
   find_best_fit d (ptr t) sz m = Inr (case fit_of sz t of None \<Rightarrow> 0 | Some (a, _) \<Rightarrow> a)"
proof (induction t arbitrary: d)
  case Leaf
  then show ?case by (cases d) auto
next
  case (Node l a b n h r)
  then obtain e where d: "d = Suc e" "depth l < e" "depth r < e" by (cases d) auto
  have a: "a \<noteq> 0" "m a = Some \<lparr>avl_base = b, avl_size = n, avl_height = h, avl_left = ptr l, avl_right = ptr r\<rparr>"
    and tl: "tree_at m l" and tr: "tree_at m r" using Node.prems by auto
  have le: "a' \<noteq> 0" "\<exists>x. m a' = Some x \<and> avl_size x = n'" if "fit_of sz l = Some (a', b', n')" for a' b' n'
    using tree_at_entry [OF tl] fit_of_entry [OF that] by blast+
  show ?case
    using Node.IH(1) [OF tl d(2)] Node.IH(2) [OF tr d(3)] a d(1) le
    by (fastforce split: option.splits)
qed

section \<open>Properties of the tree\<close>

text \<open>A tree of three blocks, in the order of the store.\<close>

definition tree3 :: atree where
  "tree3 = Node (Node Leaf 0x500 0x1000 0x100 1 Leaf) 0x520 0x2000 0x10 2 (Node Leaf 0x540 0x3000 0x20 1 Leaf)"

definition store3 :: node_store where
  "store3 = [0x500 \<mapsto> \<lparr>avl_base = 0x1000, avl_size = 0x100, avl_height = 1, avl_left = 0, avl_right = 0\<rparr>,
     0x520 \<mapsto> \<lparr>avl_base = 0x2000, avl_size = 0x10, avl_height = 2, avl_left = 0x500, avl_right = 0x540\<rparr>,
     0x540 \<mapsto> \<lparr>avl_base = 0x3000, avl_size = 0x20, avl_height = 1, avl_left = 0, avl_right = 0\<rparr>]"

lemma tree3_facts: "tree_at store3 tree3" "distinct (addrs tree3)" "heights_pos tree3" "bst tree3" "depth tree3 < 4"
  by (simp_all add: tree3_def store3_def bst_def)

text \<open>
  C10: refinement of \<open>avl_delete\<close>. On a search tree in the store, whatever its height fields say, \<open>avl_delete\<close> returns
  without a wild dereference; the result is a search tree that holds the blocks of the old one except the one with
  the deleted base, in order, and memory outside of the tree is not written.
\<close>

theorem avl_delete_correct:
  assumes "tree_at m t" and "distinct (addrs t)" and "heights_pos t" and "bst t" and "depth t < d"
  shows "\<exists>t' m'. avl_delete d (ptr t) base m = Inr (ptr t', m') \<and> tree_at m' t' \<and> distinct (addrs t') \<and> heights_pos t' \<and> bst t' \<and>
    blocks t' = filter (\<lambda>x. fst x \<noteq> base) (blocks t) \<and> (\<forall>a. a \<notin> set (addrs t) \<longrightarrow> m' a = m a)"
  using refines_Inr [OF avl_delete_refines [OF assms(1-3,5), of base]] assms
    distinct_addrs_del heights_pos_del bst_del blocks_del by blast

theorem avl_delete_correct_witness:
  "\<exists>t' m'. avl_delete 4 (ptr tree3) 0x2000 store3 = Inr (ptr t', m') \<and> tree_at m' t' \<and> blocks t' = [(0x1000, 0x100), (0x3000, 0x20)]"
proof -
  have "filter (\<lambda>x. fst x \<noteq> 0x2000) (blocks tree3) = [(0x1000, 0x100), (0x3000, 0x20)]" by (simp add: tree3_def)
  with avl_delete_correct [OF tree3_facts, of "0x2000"] show ?thesis by auto
qed

text \<open>
  \<open>find_best_fit\<close> returns \<open>NULL\<close> or a node of the tree whose block is large enough, and \<open>NULL\<close>
  only if the block with the highest base is too small.
\<close>

theorem find_best_fit_sound:
  assumes "tree_at m t" and "depth t < d"
  shows "\<exists>p. find_best_fit d (ptr t) sz m = Inr p \<and>
    (if p = 0 then t = Leaf \<or> snd (last (blocks t)) < sz else (\<exists>b n. (p, b, n) \<in> set (entries_of t) \<and> sz \<le> n))"
proof (cases "fit_of sz t")
  case None
  then show ?thesis using find_best_fit_tree [OF assms, of sz] fit_of_None [of sz t] by auto
next
  case (Some x)
  then obtain a b n where x: "fit_of sz t = Some (a, b, n)" by (cases x) auto
  have "a \<noteq> 0" using fit_of_entry [OF x] tree_at_entry [OF assms(1)] by blast
  then show ?thesis using find_best_fit_tree [OF assms, of sz] fit_of_entry [OF x] x by auto
qed

theorem find_best_fit_sound_witness:
  "\<exists>p. find_best_fit 4 (ptr tree3) 0x20 store3 = Inr p \<and>
    (if p = 0 then tree3 = Leaf \<or> snd (last (blocks tree3)) < 0x20 else (\<exists>b n. (p, b, n) \<in> set (entries_of tree3) \<and> 0x20 \<le> n))"
  by (rule find_best_fit_sound [OF tree3_facts(1,5)])

text \<open>
  \<open>find_best_fit\<close> misses blocks that fit. At a node that is too small it goes to the right only. In the tree of
  three blocks, the request for 256 bytes is answered with \<open>NULL\<close> although the leftmost block has 256 bytes.
\<close>

theorem find_best_fit_misses:
  "tree_at store3 tree3 \<and> (0x1000, 0x100) \<in> set (blocks tree3) \<and> find_best_fit 4 (ptr tree3) 0x100 store3 = Inr 0"
proof -
  have "find_best_fit 4 (ptr tree3) 0x100 store3 = Inr 0" by code_simp
  then show ?thesis using tree3_facts(1) by (simp add: tree3_def)
qed

end
