(* ===== verification/Kheap.thy ===== *)
theory Kheap
  imports Pages Avl_Spec
begin

text \<open>
  The kernel heap (\<^verbatim>\<open>vm.c\<close>, \<open>heap_init\<close> to \<open>kfree\<close>). The allocator calls itself: the tree of free
  blocks takes its nodes from \<open>kmalloc\<close>, and so does a page table that \<open>get_page\<close> creates.
  Each function takes the allocator as an argument, and \<open>ikmalloc\<close> ties the knot: \<open>ikmalloc d\<close> allows
  a nesting of \<open>d\<close> calls, and trees less than \<open>d\<close> deep; beyond it the result is \<open>OutOfFuel\<close>.
\<close>

section \<open>Operations\<close>

definition heap_init :: "malloc_fn \<Rightarrow> nat \<Rightarrow> u32 \<Rightarrow> u32 \<Rightarrow> u32 \<Rightarrow> bool \<Rightarrow> bool \<Rightarrow> vm \<Rightarrow> (u32 \<times> vm) res" where
  "heap_init malloc d start_a end_a max_sz sv ro s =
     res_bind (malloc sizeof_heap False False s) (\<lambda>(hp, _, s).
     if hp = 0 then Inr (0, s)
     else
       let start_a = ALIGN start_a PAGE_SIZE; end_a = ALIGN end_a PAGE_SIZE in
       res_bind (avl_insert malloc d 0 start_a (end_a - start_a) s) (\<lambda>(r, s).
       Inr (hp, s\<lparr>heaps := (heaps s)(hp \<mapsto>
         \<lparr>root = r, start_addr = start_a, end_addr = end_a, max_size = max_sz,
          supervisor = sv, readonly = ro\<rparr>)\<rparr>)))"

definition set_root :: "u32 \<Rightarrow> u32 \<Rightarrow> vm \<Rightarrow> vm res" where
  "set_root hp r s = res_bind (update_at (\<lambda>h. h\<lparr>root := r\<rparr>) hp (heaps s)) (\<lambda>hs. Inr (s\<lparr>heaps := hs\<rparr>))"

definition set_end :: "u32 \<Rightarrow> u32 \<Rightarrow> vm \<Rightarrow> vm res" where
  "set_end hp e s = res_bind (update_at (\<lambda>h. h\<lparr>end_addr := e\<rparr>) hp (heaps s)) (\<lambda>hs. Inr (s\<lparr>heaps := hs\<rparr>))"

text \<open>The loops run once per page between the two ends, which bounds their rounds.\<close>

definition expand_heap :: "malloc_fn \<Rightarrow> u32 \<Rightarrow> u32 \<Rightarrow> vm \<Rightarrow> (u32 \<times> vm) res" where
  "expand_heap malloc hp sz s =
     res_bind (deref (heaps s) hp) (\<lambda>h.
     let new_end_addr = ALIGN (end_addr h + sz) PAGE_SIZE in
     if new_end_addr > start_addr h + max_size h then Inr (0, s)
     else
       res_bind (while_res (Suc (unat (drop_bit 12 (new_end_addr - end_addr h)))) (\<lambda>(temp_end_addr, s). temp_end_addr < new_end_addr)
         (\<lambda>(temp_end_addr, s).
            res_bind (get_page malloc temp_end_addr (kernel_pd s) True s) (\<lambda>(page, s).
            res_bind (deref (heaps s) hp) (\<lambda>h.
            res_bind (alloc_frame page (supervisor h) (\<not> readonly h) s) (\<lambda>s.
            Inr (temp_end_addr + PAGE_SIZE, s)))))
         (end_addr h, s)) (\<lambda>(_, s).
       res_bind (set_end hp new_end_addr s) (\<lambda>s.
       Inr (new_end_addr - start_addr h, s))))"

definition reduce_heap :: "malloc_fn \<Rightarrow> u32 \<Rightarrow> u32 \<Rightarrow> vm \<Rightarrow> (u32 \<times> vm) res" where
  "reduce_heap malloc hp sz s =
     res_bind (deref (heaps s) hp) (\<lambda>h.
     let new_end_addr = ALIGN (end_addr h - sz) PAGE_SIZE in
     if new_end_addr = end_addr h then Inr (0, s)
     else
       let new_end_addr = (if new_end_addr - start_addr h < HEAP_MIN_SIZE then start_addr h + HEAP_MIN_SIZE else new_end_addr) in
       if new_end_addr > start_addr h + max_size h then Inr (0, s)
       else
         res_bind (while_res (Suc (unat (drop_bit 12 (end_addr h - new_end_addr)))) (\<lambda>(temp_end_addr, s). new_end_addr < temp_end_addr)
           (\<lambda>(temp_end_addr, s).
              res_bind (get_page malloc temp_end_addr (kernel_pd s) False s) (\<lambda>(page, s).
              res_bind (free_frame page s) (\<lambda>s.
              Inr (temp_end_addr - PAGE_SIZE, s))))
           (end_addr h - PAGE_SIZE, s)) (\<lambda>(_, s).
         res_bind (set_end hp new_end_addr s) (\<lambda>s.
         Inr (new_end_addr - start_addr h, s))))"

definition put_header :: "u32 \<Rightarrow> u32 \<Rightarrow> vm \<Rightarrow> vm" where
  "put_header a sz s = s\<lparr>headers := (headers s)(a \<mapsto> \<lparr>magic = HEAP_MAGIC, block_size = sz\<rparr>)\<rparr>"

text \<open>The part of \<open>heap_alloc\<close> for a request that no free block was found for.\<close>

definition heap_alloc_grow :: "malloc_fn \<Rightarrow> u32 \<Rightarrow> bool \<Rightarrow> u32 \<Rightarrow> vm \<Rightarrow> (u32 \<times> vm) res" where
  "heap_alloc_grow malloc hp page_align sz s =
     res_bind (deref (heaps s) hp) (\<lambda>h.
     let alloc_addr = (if page_align then ALIGN (end_addr h + sizeof_header) PAGE_SIZE - sizeof_header else end_addr h) in
     res_bind (expand_heap malloc hp (alloc_addr - end_addr h + sizeof_header + sz) s) (\<lambda>(n, s).
     if n = 0 then Inr (0, s)
     else Inr (alloc_addr + sizeof_header, put_header alloc_addr sz s)))"

text \<open>The part for a block that was found: it is cut off from the front of the block.\<close>

definition heap_alloc_fit :: "malloc_fn \<Rightarrow> nat \<Rightarrow> u32 \<Rightarrow> bool \<Rightarrow> u32 \<Rightarrow> u32 \<Rightarrow> vm \<Rightarrow> (u32 \<times> vm) res" where
  "heap_alloc_fit malloc d hp page_align sz best_fit s =
     res_bind (deref (nodes s) best_fit) (\<lambda>b.
     let alloc_addr = avl_base b in
     res_bind
       (if page_align \<and> alloc_addr AND (PAGE_SIZE - 1) \<noteq> PAGE_SIZE - sizeof_header then
          let aligned_addr = ALIGN (alloc_addr + sizeof_header) PAGE_SIZE - sizeof_header;
              alignment_offset = aligned_addr - alloc_addr
          in res_bind
               (if alignment_offset > sizeof_header then
                  res_bind (deref (heaps s) hp) (\<lambda>h.
                  res_bind (avl_insert malloc d (root h) alloc_addr alignment_offset s) (\<lambda>(r, s). set_root hp r s))
                else Inr s) (\<lambda>s.
             res_bind (update_at (\<lambda>n. n\<lparr>avl_base := aligned_addr + sizeof_header + sz,
                  avl_size := avl_size n - (alignment_offset + sizeof_header + sz)\<rparr>) best_fit (nodes s)) (\<lambda>m.
             Inr (aligned_addr, s\<lparr>nodes := m\<rparr>)))
        else
          res_bind (update_at (\<lambda>n. n\<lparr>avl_base := avl_base n + (sz + sizeof_header),
               avl_size := avl_size n - (sz + sizeof_header)\<rparr>) best_fit (nodes s)) (\<lambda>m.
          Inr (alloc_addr, s\<lparr>nodes := m\<rparr>))) (\<lambda>(alloc_addr, s).
     res_bind (deref (nodes s) best_fit) (\<lambda>b.
     res_bind
       (if avl_size b = 0 then
          res_bind (deref (heaps s) hp) (\<lambda>h.
          res_bind (on_nodes (avl_delete d (root h) (avl_base b)) s) (\<lambda>(r, s). set_root hp r s))
        else Inr s) (\<lambda>s.
     Inr (alloc_addr + sizeof_header, put_header alloc_addr sz s)))))"

definition heap_alloc :: "malloc_fn \<Rightarrow> nat \<Rightarrow> u32 \<Rightarrow> bool \<Rightarrow> u32 \<Rightarrow> vm \<Rightarrow> (u32 \<times> vm) res" where
  "heap_alloc malloc d hp page_align sz s =
     res_bind (deref (heaps s) hp) (\<lambda>h.
     res_bind (find_best_fit d (root h)
       (if page_align then sz + (PAGE_SIZE - 1) + sizeof_header else sz + sizeof_header) (nodes s)) (\<lambda>best_fit.
     if best_fit = 0 then heap_alloc_grow malloc hp page_align sz s
     else heap_alloc_fit malloc d hp page_align sz best_fit s))"

text \<open>
  The two walks of \<open>heap_free\<close>: the first looks for a free block that overlaps the range
  \<open>base\<close>, \<open>sz\<close>, the second for the free blocks that end and start where the range starts and ends.
\<close>

definition overlaps :: "u32 \<Rightarrow> u32 \<Rightarrow> avl_node \<Rightarrow> bool" where
  "overlaps base sz n \<longleftrightarrow>
     (base \<ge> avl_base n \<and> base < avl_base n + avl_size n) \<or>
     (base + sz > avl_base n \<and> base + sz \<le> avl_base n + avl_size n) \<or>
     (base < avl_base n \<and> base + sz > avl_base n + avl_size n)"

fun overlap_walk :: "nat \<Rightarrow> u32 \<Rightarrow> u32 \<Rightarrow> u32 \<Rightarrow> node_store \<Rightarrow> bool res" where
  "overlap_walk 0 current base sz m = Inl OutOfFuel"
| "overlap_walk (Suc d) current base sz m =
     (if current = 0 then Inr False
      else res_bind (deref m current) (\<lambda>n.
        if overlaps base sz n then Inr True
        else overlap_walk d (if base < avl_base n then avl_left n else avl_right n) base sz m))"

fun neighbor_walk :: "nat \<Rightarrow> u32 \<Rightarrow> u32 \<Rightarrow> u32 \<Rightarrow> u32 \<Rightarrow> u32 \<Rightarrow> node_store \<Rightarrow> (u32 \<times> u32) res" where
  "neighbor_walk 0 current base sz left_neighbor right_neighbor m = Inl OutOfFuel"
| "neighbor_walk (Suc d) current base sz left_neighbor right_neighbor m =
     (if current = 0 then Inr (left_neighbor, right_neighbor)
      else res_bind (deref m current) (\<lambda>n.
        let (left_neighbor, right_neighbor) =
              (if avl_base n + avl_size n = base then (current, right_neighbor)
               else if base + sz = avl_base n then (left_neighbor, current)
               else (left_neighbor, right_neighbor))
        in if left_neighbor \<noteq> 0 \<and> right_neighbor \<noteq> 0 then Inr (left_neighbor, right_neighbor)
           else neighbor_walk d (if base < avl_base n then avl_left n else avl_right n) base sz left_neighbor right_neighbor m))"

text \<open>\<^verbatim>\<open>heap->root = avl_delete(heap->root, base)\<close>.\<close>

definition delete_block :: "nat \<Rightarrow> u32 \<Rightarrow> u32 \<Rightarrow> vm \<Rightarrow> vm res" where
  "delete_block d hp base s =
     res_bind (deref (heaps s) hp) (\<lambda>h.
     res_bind (on_nodes (avl_delete d (root h) base) s) (\<lambda>(r, s). set_root hp r s))"

text \<open>Merging with the left and with the right neighbour. The node of the right one is read after the deletion of the left one.\<close>

definition left_step :: "nat \<Rightarrow> u32 \<Rightarrow> u32 \<Rightarrow> u32 \<Rightarrow> u32 \<Rightarrow> vm \<Rightarrow> (u32 \<times> u32 \<times> vm) res" where
  "left_step d hp left_neighbor base sz s =
     (if left_neighbor \<noteq> 0 then
        res_bind (deref (nodes s) left_neighbor) (\<lambda>l.
        res_bind (delete_block d hp (avl_base l) s) (\<lambda>s. Inr (avl_base l, sz + avl_size l, s)))
      else Inr (base, sz, s))"

definition right_step :: "nat \<Rightarrow> u32 \<Rightarrow> u32 \<Rightarrow> u32 \<Rightarrow> vm \<Rightarrow> (u32 \<times> vm) res" where
  "right_step d hp right_neighbor sz s =
     (if right_neighbor \<noteq> 0 then
        res_bind (deref (nodes s) right_neighbor) (\<lambda>r.
        res_bind (delete_block d hp (avl_base r) s) (\<lambda>s. Inr (sz + avl_size r, s)))
      else Inr (sz, s))"

definition heap_free :: "malloc_fn \<Rightarrow> nat \<Rightarrow> u32 \<Rightarrow> u32 \<Rightarrow> u32 \<Rightarrow> vm \<Rightarrow> vm res" where
  "heap_free malloc d hp base sz s =
     res_bind (deref (heaps s) hp) (\<lambda>h.
     if sz = 0 \<or> base < start_addr h \<or> base + sz > end_addr h then Inr (vm_print ''Invalid free request: Base=%x, Size=%x\<newline>'' [base, sz] s)
     else
       res_bind (overlap_walk d (root h) base sz (nodes s)) (\<lambda>overlap.
       if overlap then Inr (vm_print ''Overlapping free detected at %x (Size: %x)\<newline>'' [base, sz] s)
       else
         res_bind (neighbor_walk d (root h) base sz 0 0 (nodes s)) (\<lambda>(left_neighbor, right_neighbor).
         res_bind (left_step d hp left_neighbor base sz s) (\<lambda>(base, sz, s).
         res_bind (right_step d hp right_neighbor sz s) (\<lambda>(sz, s).
         res_bind (deref (heaps s) hp) (\<lambda>h.
         res_bind (avl_insert malloc d (root h) base sz s) (\<lambda>(r, s).
         set_root hp r s)))))))"

definition imalloc :: "malloc_fn \<Rightarrow> nat \<Rightarrow> u32 \<Rightarrow> bool \<Rightarrow> u32 \<Rightarrow> vm \<Rightarrow> (u32 \<times> vm) res" where
  "imalloc malloc d sz page_align hp s = heap_alloc malloc d hp page_align sz s"

definition ikmalloc_body :: "malloc_fn \<Rightarrow> nat \<Rightarrow> malloc_fn" where
  "ikmalloc_body malloc d sz page_align want_paddr s =
     (if kheap s \<noteq> 0 then
        res_bind (imalloc malloc d sz page_align (kheap s) s) (\<lambda>(vaddr, s).
        if want_paddr then
          res_bind (get_page malloc vaddr (kernel_pd s) False s) (\<lambda>(page, s).
          res_bind (read_pte page s) (\<lambda>pte.
          Inr (vaddr, Some ((pte AND 0xFFFFF000) + (vaddr AND 0xFFF)), s)))
        else Inr (vaddr, None, s))
      else
        let (p, pm) = placement_alloc sz page_align (vm_pm s)
        in Inr (p, if want_paddr then Some p else None, s\<lparr>vm_pm := pm\<rparr>))"

primrec ikmalloc :: "nat \<Rightarrow> malloc_fn" where
  "ikmalloc 0 = (\<lambda>sz page_align want_paddr s. Inl OutOfFuel)"
| "ikmalloc (Suc d) = ikmalloc_body (ikmalloc d) d"

definition kmalloc :: "nat \<Rightarrow> u32 \<Rightarrow> vm \<Rightarrow> (u32 \<times> vm) res" where
  "kmalloc d sz s = res_bind (ikmalloc d sz False False s) (\<lambda>(p, _, s). Inr (p, s))"

definition ifree :: "malloc_fn \<Rightarrow> nat \<Rightarrow> u32 \<Rightarrow> u32 \<Rightarrow> vm \<Rightarrow> vm res" where
  "ifree malloc d hp p s =
     (if hp = 0 \<or> p = 0 then Inr s
      else
        res_bind (deref (headers s) (p - sizeof_header)) (\<lambda>hd.
        if magic hd \<noteq> HEAP_MAGIC then Inr (vm_print ''Invalid magic number\<newline>'' [] s)
        else heap_free malloc d hp (p - sizeof_header) (block_size hd + sizeof_header) s))"

definition kfree :: "nat \<Rightarrow> u32 \<Rightarrow> vm \<Rightarrow> vm res" where
  "kfree d p s = ifree (ikmalloc d) d (kheap s) p s"

end
