(* ===== verification/Interrupts.thy ===== *)
theory Interrupts
  imports Prelude
begin

text \<open>
  Descriptor tables and interrupt dispatch (\<^verbatim>\<open>gdt.c\<close>, \<^verbatim>\<open>idt.c\<close>, \<^verbatim>\<open>isr.c\<close>, \<^verbatim>\<open>irq.c\<close>,
  \<^verbatim>\<open>libc/stdlib/io.c\<close> for the ports, \<^verbatim>\<open>asm/gdt.S\<close> and \<^verbatim>\<open>asm/idt.S\<close>). The tables are lists of the packed entries; the addresses
  of the tables and of the entry stubs are parameters. A function pointer is a value of the type \<open>'h\<close> of the handlers, \<open>None\<close> is 0;
  what a handler does to the rest of the kernel, and the output functions, are parameters of the dispatchers. Bytes written to ports are
  kept as a trace.
\<close>

section \<open>State\<close>

record idt_entry =
  idt_base_low :: u16
  selector :: u16
  reserved :: u8
  flags :: u8
  idt_base_high :: u16

record gdt_entry =
  limit_low :: u16
  base_low :: u16
  base_middle :: u8
  access :: u8
  granularity :: u8
  base_high :: u8

text \<open>\<^verbatim>\<open>struct regs\<close>, the stack that a stub leaves for the dispatcher.\<close>

record regs =
  r_gs :: u32
  r_fs :: u32
  r_ed :: u32
  r_ds :: u32
  r_edi :: u32
  r_esi :: u32
  r_ebp :: u32
  r_esp :: u32
  r_ebx :: u32
  r_edx :: u32
  r_ecx :: u32
  r_eax :: u32
  int_no :: u32
  err_code :: u32
  r_eip :: u32
  r_cs :: u32
  r_eflags :: u32
  r_usresp :: u32
  r_ss :: u32

text \<open>
  The tables with the pointer structures \<open>gdtp\<close> and \<open>idtp\<close>, limit and base, and the registers of the processor that are loaded from them.
\<close>

datatype seg = CS | DS | ES | FS | GS | SS

record 'h ints =
  gdt :: "gdt_entry list"
  gdtp :: "u16 \<times> u32"
  gdtr :: "u16 \<times> u32"
  segs :: "seg \<Rightarrow> u16"
  idt :: "idt_entry list"
  idtp :: "u16 \<times> u32"
  idtr :: "u16 \<times> u32"
  interrupt_handlers :: "'h option list"
  irq_routines :: "'h option list"
  port_out :: "(u16 \<times> u8) list"

definition outb :: "u16 \<Rightarrow> u8 \<Rightarrow> 'h ints \<Rightarrow> 'h ints" where
  "outb port v s = s\<lparr>port_out := port_out s @ [(port, v)]\<rparr>"

section \<open>The global descriptor table\<close>

definition gdt_descriptor :: "u32 \<Rightarrow> u32 \<Rightarrow> u8 \<Rightarrow> u8 \<Rightarrow> gdt_entry" where
  "gdt_descriptor base limit acc gran =
     \<lparr>limit_low = ucast (limit AND 0xFFFF), base_low = ucast (base AND 0xFFFF),
      base_middle = ucast (drop_bit 16 base AND 0xFF), access = acc,
      granularity = ucast (drop_bit 16 limit AND 0x0F) OR (gran AND 0xF0),
      base_high = ucast (drop_bit 24 base AND 0xFF)\<rparr>"

definition gdt_set_descriptor :: "nat \<Rightarrow> u32 \<Rightarrow> u32 \<Rightarrow> u8 \<Rightarrow> u8 \<Rightarrow> 'h ints \<Rightarrow> 'h ints res" where
  "gdt_set_descriptor index base limit acc gran s =
     res_bind (arr_set (gdt s) index (gdt_descriptor base limit acc gran)) (\<lambda>g.
     Inr (s\<lparr>gdt := g\<rparr>))"

text \<open>\<^verbatim>\<open>asm/gdt.S\<close>: the table register and all segment registers are loaded.\<close>

definition gdt_flush :: "'h ints \<Rightarrow> 'h ints" where
  "gdt_flush s = s\<lparr>gdtr := gdtp s, segs := (segs s)(DS := 0x10, ES := 0x10, FS := 0x10, GS := 0x10, SS := 0x10, CS := 0x08)\<rparr>"

definition gdt_install :: "u32 \<Rightarrow> 'h ints \<Rightarrow> 'h ints res" where
  "gdt_install gdt_addr s =
     res_bind (gdt_set_descriptor 0 0 0 0 0 (s\<lparr>gdtp := (8 * 3 - 1, gdt_addr)\<rparr>)) (\<lambda>s.
     res_bind (gdt_set_descriptor 1 0 0xFFFFFFFF 0x9A 0xCF s) (\<lambda>s.
     res_bind (gdt_set_descriptor 2 0 0xFFFFFFFF 0x92 0xCF s) (\<lambda>s.
     Inr (gdt_flush s))))"

section \<open>The interrupt descriptor table\<close>

definition idt_set_descriptor :: "u8 \<Rightarrow> u32 \<Rightarrow> u16 \<Rightarrow> u8 \<Rightarrow> 'h ints \<Rightarrow> 'h ints res" where
  "idt_set_descriptor index base sel fl s =
     res_bind (arr_set (idt s) (unat index)
       \<lparr>idt_base_low = ucast (base AND 0xFFFF), selector = sel, reserved = 0, flags = fl,
        idt_base_high = ucast (drop_bit 16 base AND 0xFFFF)\<rparr>) (\<lambda>t.
     Inr (s\<lparr>idt := t\<rparr>))"

text \<open>\<^verbatim>\<open>asm/idt.S\<close>: the table register is loaded, and interrupts are enabled; the second component is the interrupt flag.\<close>

definition idt_load :: "'h ints \<Rightarrow> 'h ints \<times> bool" where
  "idt_load s = (s\<lparr>idtr := idtp s\<rparr>, True)"

definition idt_install :: "u32 \<Rightarrow> 'h ints \<Rightarrow> 'h ints \<times> bool" where
  "idt_install idt_addr s = idt_load (s\<lparr>idtp := (8 * 256 - 1, idt_addr),
     idt := replicate 256 \<lparr>idt_base_low = 0, selector = 0, reserved = 0, flags = 0, idt_base_high = 0\<rparr>\<rparr>)"

text \<open>The loops over the stub tables; \<open>vector\<close> is a \<^verbatim>\<open>uint8_t\<close>.\<close>

fun install_stubs :: "u32 list \<Rightarrow> u8 \<Rightarrow> 'h ints \<Rightarrow> 'h ints res" where
  "install_stubs [] vector s = Inr s"
| "install_stubs (a # as) vector s =
     res_bind (idt_set_descriptor vector a 0x08 0x8E s) (install_stubs as (vector + 1))"

definition isr_install :: "u32 list \<Rightarrow> 'h ints \<Rightarrow> 'h ints res" where
  "isr_install isr_stub_table s = install_stubs (take 32 isr_stub_table) 0 s"

definition irq_remap :: "'h ints \<Rightarrow> 'h ints" where
  "irq_remap s = fold (\<lambda>(p, v). outb p v)
     [(0x20, 0x11), (0xA0, 0x11), (0x21, 0x20), (0xA1, 0x28), (0x21, 0x04), (0xA1, 0x02), (0x21, 0x01), (0xA1, 0x01), (0x21, 0x0), (0xA1, 0x0)] s"

definition irq_install :: "u32 list \<Rightarrow> 'h ints \<Rightarrow> 'h ints res" where
  "irq_install irq_stub_table s = install_stubs (take 16 irq_stub_table) 32 (irq_remap s)"

section \<open>Handlers\<close>

definition register_interrupt_handler :: "nat \<Rightarrow> 'h \<Rightarrow> 'h ints \<Rightarrow> 'h ints res" where
  "register_interrupt_handler vector h s =
     res_bind (arr_set (interrupt_handlers s) vector (Some h)) (\<lambda>hs. Inr (s\<lparr>interrupt_handlers := hs\<rparr>))"

definition register_request_handler :: "nat \<Rightarrow> 'h \<Rightarrow> 'h ints \<Rightarrow> 'h ints res" where
  "register_request_handler vector h s =
     res_bind (arr_set (irq_routines s) vector (Some h)) (\<lambda>hs. Inr (s\<lparr>irq_routines := hs\<rparr>))"

definition unregister_request_handler :: "nat \<Rightarrow> 'h ints \<Rightarrow> 'h ints res" where
  "unregister_request_handler vector s =
     res_bind (arr_set (irq_routines s) vector None) (\<lambda>hs. Inr (s\<lparr>irq_routines := hs\<rparr>))"

definition exception_messages :: "string list" where
  "exception_messages =
     [''Division By Zero'', ''Debug'', ''Non Maskable Interrupt'', ''Breakpoint'', ''Into Detected Overflow'', ''Out of Bounds'',
      ''Invalid Opcode'', ''No Coprocessor'', ''Double Fault 007'', ''Coprocessor Segment Overrun'', ''Bad TSS'', ''Segment Not Present'',
      ''Stack Fault'', ''General Protection Fault'', ''Page Fault'', ''Unknown Interrupt'', ''Coprocessor Fault'', ''Alignment Check'',
      ''Machine Check''] @ replicate 13 ''Reserved''"

text \<open>
  \<open>run h r k\<close> is the effect of the handler \<open>h\<close> on the rest \<open>k\<close> of the kernel, \<open>say\<close> that of \<open>puts\<close> on a constant. For an exception the
  system halts behind the messages when the handler has returned, unless the handler has halted it already.
\<close>

definition exception_handler ::
  "('h \<Rightarrow> regs \<Rightarrow> 'k \<Rightarrow> 'k outcome res) \<Rightarrow> (string \<Rightarrow> 'k \<Rightarrow> 'k res) \<Rightarrow> regs \<Rightarrow> 'h ints \<Rightarrow> 'k \<Rightarrow> 'k outcome res" where
  "exception_handler run say r s k =
     res_bind (arr_get (interrupt_handlers s) (unat (int_no r))) (\<lambda>h.
     res_bind (case h of None \<Rightarrow> Inr (Returned k) | Some h \<Rightarrow> run h r k) (\<lambda>end.
     case end of
       Halted k \<Rightarrow> Inr (Halted k)
     | Returned k \<Rightarrow>
         if int_no r < 32 then
           res_bind (say ''\<newline>Exception. System halted.'' k) (\<lambda>k.
           res_bind (arr_get exception_messages (unat (int_no r))) (\<lambda>msg.
           res_bind (say msg k) (\<lambda>k. Inr (Halted k))))
         else Inr (Returned k)))"

text \<open>\<open>report\<close> stands for \<open>printf\<close> with a constant format. The interrupt is acknowledged before the handler runs.\<close>

definition irq_handler ::
  "('h \<Rightarrow> regs \<Rightarrow> 'h ints \<times> 'k \<Rightarrow> ('h ints \<times> 'k) res) \<Rightarrow> (string \<Rightarrow> u32 list \<Rightarrow> 'k \<Rightarrow> 'k res) \<Rightarrow> regs \<Rightarrow> 'h ints \<times> 'k \<Rightarrow> ('h ints \<times> 'k) res" where
  "irq_handler run report r sk = (case sk of (s, k) \<Rightarrow>
     res_bind (arr_get (irq_routines s) (unat (int_no r - 32))) (\<lambda>h.
     let s = (if int_no r \<ge> 40 then outb 0xA0 0x20 s else s);
         s = outb 0x20 0x20 s
     in case h of
          Some h \<Rightarrow> run h r (s, k)
        | None \<Rightarrow> res_bind (report ''No handler registered for IRQ %d\<newline>'' [int_no r - 32] k) (\<lambda>k. Inr (s, k))))"

section \<open>Descriptors as the processor reads them\<close>

definition gate_offset :: "idt_entry \<Rightarrow> u32" where
  "gate_offset e = push_bit 16 (ucast (idt_base_high e)) OR ucast (idt_base_low e)"

definition seg_base :: "gdt_entry \<Rightarrow> u32" where
  "seg_base e = push_bit 24 (ucast (base_high e)) OR push_bit 16 (ucast (base_middle e)) OR ucast (base_low e)"

definition seg_limit :: "gdt_entry \<Rightarrow> u32" where
  "seg_limit e = push_bit 16 (ucast (granularity e AND 0x0F)) OR ucast (limit_low e)"

lemma bit_masks: "(0xFFFF :: u32) = mask 16" "(0xFF :: u32) = mask 8" "(0xF :: u32) = mask 4" "(0xF :: u8) = mask 4"
  "(0xF0 :: u8) = push_bit 4 (mask 4)"
  by (simp_all add: mask_eq_exp_minus_1)

lemma gate_offset_split:
  "gate_offset \<lparr>idt_base_low = ucast (base AND 0xFFFF), selector = sel, reserved = 0, flags = fl,
      idt_base_high = ucast (drop_bit 16 base AND 0xFFFF)\<rparr> = base" for base :: u32
  unfolding gate_offset_def bit_masks
  by (rule bit_eqI) (auto simp: bit_simps)

lemma seg_split:
  "seg_base (gdt_descriptor base limit acc gran) = base" "seg_limit (gdt_descriptor base limit acc gran) = take_bit 20 limit"
proof -
  show "seg_base (gdt_descriptor base limit acc gran) = base"
    unfolding seg_base_def gdt_descriptor_def gdt_entry.select_convs bit_masks
  proof (rule bit_eqI)
    fix n :: nat
    consider "n < 16" | "16 \<le> n" "n < 24" | "24 \<le> n" by linarith
    then show "bit (push_bit 24 (ucast (ucast (drop_bit 24 base AND mask 8) :: u8) :: u32) OR push_bit 16 (ucast (ucast (drop_bit 16 base AND mask 8) :: u8)) OR
      ucast (ucast (base AND mask 16) :: u16)) n = bit base n" if "possible_bit TYPE(u32) n"
      using that by cases (auto simp: bit_simps)
  qed
  show "seg_limit (gdt_descriptor base limit acc gran) = take_bit 20 limit"
    unfolding seg_limit_def gdt_descriptor_def gdt_entry.select_convs bit_masks
    by (rule bit_eqI) (auto simp: bit_simps)
qed

lemma access_descriptor [simp]: "access (gdt_descriptor base limit acc gran) = acc"
  by (simp add: gdt_descriptor_def)

section \<open>Installing the tables\<close>

abbreviation gate :: "u32 \<Rightarrow> idt_entry" where
  "gate a \<equiv> \<lparr>idt_base_low = ucast (a AND 0xFFFF), selector = 0x08, reserved = 0, flags = 0x8E,
     idt_base_high = ucast (drop_bit 16 a AND 0xFFFF)\<rparr>"

lemma install_stubs_Inr:
  "length (idt s) = 256 \<Longrightarrow> unat vector + length as \<le> 256 \<Longrightarrow>
   \<exists>t. install_stubs as vector s = Inr (s\<lparr>idt := t\<rparr>) \<and> length t = 256 \<and>
     (\<forall>v < 256. t ! v = (if unat vector \<le> v \<and> v < unat vector + length as then gate (as ! (v - unat vector)) else idt s ! v))"
proof (induction as arbitrary: vector s)
  case Nil
  then show ?case by (intro exI [of _ "idt s"]) auto
next
  case (Cons a as)
  let ?s = "s\<lparr>idt := (idt s)[unat vector := gate a]\<rparr>"
  have v: "unat vector < 256" using Cons.prems(2) by simp
  show ?case
  proof (cases "as = []")
    case True
    then show ?thesis
      using Cons.prems v by (intro exI [of _ "(idt s)[unat vector := gate a]"]) (auto simp: idt_set_descriptor_def arr_set_def nth_list_update)
  next
    case False
    then have u: "unat (vector + 1) = unat vector + 1" using Cons.prems(2) by (cases as) (auto simp: unat_word_ariths)
    then have "\<exists>t. install_stubs as (vector + 1) ?s = Inr (?s\<lparr>idt := t\<rparr>) \<and> length t = 256 \<and>
      (\<forall>v < 256. t ! v = (if unat (vector + 1) \<le> v \<and> v < unat (vector + 1) + length as then gate (as ! (v - unat (vector + 1))) else idt ?s ! v))"
      using Cons.prems by (intro Cons.IH) auto
    then obtain t where t: "install_stubs as (vector + 1) ?s = Inr (s\<lparr>idt := t\<rparr>)" "length t = 256"
      "\<And>v. v < 256 \<Longrightarrow> t ! v = (if unat vector + 1 \<le> v \<and> v < unat vector + 1 + length as then gate (as ! (v - unat vector - 1)) else idt ?s ! v)"
      unfolding u by (auto simp: diff_diff_left)
    have "t ! w = (if unat vector \<le> w \<and> w < unat vector + length (a # as) then gate ((a # as) ! (w - unat vector)) else idt s ! w)"
      if "w < 256" for w
      using t(3) [OF that] v Cons.prems(1) by (cases "w = unat vector") (auto simp: nth_Cons' nth_list_update)
    moreover have "install_stubs (a # as) vector s = Inr (s\<lparr>idt := t\<rparr>)"
      using t(1) v Cons.prems(1) by (simp add: idt_set_descriptor_def arr_set_def)
    ultimately show ?thesis using t(2) by blast
  qed
qed

definition ints_init :: "'h ints" where
  "ints_init = \<lparr>gdt = replicate 3 \<lparr>limit_low = 0, base_low = 0, base_middle = 0, access = 0, granularity = 0, base_high = 0\<rparr>, gdtp = (0, 0), gdtr = (0, 0), segs = (\<lambda>_. 0),
     idt = replicate 256 \<lparr>idt_base_low = 0, selector = 0, reserved = 0, flags = 0, idt_base_high = 0\<rparr>, idtp = (0, 0), idtr = (0, 0),
     interrupt_handlers = replicate 256 None, irq_routines = replicate 16 None, port_out = []\<rparr>"

lemma idt_irq_remap [simp]: "idt (irq_remap s) = idt s" "idtr (irq_remap s) = idtr s" "(irq_remap s)\<lparr>idt := t\<rparr> = irq_remap (s\<lparr>idt := t\<rparr>)"
  by (simp_all add: irq_remap_def outb_def)

section \<open>Properties\<close>

text \<open>
  C37: the vectors 0 to 47 reach their stubs. After \<open>idt_install\<close>, \<open>isr_install\<close> and \<open>irq_install\<close>, in the order of
  \<open>kernel_main\<close>, the gates 0 to 31 hold the addresses of the exception stubs and 32 to 47 those of the IRQ stubs, put together as the
  processor does it, with kernel code selector and as present interrupt gates; all other gates are not present.
\<close>

theorem idt_gates:
  assumes "length isr_stub_table = 32" and "length irq_stub_table = 16"
  shows "\<exists>s1 s2. isr_install isr_stub_table (fst (idt_install idt_addr s)) = Inr s1 \<and> irq_install irq_stub_table s1 = Inr s2 \<and>
    idtr s2 = (8 * of_nat (length (idt s2)) - 1, idt_addr) \<and> length (idt s2) = 256 \<and>
    (\<forall>v < 48. gate_offset (idt s2 ! v) = (isr_stub_table @ irq_stub_table) ! v \<and> selector (idt s2 ! v) = 0x08 \<and> flags (idt s2 ! v) = 0x8E) \<and>
    (\<forall>v. 48 \<le> v \<and> v < 256 \<longrightarrow> flags (idt s2 ! v) = 0)"
proof -
  let ?s0 = "fst (idt_install idt_addr s)"
  have s0: "idt ?s0 = replicate 256 \<lparr>idt_base_low = 0, selector = 0, reserved = 0, flags = 0, idt_base_high = 0\<rparr>" "idtr ?s0 = (8 * 256 - 1, idt_addr)"
    by (simp_all add: idt_install_def idt_load_def)
  obtain t1 where t1: "install_stubs isr_stub_table 0 ?s0 = Inr (?s0\<lparr>idt := t1\<rparr>)" "length t1 = 256"
    "\<And>v. v < 256 \<Longrightarrow> t1 ! v = (if v < 32 then gate (isr_stub_table ! v) else idt ?s0 ! v)"
    using install_stubs_Inr [of ?s0 0 isr_stub_table] assms s0 by auto
  let ?s1 = "?s0\<lparr>idt := t1\<rparr>"
  obtain t2 where t2: "install_stubs irq_stub_table 32 (irq_remap ?s1) = Inr ((irq_remap ?s1)\<lparr>idt := t2\<rparr>)" "length t2 = 256"
    "\<And>v. v < 256 \<Longrightarrow> t2 ! v = (if 32 \<le> v \<and> v < 48 then gate (irq_stub_table ! (v - 32)) else t1 ! v)"
    using install_stubs_Inr [of "irq_remap ?s1" 32 irq_stub_table] assms t1(2) by auto
  have "t2 ! v = gate ((isr_stub_table @ irq_stub_table) ! v)" if "v < 48" for v
    using t1(3) [of v] t2(3) [of v] that assms by (auto simp: nth_append)
  moreover have "flags (t2 ! v) = 0" if "48 \<le> v" "v < 256" for v
    using t1(3) [of v] t2(3) [of v] that s0 by simp
  ultimately show ?thesis
    using t1(1) t2(1,2) assms s0
    by (intro exI [of _ ?s1, OF exI [of _ "(irq_remap ?s1)\<lparr>idt := t2\<rparr>"]]) (simp add: isr_install_def irq_install_def gate_offset_split)
qed

theorem idt_gates_witness:
  "\<exists>s1 s2. isr_install (replicate 32 0x101000) (fst (idt_install 0x108000 ints_init)) = Inr (s1 :: nat ints) \<and>
     irq_install (replicate 16 0x102000) s1 = Inr s2 \<and> gate_offset (idt s2 ! 33) = 0x102000 \<and> idtr s2 = (2047, 0x108000)"
  using idt_gates [of "replicate 32 0x101000" "replicate 16 0x102000" "0x108000" "ints_init :: nat ints"]
  by (auto simp: nth_append)

text \<open>
  Interrupts are enabled too early: \<open>idt_load\<close> sets the interrupt flag when the table it loads has no present gate at all, and before the
  interrupt controllers are moved away from the vectors of the exceptions. A request that arrives before \<open>irq_install\<close> has no gate to go through.
\<close>

theorem interrupts_before_gates:
  "snd (idt_install idt_addr s) \<and> port_out (fst (idt_install idt_addr s)) = port_out s \<and>
    (\<forall>v < 256. \<not> bit (flags (idt (fst (idt_install idt_addr s)) ! v)) 7)"
  by (simp add: idt_install_def idt_load_def)

text \<open>
  The segments are flat. \<open>gdt_install\<close> writes the three descriptors without leaving the table; read as
  the processor reads them, code and data segment start at 0 and have the limit 0xFFFFF in units of pages, that is all of the 4 GB. Every
  segment register selects one of the two.
\<close>

theorem gdt_flat:
  "\<exists>s'. gdt_install gdt_addr ints_init = Inr (s' :: 'h ints) \<and> length (gdt s') = 3 \<and> gdtr s' = (23, gdt_addr) \<and>
    (\<forall>g. segs s' g = (if g = CS then 8 * 1 else 8 * 2)) \<and> access (gdt s' ! 0) = 0 \<and>
    map seg_base (tl (gdt s')) = [0, 0] \<and> map seg_limit (tl (gdt s')) = [0xFFFFF, 0xFFFFF] \<and>
    map (\<lambda>d. bit (granularity d) 7) (tl (gdt s')) = [True, True] \<and>
    access (gdt s' ! 1) = 0x9A \<and> access (gdt s' ! 2) = 0x92"
proof -
  have l: "take_bit 20 (0xFFFFFFFF :: u32) = 0xFFFFF" by code_simp
  have g: "bit (granularity (gdt_descriptor 0 0xFFFFFFFF a 0xCF)) 7" for a
  proof -
    have "bit (ucast (drop_bit 16 (0xFFFFFFFF :: u32) AND 0x0F) OR (0xCF AND 0xF0) :: u8) 7" by code_simp
    then show ?thesis unfolding gdt_descriptor_def gdt_entry.select_convs .
  qed
  have "gdt_install gdt_addr ints_init = Inr (ints_init\<lparr>gdtp := (23, gdt_addr), gdtr := (23, gdt_addr),
    segs := (\<lambda>_. 0)(DS := 0x10, ES := 0x10, FS := 0x10, GS := 0x10, SS := 0x10, CS := 0x08), gdt := [gdt_descriptor 0 0 0 0, gdt_descriptor 0 0xFFFFFFFF 0x9A 0xCF, gdt_descriptor 0 0xFFFFFFFF 0x92 0xCF]\<rparr> :: 'h ints)"
    by (simp add: gdt_install_def gdt_flush_def gdt_set_descriptor_def arr_set_def ints_init_def numeral_2_eq_2 numeral_3_eq_3)
  moreover have "((\<lambda>_. 0 :: u16)(DS := 0x10, ES := 0x10, FS := 0x10, GS := 0x10, SS := 0x10, CS := 0x08)) g = (if g = CS then 8 else 16)" for g
    by (cases g) simp_all
  ultimately show ?thesis by (simp add: seg_split l g del: fun_upd_apply)
qed

text \<open>
  C38: interrupt requests reach the registered handler. After a handler was registered for IRQ \<open>v\<close>, the interrupt \<open>32 + v\<close>
  runs that handler, after the end of interrupt was sent, to the second controller exactly for the lines 8 to 15 and to the first
  always; after unregistering, the interrupt is acknowledged in the same way and reported, and nothing runs. No call leaves the table.
\<close>

theorem irq_register_dispatch:
  assumes "length (irq_routines s) = 16" and "v < 16" and "int_no r = 32 + of_nat v"
  shows "\<exists>s1 s2. register_request_handler v h s = Inr s1 \<and> unregister_request_handler v s1 = Inr s2 \<and>
    irq_handler run report r (s1, k) = run h r (s1\<lparr>port_out := port_out s @ (if 8 \<le> v then [(0xA0, 0x20)] else []) @ [(0x20, 0x20)]\<rparr>, k) \<and>
    irq_handler run report r (s2, k) = res_bind (report ''No handler registered for IRQ %d\<newline>'' [of_nat v] k) (\<lambda>k.
      Inr (s2\<lparr>port_out := port_out s @ (if 8 \<le> v then [(0xA0, 0x20)] else []) @ [(0x20, 0x20)]\<rparr>, k))"
proof -
  have u: "unat (of_nat v :: u32) = v" using assms(2) by (simp add: unat_of_nat)
  then have i: "unat (int_no r - 32) = v" "int_no r - 32 = of_nat v" and "unat (int_no r) = 32 + v"
    using assms(2,3) by (auto simp: unat_word_ariths)
  then have "40 \<le> int_no r \<longleftrightarrow> 8 \<le> v" by (simp add: word_le_nat_alt)
  with i assms(1,2) show ?thesis
    by (simp add: register_request_handler_def unregister_request_handler_def irq_handler_def outb_def arr_set_def Let_def)
qed

definition vector_regs :: "u32 \<Rightarrow> regs" where
  "vector_regs v = \<lparr>r_gs = 16, r_fs = 16, r_ed = 16, r_ds = 16, r_edi = 0, r_esi = 0, r_ebp = 0, r_esp = 0, r_ebx = 0, r_edx = 0, r_ecx = 0, r_eax = 0,
     int_no = v, err_code = 0, r_eip = 0x100000, r_cs = 8, r_eflags = 0x202, r_usresp = 0, r_ss = 0\<rparr>"

theorem irq_register_dispatch_witness:
  "\<exists>s1 s2. register_request_handler 1 (7 :: nat) ints_init = Inr s1 \<and> unregister_request_handler 1 s1 = Inr s2 \<and>
    irq_handler (\<lambda>h r (s, k). Inr (s, k + h)) (\<lambda>_ _ k. Inr k) (vector_regs 33) (s1, 0) =
      Inr (s1\<lparr>port_out := port_out ints_init @ [(0x20, 0x20)]\<rparr>, 7 :: nat)"
  using irq_register_dispatch [of ints_init 1 "vector_regs 33" "7 :: nat" "\<lambda>h r (s, k). Inr (s, k + h)" "\<lambda>_ _ k. Inr k" "0 :: nat"]
  by (auto simp: ints_init_def vector_regs_def)

end
