(* ===== verification/Memory.thy ===== *)
theory Memory
  imports Prelude
begin

text \<open>
  Byte-addressed memory and the functions of \<^verbatim>\<open>libc/string\<close> on it. Memory is a total function from 32-bit addresses
  to bytes, so pointer arithmetic wraps around as it does on the machine; 32-bit values are stored in little-endian order.
  The loops over a size are folds over the indices in the order of the code; the loops that wait for a zero byte are partial functions.
\<close>

section \<open>Bytes and words\<close>

type_synonym mem = "u32 \<Rightarrow> u8"

definition load32 :: "mem \<Rightarrow> u32 \<Rightarrow> u32" where
  "load32 m a = ucast (m a) OR push_bit 8 (ucast (m (a + 1))) OR push_bit 16 (ucast (m (a + 2))) OR push_bit 24 (ucast (m (a + 3)))"

definition store32 :: "u32 \<Rightarrow> u32 \<Rightarrow> mem \<Rightarrow> mem" where
  "store32 a v m = m(a := ucast v, a + 1 := ucast (drop_bit 8 v), a + 2 := ucast (drop_bit 16 v), a + 3 := ucast (drop_bit 24 v))"

section \<open>Operations\<close>

text \<open>The loop body \<^verbatim>\<open>dst[i] = src[i]\<close> for the indices of the list, in this order.\<close>

fun copy_bytes :: "nat list \<Rightarrow> u32 \<Rightarrow> u32 \<Rightarrow> mem \<Rightarrow> mem" where
  "copy_bytes [] dst src m = m"
| "copy_bytes (i # is) dst src m = copy_bytes is dst src (m(dst + of_nat i := m (src + of_nat i)))"

definition memcpy :: "u32 \<Rightarrow> u32 \<Rightarrow> u32 \<Rightarrow> mem \<Rightarrow> mem" where
  "memcpy dst src sz m = copy_bytes [0..<unat sz] dst src m"

definition memmove :: "u32 \<Rightarrow> u32 \<Rightarrow> u32 \<Rightarrow> mem \<Rightarrow> mem" where
  "memmove dst src sz m =
     (if dst < src then copy_bytes [0..<unat sz] dst src m else copy_bytes (rev [0..<unat sz]) dst src m)"

definition memset :: "u32 \<Rightarrow> u32 \<Rightarrow> u32 \<Rightarrow> mem \<Rightarrow> mem" where
  "memset buf val sz m = fold (\<lambda>i m. m(buf + of_nat i := ucast val)) [0..<unat sz] m"

fun cmp_bytes :: "nat list \<Rightarrow> u32 \<Rightarrow> u32 \<Rightarrow> mem \<Rightarrow> int" where
  "cmp_bytes [] a b m = 0"
| "cmp_bytes (i # is) a b m =
     (if m (a + of_nat i) < m (b + of_nat i) then - 1
      else if m (b + of_nat i) < m (a + of_nat i) then 1
      else cmp_bytes is a b m)"

definition memcmp :: "u32 \<Rightarrow> u32 \<Rightarrow> u32 \<Rightarrow> mem \<Rightarrow> int" where
  "memcmp a b sz m = cmp_bytes [0..<unat sz] a b m"

text \<open>The string functions run until they read a zero byte; \<open>None\<close> stands for a loop that does not end.\<close>

partial_function (option) strlen_from :: "mem \<Rightarrow> u32 \<Rightarrow> u32 \<Rightarrow> u32 option" where
  "strlen_from m str len = (if m (str + len) = 0 then Some len else strlen_from m str (len + 1))"

definition strlen :: "mem \<Rightarrow> u32 \<Rightarrow> u32 option" where
  "strlen m str = strlen_from m str 0"

partial_function (option) strcmp :: "mem \<Rightarrow> u32 \<Rightarrow> u32 \<Rightarrow> int option" where
  "strcmp m aptr bptr =
     (if m aptr \<noteq> 0 \<and> m aptr = m bptr then strcmp m (aptr + 1) (bptr + 1)
      else Some (uint (m aptr) - uint (m bptr)))"

partial_function (option) strcpy_from :: "u32 \<Rightarrow> u32 \<Rightarrow> u32 \<Rightarrow> mem \<Rightarrow> mem option" where
  "strcpy_from dst src i m =
     (let m' = m(dst + i := m (src + i)) in if m' (dst + i) \<noteq> 0 then strcpy_from dst src (i + 1) m' else Some m')"

definition strcpy :: "u32 \<Rightarrow> u32 \<Rightarrow> mem \<Rightarrow> mem option" where
  "strcpy dst src m = strcpy_from dst src 0 m"

text \<open>The loop of \<open>copy_physical_page\<close>: \<open>n\<close> double words from the address in EBX to the address in ECX.\<close>

fun copy_words :: "nat \<Rightarrow> u32 \<Rightarrow> u32 \<Rightarrow> mem \<Rightarrow> mem" where
  "copy_words 0 ebx ecx m = m"
| "copy_words (Suc edx) ebx ecx m = copy_words edx (ebx + 4) (ecx + 4) (store32 ecx (load32 m ebx) m)"

section \<open>Copying\<close>

text \<open>A copy loop that reads no byte it has written before copies the source as it was at the beginning.\<close>

lemma copy_bytes_safe:
  assumes "distinct (map (\<lambda>i. dst + of_nat i :: u32) is)" "sorted_wrt (\<lambda>i j. dst + of_nat i \<noteq> src + of_nat j) is"
  shows "copy_bytes is dst src m a = (if a \<in> (\<lambda>i. dst + of_nat i) ` set is then m (src + (a - dst)) else m a)"
  using assms
proof (induction "is" arbitrary: m)
  case (Cons i "is")
  let ?m = "m(dst + of_nat i := m (src + of_nat i))"
  have h: "copy_bytes is dst src ?m a = (if a \<in> (\<lambda>i. dst + of_nat i) ` set is then ?m (src + (a - dst)) else ?m a)"
    using Cons by simp
  show ?case
  proof (cases "a \<in> (\<lambda>i. dst + of_nat i) ` set is")
    case True
    then obtain j where "j \<in> set is" "a = dst + of_nat j" by auto
    then have "src + (a - dst) \<noteq> dst + of_nat i" using Cons.prems(2) by auto
    then show ?thesis using h True by simp
  qed (use h in auto)
qed simp

lemma offsets_distinct:
  assumes "n \<le> 2 ^ 32" "distinct is" "set is \<subseteq> {..<n}"
  shows "distinct (map (\<lambda>i. dst + of_nat i :: u32) is)"
proof -
  have "inj_on (\<lambda>i. dst + of_nat i :: u32) (set is)"
  proof (rule inj_onI)
    fix i j
    assume ij: "i \<in> set is" "j \<in> set is" "dst + of_nat i = dst + (of_nat j :: u32)"
    then have "unat (of_nat i :: u32) = unat (of_nat j :: u32)" by simp
    moreover have "i < 2 ^ 32" "j < 2 ^ 32" using ij(1,2) assms by auto
    ultimately show "i = j" by (simp add: unat_of_nat)
  qed
  then show ?thesis using assms(2) by (simp add: distinct_map)
qed

lemma in_offsets: "n \<le> 2 ^ 32 \<Longrightarrow> a \<in> (\<lambda>i. dst + of_nat i :: u32) ` {..<n} \<longleftrightarrow> unat (a - dst) < n"
proof
  assume n: "n \<le> 2 ^ 32" and "a \<in> (\<lambda>i. dst + of_nat i) ` {..<n}"
  then obtain i where "i < n" "a - dst = of_nat i" by auto
  with n show "unat (a - dst) < n" by (simp add: unat_of_nat)
next
  assume "unat (a - dst) < n"
  then show "a \<in> (\<lambda>i. dst + of_nat i) ` {..<n}" by (intro image_eqI [of _ _ "unat (a - dst)"]) simp_all
qed

lemma unat_plus_offset: "unat (dst :: u32) + n \<le> 2 ^ 32 \<Longrightarrow> i < n \<Longrightarrow> unat (dst + of_nat i) = unat dst + i"
  by (simp add: unat_word_ariths unat_of_nat)

lemma unat_sub_u32: "unat (x - y :: u32) = (if unat y \<le> unat x then unat x - unat y else unat x + 2 ^ 32 - unat y)"
  by (simp add: unat_sub_if_size word_size word_le_nat_alt)

definition copied :: "u32 \<Rightarrow> u32 \<Rightarrow> nat \<Rightarrow> mem \<Rightarrow> mem" where
  "copied dst src n m = (\<lambda>a. if unat (a - dst) < n then m (src + (a - dst)) else m a)"

lemma copy_bytes_copied:
  assumes "n \<le> 2 ^ 32" "distinct is" "set is = {..<n}" "sorted_wrt (\<lambda>i j. dst + of_nat i \<noteq> (src + of_nat j :: u32)) is"
  shows "copy_bytes is dst src m = copied dst src n m"
proof
  fix a
  have d: "distinct (map (\<lambda>i. dst + of_nat i :: u32) is)" using offsets_distinct [OF assms(1,2)] assms(3) by simp
  show "copy_bytes is dst src m a = copied dst src n m a"
    unfolding copy_bytes_safe [OF d assms(4)] assms(3) in_offsets [OF assms(1)] copied_def ..
qed

lemma memcpy_up:
  fixes dst src sz :: u32
  assumes "unat dst + unat sz \<le> 2 ^ 32" "unat src + unat sz \<le> 2 ^ 32"
    and "dst \<le> src \<or> unat src + unat sz \<le> unat dst"
  shows "copy_bytes [0..<unat sz] dst src m = copied dst src (unat sz) m"
proof (rule copy_bytes_copied)
  have "dst + of_nat i \<noteq> src + of_nat j" if "i < j" "j < unat sz" for i j
  proof
    assume "dst + of_nat i = src + of_nat j"
    then have "unat dst + i = unat src + j"
      using unat_plus_offset [OF assms(1), of i] unat_plus_offset [OF assms(2), of j] that by simp
    then show False using that assms(3) by (auto simp: word_le_nat_alt)
  qed
  then show "sorted_wrt (\<lambda>i j. dst + of_nat i \<noteq> src + of_nat j) [0..<unat sz]"
    by (simp add: sorted_wrt_iff_nth_less)
qed (use assms in auto)

lemma memcpy_disjoint:
  assumes "unat dst + unat sz \<le> 2 ^ 32" "unat src + unat sz \<le> 2 ^ 32" "unat dst + unat sz \<le> unat src \<or> unat src + unat sz \<le> unat dst"
  shows "memcpy dst src sz m = copied dst src (unat sz) m"
  unfolding memcpy_def using assms by (intro memcpy_up) (auto simp: word_le_nat_alt)

lemma memset_fill:
  assumes "unat buf + unat sz \<le> 2 ^ 32"
  shows "memset buf val sz m = (\<lambda>a. if unat (a - buf) < unat sz then ucast val else m a)"
proof -
  have f: "fold (\<lambda>i m. m(buf + of_nat i := ucast val)) is m = (\<lambda>a. if a \<in> (\<lambda>i. buf + of_nat i) ` set is then ucast val else m a)" for "is" m
    by (induction "is" arbitrary: m) auto
  have n: "set [0..<unat sz] = {..<unat sz}" "unat sz \<le> 2 ^ 32" using assms by auto
  show ?thesis unfolding memset_def f n(1) in_offsets [OF n(2)] ..
qed

lemma copied_append:
  assumes "k + l \<le> 2 ^ 32" and ne: "\<And>i j. i < k \<Longrightarrow> k \<le> j \<Longrightarrow> j < k + l \<Longrightarrow> s + of_nat j \<noteq> d + of_nat i"
  shows "copied (d + of_nat k) (s + of_nat k) l (copied d s k m) = copied d s (k + l) m"
proof
  fix a
  let ?x = "unat (a - d)"
  have a: "a - (d + of_nat k) = of_nat ?x - of_nat k" by (simp add: diff_diff_eq)
  show "copied (d + of_nat k) (s + of_nat k) l (copied d s k m) a = copied d s (k + l) m a"
  proof (cases "?x < k")
    case True
    have x: "?x < 2 ^ 32" "k \<le> 2 ^ 32" using assms(1) True by simp_all
    have "of_nat ?x - of_nat k = (of_nat (?x + 2 ^ 32 - k) :: u32)" using x True by (simp add: of_nat_diff)
    then have "unat (a - (d + of_nat k)) = ?x + 2 ^ 32 - k" using True x unfolding a by (simp only: unat_of_nat) simp
    then have "\<not> unat (a - (d + of_nat k)) < l" using assms(1) by linarith
    then show ?thesis using True by (simp add: copied_def)
  next
    case False
    have "of_nat ?x - of_nat k = (of_nat (?x - k) :: u32)" using False by (simp add: of_nat_diff)
    then have u: "unat (a - (d + of_nat k)) = ?x - k" unfolding a by (simp add: unat_of_nat order_le_less_trans [OF diff_le_self])
    have "\<not> unat (s + (a - d) - d) < k" if "?x < k + l"
    proof
      assume "unat (s + (a - d) - d) < k"
      then show False using ne [of "unat (s + (a - d) - d)" ?x] False that by simp
    qed
    moreover have "s + of_nat k + (a - (d + of_nat k)) = s + (a - d)" by simp
    ultimately show ?thesis using False u by (auto simp: copied_def)
  qed
qed

lemma copied_1: "copied d s (Suc 0) m = m(d := m s)"
  by (auto simp: copied_def fun_eq_iff unat_eq_0)

section \<open>Words in memory\<close>

lemma load32_store32: "load32 (store32 a v m) a = v"
proof (rule bit_word_eqI)
  fix n
  assume "n < LENGTH(32)"
  moreover have "a + 1 \<noteq> a" "a + 2 \<noteq> a" "a + 3 \<noteq> a" "a + 1 \<noteq> a + 2" "a + 1 \<noteq> a + 3" "a + 2 \<noteq> a + 3" by simp_all
  ultimately show "bit (load32 (store32 a v m) a) n = bit v n"
    by (cases "n < 8"; cases "n < 16"; cases "n < 24") (auto simp: load32_def store32_def bit_simps)
qed

lemma store32_other: "unat (b - a) \<ge> 4 \<Longrightarrow> store32 a v m b = m b"
proof -
  assume "unat (b - a) \<ge> 4"
  then have "b - a \<noteq> 0" "b - a \<noteq> 1" "b - a \<noteq> 2" "b - a \<noteq> 3" by (auto simp: word_unat_eq_iff)
  then have "b \<noteq> a" "b \<noteq> a + 1" "b \<noteq> a + 2" "b \<noteq> a + 3" by auto
  then show ?thesis by (simp add: store32_def)
qed

lemma load32_shift: "(\<And>i. i < 4 \<Longrightarrow> m (a + of_nat i) = m' (b + of_nat i)) \<Longrightarrow> load32 m a = load32 m' b"
proof -
  assume e: "\<And>i. i < 4 \<Longrightarrow> m (a + of_nat i) = m' (b + of_nat i)"
  show ?thesis using e [of 0] e [of 1] e [of 2] e [of 3] by (simp add: load32_def)
qed

lemma load32_store32_other:
  assumes "4 \<le> unat (a - b)" "unat (a - b) \<le> 2 ^ 32 - 4"
  shows "load32 (store32 b v m) a = load32 m a"
proof (rule load32_shift)
  fix i :: nat
  assume i: "i < 4"
  have "unat (a - b + of_nat i) = unat (a - b) + i" using i assms(2) by (intro unat_plus_offset [of _ 4]) auto
  then show "store32 b v m (a + of_nat i) = m (a + of_nat i)"
    using assms(1) by (intro store32_other) (simp add: algebra_simps)
qed

section \<open>Strings\<close>

text \<open>The string \<open>xs\<close> is stored at \<open>p\<close>: its bytes, none of them zero, and a zero byte.\<close>

fun c_str :: "mem \<Rightarrow> u32 \<Rightarrow> u8 list \<Rightarrow> bool" where
  "c_str m p [] \<longleftrightarrow> m p = 0"
| "c_str m p (x # xs) \<longleftrightarrow> m p = x \<and> x \<noteq> 0 \<and> c_str m (p + 1) xs"

lemma strlen_from_c_str: "c_str m (str + len) xs \<Longrightarrow> strlen_from m str len = Some (len + of_nat (length xs))"
  by (induction xs arbitrary: len) (subst strlen_from.simps, simp add: add.assoc)+

lemma uint_diff_sign: "uint (x :: u8) - uint y = 0 \<longleftrightarrow> x = y" "uint x - uint y < 0 \<longleftrightarrow> x < y"
  by (simp_all add: word_less_def word_uint_eq_iff)

lemma strcmp_c_str:
  "c_str m a xs \<Longrightarrow> c_str m b ys \<Longrightarrow>
   \<exists>r. strcmp m a b = Some r \<and> (r = 0 \<longleftrightarrow> xs = ys) \<and> (r < 0 \<longleftrightarrow> (xs, ys) \<in> lexord {(x, y). x < y})"
proof (induction xs arbitrary: a b ys)
  case Nil
  then have "strcmp m a b = Some (uint (m a) - uint (m b))" by (subst strcmp.simps) simp
  then show ?case using Nil uint_diff_sign [of "m a" "m b"] by (cases ys) (auto simp: word_neq_0_conv [symmetric])
next
  case (Cons x xs)
  show ?case
  proof (cases "m a = m b")
    case True
    then obtain zs where ys: "ys = x # zs" "c_str m (b + 1) zs" using Cons.prems by (cases ys) auto
    have "strcmp m a b = strcmp m (a + 1) (b + 1)" using Cons.prems True by (subst strcmp.simps) auto
    then show ?thesis using Cons.IH [OF _ ys(2), of "a + 1"] Cons.prems(1) ys(1) by simp
  next
    case False
    then have "strcmp m a b = Some (uint (m a) - uint (m b))" by (subst strcmp.simps) simp
    then show ?thesis using Cons.prems False uint_diff_sign [of "m a" "m b"] by (cases ys) auto
  qed
qed

lemma c_str_shift: "(\<And>i. i \<le> length xs \<Longrightarrow> m' (q + of_nat i) = m (p + of_nat i)) \<Longrightarrow> c_str m p xs \<Longrightarrow> c_str m' q xs"
proof (induction xs arbitrary: p q)
  case Nil
  then show ?case using Nil(1) [of 0] by simp
next
  case (Cons x xs)
  have "m' q = m p" using Cons.prems(1) [of 0] by simp
  moreover have "m' (q + 1 + of_nat i) = m (p + 1 + of_nat i)" if "i \<le> length xs" for i
    using Cons.prems(1) [of "Suc i"] that by (simp add: add_ac)
  ultimately show ?case using Cons by simp
qed

lemma strcpy_from_c_str:
  assumes "c_str m (src + i) xs" "length xs < 2 ^ 32 - 2"
    and "\<And>j k. j \<le> length xs \<Longrightarrow> k \<le> length xs \<Longrightarrow> dst + i + of_nat j \<noteq> src + i + of_nat k"
  shows "strcpy_from dst src i m = Some (copied (dst + i) (src + i) (Suc (length xs)) m)"
  using assms
proof (induction xs arbitrary: i m)
  case Nil
  then have "strcpy_from dst src i m = Some (m(dst + i := m (src + i)))" by (subst strcpy_from.simps) simp
  then show ?case by (simp add: copied_1 fun_upd_def)
next
  case (Cons x xs)
  let ?m = "m(dst + i := m (src + i))"
  have ne: "dst + i + of_nat j \<noteq> src + i + of_nat k" if "j \<le> Suc (length xs)" "k \<le> Suc (length xs)" for j k
    using Cons.prems(3) [of j k] that by simp
  have "?m (src + (i + 1) + of_nat k) = m (src + (i + 1) + of_nat k)" if "k \<le> length xs" for k
    using ne [of 0 "Suc k"] that by (auto simp: add_ac)
  moreover have "c_str m (src + (i + 1)) xs" using Cons.prems(1) by (simp add: add_ac)
  ultimately have c: "c_str ?m (src + (i + 1)) xs" by (rule c_str_shift)
  have "strcpy_from dst src (i + 1) ?m = Some (copied (dst + (i + 1)) (src + (i + 1)) (Suc (length xs)) ?m)"
  proof (rule Cons.IH [OF c])
    show "length xs < 2 ^ 32 - 2" using Cons.prems(2) by simp
    show "dst + (i + 1) + of_nat j \<noteq> src + (i + 1) + of_nat k" if "j \<le> length xs" "k \<le> length xs" for j k
      using ne [of "Suc j" "Suc k"] that by (simp add: add_ac)
  qed
  moreover have "strcpy_from dst src i m = strcpy_from dst src (i + 1) ?m" using Cons.prems(1) by (subst strcpy_from.simps) simp
  moreover have "copied (dst + i + of_nat 1) (src + i + of_nat 1) (Suc (length xs)) (copied (dst + i) (src + i) 1 m) = copied (dst + i) (src + i) (1 + Suc (length xs)) m"
  proof (rule copied_append)
    show "src + i + of_nat k \<noteq> dst + i + of_nat j" if "j < 1" "1 \<le> k" "k < 1 + Suc (length xs)" for j k using ne [of j k] that by auto
  qed (use Cons.prems(2) in simp)
  ultimately show ?case by (simp add: add.assoc copied_1)
qed

section \<open>Copying words\<close>

lemma load32_bytes:
  "ucast (load32 m a) = m a" "ucast (drop_bit 8 (load32 m a)) = m (a + 1)"
  "ucast (drop_bit 16 (load32 m a)) = m (a + 2)" "ucast (drop_bit 24 (load32 m a)) = m (a + 3)"
  by (rule bit_word_eqI; auto simp: load32_def bit_simps dest: bit_imp_le_length)+

lemma store32_load32: "store32 d (load32 m s) m = copied d s 4 m"
proof
  fix a
  have "unat (a - d) < 4 \<longleftrightarrow> a - d = 0 \<or> a - d = 1 \<or> a - d = 2 \<or> a - d = 3" by (auto simp: word_unat_eq_iff)
  moreover have "a - d = 0 \<longleftrightarrow> a = d" "a - d = 1 \<longleftrightarrow> a = d + 1" "a - d = 2 \<longleftrightarrow> a = d + 2" "a - d = 3 \<longleftrightarrow> a = d + 3" by (auto simp: algebra_simps)
  ultimately show "store32 d (load32 m s) m a = copied d s 4 m a"
    by (auto simp: store32_def load32_bytes copied_def)
qed

lemma copy_words_copied:
  assumes "4 * n \<le> 2 ^ 32" "\<And>i j. i < 4 * n \<Longrightarrow> j < 4 * n \<Longrightarrow> s + of_nat j \<noteq> d + of_nat i"
  shows "copy_words n s d m = copied d s (4 * n) m"
  using assms
proof (induction n arbitrary: s d m)
  case 0
  then show ?case by (simp add: copied_def)
next
  case (Suc n)
  have "copy_words n (s + 4) (d + 4) (copied d s 4 m) = copied (d + 4) (s + 4) (4 * n) (copied d s 4 m)"
  proof (rule Suc.IH)
    show "s + 4 + of_nat j \<noteq> d + 4 + of_nat i" if "i < 4 * n" "j < 4 * n" for i j using Suc.prems(2) [of i j] that by simp
  qed (use Suc.prems in simp)
  moreover have "copied (d + of_nat 4) (s + of_nat 4) (4 * n) (copied d s 4 m) = copied d s (4 + 4 * n) m"
    using Suc.prems by (intro copied_append) simp_all
  ultimately show ?case by (simp add: store32_load32)
qed

lemma copy_words_same: "copy_words n s s m = m"
proof (induction n arbitrary: s m)
  case (Suc n)
  have "copied s s 4 m = m" by (simp add: copied_def fun_eq_iff)
  with Suc show ?case by (simp add: store32_load32)
qed simp

section \<open>Properties\<close>

text \<open>
  C24: \<open>memmove\<close> is the simultaneous copy. For areas that do not wrap around the end of the address space, however they overlap,
  every byte of the destination gets the byte that the source had before the call, and no other byte changes; \<open>memcpy\<close> does the same
  where the areas are disjoint or the destination lies below the source.
\<close>

theorem memmove_copies:
  assumes "unat dst + unat sz \<le> 2 ^ 32" and "unat src + unat sz \<le> 2 ^ 32"
  shows "memmove dst src sz m = copied dst src (unat sz) m \<and>
    (dst \<le> src \<or> unat src + unat sz \<le> unat dst \<longrightarrow> memcpy dst src sz m = memmove dst src sz m)"
proof -
  have up: "copy_bytes [0..<unat sz] dst src m = copied dst src (unat sz) m" if "dst \<le> src \<or> unat src + unat sz \<le> unat dst"
    using assms that by (rule memcpy_up)
  have down: "copy_bytes (rev [0..<unat sz]) dst src m = copied dst src (unat sz) m" if "src \<le> dst"
  proof (rule copy_bytes_copied)
    have "dst + of_nat i \<noteq> src + of_nat j" if "j < i" "i < unat sz" for i j
    proof
      assume "dst + of_nat i = src + of_nat j"
      then have "unat dst + i = unat src + j"
        using unat_plus_offset [OF assms(1), of i] unat_plus_offset [OF assms(2), of j] that by simp
      then show False using that \<open>src \<le> dst\<close> by (simp add: word_le_nat_alt)
    qed
    then show "sorted_wrt (\<lambda>i j. dst + of_nat i \<noteq> src + of_nat j) (rev [0..<unat sz])"
      unfolding sorted_wrt_rev by (simp add: sorted_wrt_iff_nth_less)
  qed (use assms in auto)
  have "memmove dst src sz m = copied dst src (unat sz) m"
    unfolding memmove_def using up [OF disjI1, OF order_less_imp_le] down by (simp add: not_less)
  then show ?thesis using up unfolding memcpy_def by simp
qed

theorem memmove_copies_witness:
  "memmove 0x1001 0x1000 3 ucast 0x1003 = 2 \<and> memcpy 0x1000 0x1001 3 ucast = memmove 0x1000 0x1001 3 ucast"
  using memmove_copies [of "0x1001" 3 "0x1000" ucast] memmove_copies [of "0x1000" 3 "0x1001" ucast] by (simp add: copied_def)

text \<open>
  C25: strings survive copying. If a string is stored at \<open>src\<close> and the destination does not overlap it, \<open>strcpy\<close> returns and
  changes only the bytes of the destination; \<open>strlen\<close> of the copy returns the length, and \<open>strcmp\<close> of the two returns 0.
\<close>

theorem strcpy_roundtrip:
  assumes "c_str m src xs" and "unat dst + length xs < 2 ^ 32" and "unat src + length xs < 2 ^ 32"
    and "unat dst + length xs < unat src \<or> unat src + length xs < unat dst"
  shows "\<exists>m'. strcpy dst src m = Some m' \<and> c_str m' dst xs \<and> (\<forall>a. length xs < unat (a - dst) \<longrightarrow> m' a = m a) \<and>
    strlen m' dst = Some (of_nat (length xs)) \<and> strcmp m' src dst = Some 0"
proof -
  have ne: "dst + of_nat j \<noteq> src + of_nat k" if "j \<le> length xs" "k \<le> length xs" for j k
  proof
    assume "dst + of_nat j = src + of_nat k"
    then have "unat dst + j = unat src + k"
      using unat_plus_offset [of dst "Suc (length xs)" j] unat_plus_offset [of src "Suc (length xs)" k] assms(2,3) that by simp
    then show False using assms(4) that by linarith
  qed
  let ?m = "copied dst src (Suc (length xs)) m"
  have s: "strcpy dst src m = Some ?m"
    using strcpy_from_c_str [of m src 0 xs dst] assms ne unfolding strcpy_def by (simp, linarith)
  have i: "unat (of_nat i :: u32) = i" if "i \<le> length xs" for i using that assms(2) by (simp add: unat_of_nat)
  have d: "c_str ?m dst xs" by (rule c_str_shift [OF _ assms(1)]) (use i in \<open>simp add: copied_def\<close>)
  have "\<not> unat (src + of_nat k - dst) < Suc (length xs)" if "k \<le> length xs" for k
  proof
    assume "unat (src + of_nat k - dst) < Suc (length xs)"
    then show False using ne [of "unat (src + of_nat k - dst)" k] that by simp
  qed
  then have "c_str ?m src xs" by (intro c_str_shift [OF _ assms(1)]) (simp add: copied_def)
  then have "strcmp ?m src dst = Some 0" using strcmp_c_str [OF _ d] by auto
  moreover have "strlen ?m dst = Some (of_nat (length xs))" using strlen_from_c_str [of ?m dst 0 xs] d by (simp add: strlen_def)
  ultimately show ?thesis using s d by (intro exI [of _ ?m]) (simp add: copied_def)
qed

theorem strcpy_roundtrip_witness:
  "\<exists>m'. strcpy 0x2000 0x1000 ((\<lambda>_. 0)(0x1000 := 104, 0x1001 := 105)) = Some m' \<and> strlen m' 0x2000 = Some 2 \<and> strcmp m' 0x1000 0x2000 = Some 0"
proof -
  have "c_str ((\<lambda>_. 0)(0x1000 := 104, 0x1001 := 105)) 0x1000 [104, 105]" by simp
  from strcpy_roundtrip [OF this, of "0x2000"] show ?thesis by auto
qed

end
