(* ===== verification/Printf.thy ===== *)
theory Printf
  imports Prelude
begin

text \<open>
  Formatted output (\<^verbatim>\<open>libc/stdio/printf.c\<close>, \<^verbatim>\<open>puts.c\<close>, \<^verbatim>\<open>libc/stdlib/abort.c\<close>). The definitions take the
  \<open>putchar\<close> of the target as an argument; its contract is the locale \<open>console\<close>, in which the output of \<open>printf\<close> is
  proved to be that of a specification of the format language. Format and strings are the bytes before the terminating zero; the variable
  arguments are a list of integers and strings, and reading an argument of the wrong kind is an error.
\<close>

section \<open>Operations\<close>

type_synonym 's putc = "u8 \<Rightarrow> 's \<Rightarrow> 's res"

datatype parg = IntArg u32 | StrArg "u8 list"

abbreviation INT_MAX :: int where "INT_MAX \<equiv> 0x7FFFFFFF"

definition digits :: "u8 list" where
  "digits = [48, 49, 50, 51, 52, 53, 54, 55, 56, 57, 65, 66, 67, 68, 69, 70]"

text \<open>\<open>putchar\<close> returns the byte it was given, which is never \<open>EOF\<close>, so \<open>print\<close> always returns true.\<close>

fun print :: "'s putc \<Rightarrow> u8 list \<Rightarrow> 's \<Rightarrow> 's res" where
  "print put [] s = Inr s"
| "print put (c # cs) s = res_bind (put c s) (print put cs)"

text \<open>The do-while loop that fills \<^verbatim>\<open>buf[16]\<close>; \<open>n\<close> is the number of bytes left in the buffer.\<close>

fun digit_loop :: "nat \<Rightarrow> u32 \<Rightarrow> u32 \<Rightarrow> u8 list \<Rightarrow> u8 list res" where
  "digit_loop 0 num tgt_base buf = Inl OutOfBounds"
| "digit_loop (Suc n) num tgt_base buf =
     res_bind (arr_get digits (unat (num mod tgt_base))) (\<lambda>d.
     let buf = buf @ [d]; num = num div tgt_base in
     if num \<noteq> 0 then digit_loop n num tgt_base buf else Inr buf)"

definition printint :: "'s putc \<Rightarrow> u32 \<Rightarrow> u32 \<Rightarrow> bool \<Rightarrow> 's \<Rightarrow> (int \<times> 's) res" where
  "printint put number tgt_base sign s =
     (let isNegative = (sign \<and> sint number < 0);
          num = (if isNegative then - number else number)
      in res_bind (digit_loop 16 num tgt_base []) (\<lambda>buf.
         res_bind (if isNegative then (if length buf < 16 then Inr (buf @ [45]) else Inl OutOfBounds) else Inr buf) (\<lambda>buf.
         res_bind (print put (rev buf) s) (\<lambda>s.
         Inr (int (length buf), s)))))"

definition int_arg :: "parg list \<Rightarrow> (u32 \<times> parg list) res" where
  "int_arg args = (case args of IntArg i # as \<Rightarrow> Inr (i, as) | _ \<Rightarrow> Inl BadPointer)"

definition str_arg :: "parg list \<Rightarrow> (u8 list \<times> parg list) res" where
  "str_arg args = (case args of StrArg str # as \<Rightarrow> Inr (str, as) | _ \<Rightarrow> Inl BadPointer)"

text \<open>The conversion for the character behind \<open>%\<close>: \<open>None\<close> for the overflow result \<open>-1\<close>, else the bytes written and the arguments left.\<close>

definition print_number :: "'s putc \<Rightarrow> u32 \<Rightarrow> bool \<Rightarrow> u8 list \<Rightarrow> int \<Rightarrow> parg list \<Rightarrow> 's \<Rightarrow> ((int \<times> parg list) option \<times> 's) res" where
  "print_number put tgt_base sign prefix maxrem args s =
     res_bind (int_arg args) (\<lambda>(i, as).
     res_bind (print put prefix s) (\<lambda>s.
     res_bind (printint put i tgt_base sign s) (\<lambda>(n, s).
     let len = int (length prefix) + n in
     Inr (if maxrem < len then None else Some (len, as), s))))"

definition convert :: "'s putc \<Rightarrow> u8 \<Rightarrow> int \<Rightarrow> parg list \<Rightarrow> 's \<Rightarrow> ((int \<times> parg list) option \<times> 's) res" where
  "convert put c maxrem args s =
     (if c = 100 then print_number put 10 True [] maxrem args s
      else if c = 117 then print_number put 10 False [] maxrem args s
      else if c = 120 then print_number put 16 False [48, 120] maxrem args s
      else if c = 99 then
        res_bind (int_arg args) (\<lambda>(i, as).
        if maxrem = 0 then Inr (None, s)
        else res_bind (print put [ucast i] s) (\<lambda>s. Inr (Some (1, as), s)))
      else
        res_bind (str_arg args) (\<lambda>(str, as).
        let len = int (length str) in
        if maxrem < len then Inr (None, s)
        else res_bind (print put str s) (\<lambda>s. Inr (Some (len, as), s))))"

definition is_directive :: "u8 \<Rightarrow> bool" where
  "is_directive c \<longleftrightarrow> c \<in> {100, 117, 120, 99, 115}"

function printf_from :: "'s putc \<Rightarrow> u8 list \<Rightarrow> parg list \<Rightarrow> int \<Rightarrow> 's \<Rightarrow> (int \<times> 's) res" where
  "printf_from put [] args written s = Inr (written, s)"
| "printf_from put (f # fs) args written s =
     (let maxrem = INT_MAX - written in
      if f \<noteq> 37 \<or> (fs \<noteq> [] \<and> hd fs = 37) then
        let fmt = (if f = 37 then fs else f # fs);
            amount = Suc (length (takeWhile (\<lambda>c. c \<noteq> 37) (tl fmt)))
        in if maxrem < int amount then Inr (- 1, s)
           else res_bind (print put (take amount fmt) s) (printf_from put (drop amount fmt) args (written + int amount))
      else if fs \<noteq> [] \<and> is_directive (hd fs) then
        res_bind (convert put (hd fs) maxrem args s) (\<lambda>(r, s).
        case r of
          None \<Rightarrow> Inr (- 1, s)
        | Some (len, as) \<Rightarrow> printf_from put (tl fs) as (written + len) s)
      else
        let len = int (length (f # fs)) in
        if maxrem < len then Inr (- 1, s)
        else res_bind (print put (f # fs) s) (\<lambda>s. Inr (written + len, s)))"
  by pat_completeness auto
termination
  by (relation "measure (\<lambda>(put, fmt, args, written, s). length fmt)") (auto simp: Suc_le_eq)

definition printf :: "'s putc \<Rightarrow> u8 list \<Rightarrow> parg list \<Rightarrow> 's \<Rightarrow> (int \<times> 's) res" where
  "printf put fmt args s = printf_from put fmt args 0 s"

definition puts :: "'s putc \<Rightarrow> u8 list \<Rightarrow> 's \<Rightarrow> (int \<times> 's) res" where
  "puts put str s = printf put [37, 115, 10] [StrArg str] s"

abbreviation text_bytes :: "string \<Rightarrow> u8 list" where
  "text_bytes \<equiv> map (\<lambda>c. of_nat (of_char c))"

text \<open>The console when \<open>panic\<close>, \<open>panic_assert\<close> and \<open>abort\<close> enter their endless loop.\<close>

definition panic :: "'s putc \<Rightarrow> u8 list \<Rightarrow> u8 list \<Rightarrow> u32 \<Rightarrow> 's \<Rightarrow> (int \<times> 's) res" where
  "panic put message file line s = printf put (text_bytes ''PANIC(%s) at %s : %d\<newline>'') [StrArg message, StrArg file, IntArg line] s"

definition panic_assert :: "'s putc \<Rightarrow> u8 list \<Rightarrow> u32 \<Rightarrow> u8 list \<Rightarrow> 's \<Rightarrow> (int \<times> 's) res" where
  "panic_assert put file line desc s = printf put (text_bytes ''ASSERTION_FAILED(%s) at %s : %d\<newline>'') [StrArg desc, StrArg file, IntArg line] s"

definition abort :: "'s putc \<Rightarrow> 's \<Rightarrow> (int \<times> 's) res" where
  "abort put s = printf put (text_bytes ''kernel: panic: abort()\<newline>'') [] s"

section \<open>Numerals\<close>

text \<open>The usual numeral of a number, most significant digit first, and its value.\<close>

function numeral_of :: "nat \<Rightarrow> nat \<Rightarrow> u8 list" where
  "numeral_of b n = (if b < 2 \<or> n < b then [digits ! n] else numeral_of b (n div b) @ [digits ! (n mod b)])"
  by pat_completeness auto
termination
  by (relation "measure snd") (auto simp: div_less_dividend)

definition digit_value :: "u8 \<Rightarrow> nat" where
  "digit_value d = (if d < 58 then unat d - 48 else unat d - 55)"

definition value_of :: "nat \<Rightarrow> u8 list \<Rightarrow> nat" where
  "value_of b ds = fold (\<lambda>d v. b * v + digit_value d) ds 0"

declare numeral_of.simps [simp del]

lemma digit_value_nth: "i < 16 \<Longrightarrow> digit_value (digits ! i) = i"
proof -
  have "\<forall>i \<in> set [0..<16]. digit_value (digits ! i) = i" by code_simp
  then show "i < 16 \<Longrightarrow> ?thesis" by simp
qed

lemma value_numeral: "2 \<le> b \<Longrightarrow> b \<le> 16 \<Longrightarrow> value_of b (numeral_of b n) = n"
proof (induction b n rule: numeral_of.induct)
  case (1 b n)
  show ?case
  proof (cases "n < b")
    case True
    then show ?thesis using 1 by (subst numeral_of.simps) (simp add: value_of_def digit_value_nth)
  next
    case False
    then have "value_of b (numeral_of b (n div b)) = n div b" "numeral_of b n = numeral_of b (n div b) @ [digits ! (n mod b)]"
      using 1 by (simp_all add: numeral_of.simps [of b n])
    moreover have "n mod b < 16" using 1 by (meson less_le_trans mod_less_divisor zero_less_numeral order_less_le_trans)
    ultimately show ?thesis by (simp add: value_of_def digit_value_nth)
  qed
qed

lemma length_numeral: "2 \<le> b \<Longrightarrow> n < b ^ Suc k \<Longrightarrow> length (numeral_of b n) \<le> Suc k"
proof (induction k arbitrary: n)
  case 0
  then show ?case by (subst numeral_of.simps) simp
next
  case (Suc k)
  show ?case
  proof (cases "n < b")
    case True
    then show ?thesis by (subst numeral_of.simps) simp
  next
    case False
    have "n div b < b ^ Suc k" using Suc.prems by (simp add: less_mult_imp_div_less mult.commute)
    then show ?thesis using Suc.IH [of "n div b"] Suc.prems(1) False by (subst numeral_of.simps) simp
  qed
qed

lemma digit_loop_numeral:
  assumes "2 \<le> unat b" "unat b \<le> 16" "length (numeral_of (unat b) (unat num)) \<le> k"
  shows "digit_loop k num b buf = Inr (buf @ rev (numeral_of (unat b) (unat num)))"
  using assms(3)
proof (induction k arbitrary: num buf)
  case 0
  then show ?case using numeral_of.simps [of "unat b" "unat num"] by (auto split: if_splits)
next
  case (Suc k)
  have m: "unat (num mod b) = unat num mod unat b" "unat (num div b) = unat num div unat b" by (simp_all add: unat_mod unat_div)
  have "unat num mod unat b < 16" using assms(1,2) by (meson less_le_trans mod_less_divisor zero_less_numeral order_less_le_trans)
  then have g: "arr_get digits (unat (num mod b)) = Inr (digits ! (unat num mod unat b))" by (simp add: m arr_get_def digits_def)
  show ?case
  proof (cases "unat num < unat b")
    case True
    then have "num div b = 0" by (simp add: word_unat_eq_iff m)
    then show ?thesis using True g by (simp add: numeral_of.simps [of "unat b" "unat num"])
  next
    case False
    have e: "numeral_of (unat b) (unat num) = numeral_of (unat b) (unat (num div b)) @ [digits ! (unat num mod unat b)]"
      using False assms(1) by (simp add: numeral_of.simps [of "unat b" "unat num"] m)
    have "0 < unat num div unat b" using False assms(1) by (simp add: div_greater_zero_iff)
    then have "num div b \<noteq> 0" by (auto simp: word_unat_eq_iff m)
    then show ?thesis using Suc g e by simp
  qed
qed

text \<open>What \<open>printint\<close> prints.\<close>

definition int_text :: "nat \<Rightarrow> bool \<Rightarrow> u32 \<Rightarrow> u8 list" where
  "int_text b sign v = (if sign \<and> sint v < 0 then 45 # numeral_of b (nat (- sint v)) else numeral_of b (unat v))"

lemma unat_neg_sint: "sint (v :: u32) < 0 \<Longrightarrow> unat (- v) = nat (- sint v)"
proof -
  assume n: "sint v < 0"
  have "sint v \<ge> - (2 ^ 31)" using sint_ge [of v] by simp
  then have "(- sint v) mod 2 ^ 32 = - sint v" using n by simp
  then have "uint (word_of_int (- sint v) :: u32) = - sint v" by (simp only: uint_word_of_int) simp
  moreover have "- v = word_of_int (- sint v)" by simp
  ultimately show ?thesis by (simp only: unat_eq_nat_uint)
qed

lemma unat_nonneg_sint: "0 \<le> sint (v :: u32) \<Longrightarrow> int (unat v) = sint v"
proof -
  assume n: "0 \<le> sint v"
  have "sint v < 2 ^ 31" using sint_lt [of v] by simp
  then have "sint v mod 2 ^ 32 = sint v" using n by simp
  then have "uint (word_of_int (sint v) :: u32) = sint v" by (simp only: uint_word_of_int) simp
  then show ?thesis by simp
qed

lemma numeral_room: "length (numeral_of 10 (unat (v :: u32))) \<le> 10" "length (numeral_of 16 (unat v)) \<le> 8"
proof -
  have "unat v < 10 ^ Suc 9" "unat v < 16 ^ Suc 7" using order_less_trans [OF unat_u32_less [of v]] by simp_all
  then show "length (numeral_of 10 (unat v)) \<le> 10" "length (numeral_of 16 (unat v)) \<le> 8"
    using length_numeral [of 10 "unat v" 9] length_numeral [of 16 "unat v" 7] by simp_all
qed

lemma length_int_text: "length (int_text 16 False v) \<le> 8" "length (int_text 10 s v) \<le> 11"
  using numeral_room [of v] numeral_room [of "- v"] unat_neg_sint [of v] by (auto simp: int_text_def)

lemma printint_text:
  assumes "b = 10 \<or> b = 16"
  shows "printint put v b sign s = res_bind (print put (int_text (unat b) sign v) s) (\<lambda>s. Inr (int (length (int_text (unat b) sign v)), s))"
proof -
  define num where "num = (if sign \<and> sint v < 0 then - v else v)"
  have l: "length (numeral_of (unat b) (unat num)) \<le> 10" using numeral_room [of num] assms by auto
  then have "digit_loop 16 num b [] = Inr (rev (numeral_of (unat b) (unat num)))"
    using digit_loop_numeral [of b num 16 "[]"] assms by auto
  then show ?thesis using l unat_neg_sint [of v] unfolding printint_def num_def int_text_def Let_def by auto
qed

section \<open>The format language\<close>

fun fmt_text :: "u8 \<Rightarrow> parg \<Rightarrow> u8 list option" where
  "fmt_text c (IntArg v) =
     (if c = 100 then Some (int_text 10 True v) else if c = 117 then Some (int_text 10 False v)
      else if c = 120 then Some ([48, 120] @ int_text 16 False v) else if c = 99 then Some [ucast v] else None)"
| "fmt_text c (StrArg str) = (if c = 115 then Some str else None)"

text \<open>The text of a format, character by character; behind an unknown directive the rest of the format is copied as it is.\<close>

fun fmt_spec :: "u8 list \<Rightarrow> parg list \<Rightarrow> u8 list option" where
  "fmt_spec [] args = Some []"
| "fmt_spec [f] args = Some [f]"
| "fmt_spec (f # c # fs) args =
     (if f \<noteq> 37 then map_option (Cons f) (fmt_spec (c # fs) args)
      else if c = 37 then map_option (Cons 37) (fmt_spec fs args)
      else if is_directive c then
        (case args of
           [] \<Rightarrow> None
         | a # as \<Rightarrow> (case (fmt_text c a, fmt_spec fs as) of (Some x, Some y) \<Rightarrow> Some (x @ y) | _ \<Rightarrow> None))
      else Some (f # c # fs))"

lemma fmt_spec_plain: "f \<noteq> 37 \<Longrightarrow> fmt_spec (f # fs) args = map_option (Cons f) (fmt_spec fs args)"
  by (cases fs) auto

lemma fmt_spec_chunk: "37 \<notin> set xs \<Longrightarrow> fmt_spec (xs @ fs) args = map_option ((@) xs) (fmt_spec fs args)"
  by (cases "fmt_spec fs args"; induction xs) (auto simp: fmt_spec_plain)

text \<open>A run of plain characters, or of an escaped percent sign and plain characters, is copied.\<close>

lemma fmt_spec_run:
  assumes "f \<noteq> 37 \<or> (fs \<noteq> [] \<and> hd fs = 37)" "g = (if f = 37 then fs else f # fs)" "ys = takeWhile (\<lambda>c. c \<noteq> 37) (tl g)" "zs = dropWhile (\<lambda>c. c \<noteq> 37) (tl g)"
    and x: "fmt_spec (f # fs) args = Some x"
  obtains x' where "g = hd g # ys @ zs" "length zs < length (f # fs)" "fmt_spec zs args = Some x'" "x = hd g # ys @ x'"
proof -
  have g: "g = hd g # ys @ zs" using assms(1) unfolding assms(2-4) by auto
  have lz: "length zs < length (f # fs)"
    using length_dropWhile_le [of "\<lambda>c. c \<noteq> 37" "tl g"] assms(1) unfolding assms(4) assms(2) by (auto split: if_splits)
  have "37 \<notin> set ys" unfolding assms(3) by (auto dest: set_takeWhileD)
  then have sp: "fmt_spec (ys @ zs) args = map_option ((@) ys) (fmt_spec zs args)" by (rule fmt_spec_chunk)
  have "fmt_spec (f # fs) args = map_option (Cons (hd g)) (fmt_spec (ys @ zs) args)"
  proof (cases "f = 37")
    case True
    then have "fs = 37 # ys @ zs" using g assms(1) unfolding assms(2) by (cases fs) auto
    then show ?thesis using True unfolding assms(2) by simp
  next
    case False
    then show ?thesis using g fmt_spec_plain [of f fs args] unfolding assms(2) by simp
  qed
  then obtain x' where "fmt_spec zs args = Some x'" "x = hd g # ys @ x'" using x sp by (cases "fmt_spec zs args") auto
  with g lz that show thesis by blast
qed

section \<open>The contract of \<open>putchar\<close>\<close>

text \<open>
  A console accepts every byte in every state of its invariant and appends it to its output. All output functions are proved
  against this contract.
\<close>

locale console =
  fixes put :: "'s putc" and inv :: "'s \<Rightarrow> bool" and out :: "'s \<Rightarrow> u8 list"
  assumes put_ok: "inv s \<Longrightarrow> \<exists>s'. put c s = Inr s' \<and> inv s' \<and> out s' = out s @ [c]"
begin

lemma print_ok: "inv s \<Longrightarrow> \<exists>s'. print put cs s = Inr s' \<and> inv s' \<and> out s' = out s @ cs"
proof (induction cs arbitrary: s)
  case (Cons c cs)
  then obtain s1 where "put c s = Inr s1" "inv s1" "out s1 = out s @ [c]" using put_ok by blast
  with Cons.IH [of s1] show ?case by auto
qed simp

lemma printint_ok:
  "inv s \<Longrightarrow> b = 10 \<or> b = 16 \<Longrightarrow>
   \<exists>s'. printint put v b sign s = Inr (int (length (int_text (unat b) sign v)), s') \<and> inv s' \<and> out s' = out s @ int_text (unat b) sign v"
  using print_ok [of s "int_text (unat b) sign v"] printint_text [of b put v sign s] by auto

lemma convert_ok:
  assumes "inv s" "is_directive c" "fmt_text c a = Some x" "int (length x) \<le> maxrem"
  shows "\<exists>s'. convert put c maxrem (a # as) s = Inr (Some (int (length x), as), s') \<and> inv s' \<and> out s' = out s @ x"
proof (cases a)
  case (StrArg str)
  then have x: "x = str" "c = 115" using assms(3) by (auto split: if_splits)
  then show ?thesis using print_ok [OF assms(1), of str] assms(4) StrArg by (auto simp: convert_def str_arg_def)
next
  case (IntArg v)
  have num: "\<exists>s'. print_number put b sign pre maxrem (a # as) s = Inr (Some (int (length x), as), s') \<and> inv s' \<and> out s' = out s @ x"
    if "b = 10 \<or> b = 16" "x = pre @ int_text (unat b) sign v" for b sign pre
  proof -
    obtain s1 where s1: "print put pre s = Inr s1" "inv s1" "out s1 = out s @ pre" using print_ok [OF assms(1)] by blast
    show ?thesis using printint_ok [OF s1(2) that(1), of v sign] s1 that assms(4) IntArg by (auto simp: print_number_def int_arg_def Let_def)
  qed
  consider "c = 100" | "c = 117" | "c = 120" | "c = 99" using assms(3) IntArg by (auto split: if_splits)
  then show ?thesis
  proof cases
    case 1
    then show ?thesis using num [of 10 "[]" True] assms(3) IntArg by (simp add: convert_def)
  next
    case 2
    then show ?thesis using num [of 10 "[]" False] assms(3) IntArg by (simp add: convert_def)
  next
    case 3
    then show ?thesis using num [of 16 "[48, 120]" False] assms(3) IntArg by (auto simp: convert_def)
  next
    case 4
    then have "x = [ucast v]" using assms(3) IntArg by simp
    then show ?thesis using print_ok [OF assms(1), of x] assms(4) 4 IntArg by (auto simp: convert_def int_arg_def)
  qed
qed

lemma printf_from_ok:
  "inv s \<Longrightarrow> fmt_spec fmt args = Some x \<Longrightarrow> written + int (length x) \<le> INT_MAX \<Longrightarrow> 0 \<le> written \<Longrightarrow>
   \<exists>s'. printf_from put fmt args written s = Inr (written + int (length x), s') \<and> inv s' \<and> out s' = out s @ x"
proof (induction "length fmt" arbitrary: fmt args written s x rule: less_induct)
  case less
  show ?case
  proof (cases fmt)
    case Nil
    then show ?thesis using less.prems by auto
  next
    case (Cons f fs)
    consider (chunk) "f \<noteq> 37 \<or> (fs \<noteq> [] \<and> hd fs = 37)" | (dir) c gs where "f = 37" "fs = c # gs" "c \<noteq> 37" "is_directive c"
      | (rest) "f = 37" "fs = [] \<or> (hd fs \<noteq> 37 \<and> \<not> is_directive (hd fs))" by (cases fs) auto
    then show ?thesis
    proof cases
      case chunk
      define g where "g = (if f = 37 then fs else f # fs)"
      define ys where "ys = takeWhile (\<lambda>c. c \<noteq> 37) (tl g)"
      define zs where "zs = dropWhile (\<lambda>c. c \<noteq> 37) (tl g)"
      obtain x' where g: "g = hd g # ys @ zs" and lz: "length zs < length fmt" and x': "fmt_spec zs args = Some x'" "x = hd g # ys @ x'"
        using fmt_spec_run [OF chunk g_def ys_def zs_def, of args x] less.prems(2) Cons by metis
      have tk: "take (Suc (length ys)) g = hd g # ys" "drop (Suc (length ys)) g = zs" by (subst g, simp)+
      obtain s1 where s1: "print put (hd g # ys) s = Inr s1" "inv s1" "out s1 = out s @ hd g # ys" using print_ok [OF less.prems(1)] by blast
      have "\<exists>s'. printf_from put zs args (written + int (Suc (length ys))) s1 = Inr (written + int (Suc (length ys)) + int (length x'), s') \<and>
          inv s' \<and> out s' = out s1 @ x'"
        using less.hyps [OF lz s1(2) x'(1)] less.prems(3,4) x'(2) by simp
      moreover have "printf_from put fmt args written s = printf_from put zs args (written + int (Suc (length ys))) s1"
        using chunk less.prems(3) x'(2) s1(1) tk unfolding Cons by (simp add: g_def [symmetric] ys_def [symmetric] Let_def del: take_Suc_Cons drop_Suc_Cons)
      ultimately show ?thesis using s1(3) x'(2) by (simp add: algebra_simps)
    next
      case dir
      then obtain a as y z where a: "args = a # as" "fmt_text c a = Some y" "fmt_spec gs as = Some z" "x = y @ z"
        using less.prems(2) Cons by (auto split: list.splits option.splits)
      then obtain s1 where s1: "convert put c (INT_MAX - written) (a # as) s = Inr (Some (int (length y), as), s1)" "inv s1" "out s1 = out s @ y"
        using convert_ok [OF less.prems(1) dir(4) a(2), of "INT_MAX - written" as] less.prems(3) by auto
      have "\<exists>s'. printf_from put gs as (written + int (length y)) s1 = Inr (written + int (length y) + int (length z), s') \<and> inv s' \<and> out s' = out s1 @ z"
        using less.hyps [OF _ s1(2) a(3), of "written + int (length y)"] less.prems(3,4) a(4) Cons dir by simp
      then show ?thesis using s1 dir a(1,4) Cons by (auto simp: Let_def)
    next
      case rest
      then have "x = fmt" using less.prems(2) Cons by (cases fs) auto
      then show ?thesis using print_ok [OF less.prems(1), of fmt] less.prems(3) rest Cons by (auto simp: Let_def)
    qed
  qed
qed

lemma printf_ok:
  "inv s \<Longrightarrow> fmt_spec fmt args = Some x \<Longrightarrow> int (length x) \<le> INT_MAX \<Longrightarrow>
   \<exists>s'. printf put fmt args s = Inr (int (length x), s') \<and> inv s' \<and> out s' = out s @ x"
  using printf_from_ok [of s fmt args x 0] by (simp add: printf_def)

end

section \<open>Properties\<close>

lemma print_append: "print (\<lambda>c s. Inr (s @ [c])) cs s = Inr (s @ cs)"
  by (induction cs arbitrary: s) auto

text \<open>
  C36: the printed numeral can be read back. For every 32-bit value \<open>printint\<close> returns, within its buffer of 16 bytes, the number of
  characters printed; read as a decimal numeral with a leading minus sign, or as a hexadecimal one, they give the signed or unsigned value.
  This includes the smallest \<open>int\<close>, whose negation wraps around.
\<close>

theorem printint_roundtrip:
  "\<exists>ds hs. printint (\<lambda>c s. Inr (s @ [c])) v 10 True [] = Inr (int (length ds), ds) \<and> length ds \<le> 11 \<and>
     (if hd ds = 45 then - int (value_of 10 (tl ds)) else int (value_of 10 ds)) = sint v \<and>
     printint (\<lambda>c s. Inr (s @ [c])) v 16 False [] = Inr (int (length hs), hs) \<and> length hs \<le> 8 \<and> value_of 16 hs = unat v"
proof -
  let ?ds = "int_text 10 True v" and ?hs = "int_text 16 False v"
  have d: "digits ! (n mod 10) \<noteq> 45" for n
  proof -
    have "\<forall>i \<in> set [0..<10]. digits ! i \<noteq> 45" by code_simp
    then show ?thesis by simp
  qed
  have "hd (numeral_of 10 n) \<noteq> 45" for n
  proof (induction n rule: less_induct)
    case (less n)
    have "numeral_of 10 (n div 10) \<noteq> []" by (subst numeral_of.simps) simp
    then show ?case using less [of "n div 10"] d [of n] by (subst numeral_of.simps) auto
  qed
  then have "(if hd ?ds = 45 then - int (value_of 10 (tl ?ds)) else int (value_of 10 ?ds)) = sint v"
    using unat_nonneg_sint [of v] by (auto simp: int_text_def value_numeral)
  moreover have "length ?ds \<le> 11" "length ?hs \<le> 8" using numeral_room [of v] numeral_room [of "- v"] unat_neg_sint [of v] by (auto simp: int_text_def)
  moreover have "value_of 16 ?hs = unat v" by (simp add: int_text_def value_numeral)
  moreover have "printint (\<lambda>c s. Inr (s @ [c])) v 10 True [] = Inr (int (length ?ds), ?ds)"
    "printint (\<lambda>c s. Inr (s @ [c])) v 16 False [] = Inr (int (length ?hs), ?hs)"
    by (subst printint_text; simp add: print_append)+
  ultimately show ?thesis by blast
qed

end
