(* ===== verification/Paging.thy ===== *)
theory Paging
  imports Kheap Interrupts Memory Printf
begin

text \<open>
  Address spaces (\<^verbatim>\<open>vm.c\<close>: \<open>vm_initialize\<close>, \<open>clone_page_table\<close>, \<open>clone_page_directory\<close>, \<open>switch_page_directory\<close>,
  \<open>page_fault\<close>). The contents of physical memory is the field \<open>phys_mem\<close>, which only \<open>copy_physical_page\<close> (assembly, in
  \<^verbatim>\<open>asm/proc.S\<close>) changes; the assembly routines of \<^verbatim>\<open>asm/paging.S\<close> update the fields \<open>cr3\<close> and \<open>cr0\<close>.
\<close>

section \<open>Cloning\<close>

definition copy_physical_page :: "u32 \<Rightarrow> u32 \<Rightarrow> vm \<Rightarrow> vm" where
  "copy_physical_page src dest s =
     s\<lparr>phys_mem := copy_words 1024 src dest (phys_mem s), cr0 := (cr0 s AND 0x7FFFFFFF) OR 0x80000000\<rparr>"

text \<open>The flags that are copied from an entry to its clone.\<close>

definition clone_flags :: "u32 \<Rightarrow> u32 \<Rightarrow> u32" where
  "clone_flags src_e dest_e =
     (let e = dest_e;
          e = (if src_e AND PAGE_PRESENT \<noteq> 0 then e OR PAGE_PRESENT else e);
          e = (if src_e AND PAGE_RW \<noteq> 0 then e OR PAGE_RW else e);
          e = (if src_e AND PAGE_USER \<noteq> 0 then e OR PAGE_USER else e);
          e = (if src_e AND PAGE_ACCESSED \<noteq> 0 then e OR PAGE_ACCESSED else e);
          e = (if src_e AND PAGE_DIRTY \<noteq> 0 then e OR PAGE_DIRTY else e)
      in e)"

definition clone_entry :: "u32 \<Rightarrow> u32 \<Rightarrow> nat \<Rightarrow> vm \<Rightarrow> vm res" where
  "clone_entry src_pt dest_pt i s =
     res_bind (read_pte (Some (src_pt, i)) s) (\<lambda>e.
     if drop_bit 12 e = 0 then write_pte (Some (dest_pt, i)) PAGE_RW s
     else
       res_bind (alloc_frame (Some (dest_pt, i)) False False s) (\<lambda>s.
       res_bind (read_pte (Some (dest_pt, i)) s) (\<lambda>e'.
       res_bind (write_pte (Some (dest_pt, i)) (clone_flags e e') s) (\<lambda>s.
       Inr (copy_physical_page (drop_bit 12 e * FRAME_SIZE) (drop_bit 12 (clone_flags e e') * FRAME_SIZE) s)))))"

fun clone_entries :: "u32 \<Rightarrow> u32 \<Rightarrow> nat list \<Rightarrow> vm \<Rightarrow> vm res" where
  "clone_entries src_pt dest_pt [] s = Inr s"
| "clone_entries src_pt dest_pt (i # is) s = res_bind (clone_entry src_pt dest_pt i s) (clone_entries src_pt dest_pt is)"

definition clone_page_table :: "malloc_fn \<Rightarrow> u32 \<Rightarrow> vm \<Rightarrow> (u32 \<times> u32 option \<times> vm) res" where
  "clone_page_table malloc src_pt s =
     res_bind (malloc sizeof_page_table True True s) (\<lambda>(dest_pt, paddr, s).
     if dest_pt = 0 then Inl NullDeref
     else
       res_bind (clone_entries src_pt dest_pt [0..<PT_ENTRIES] (s\<lparr>page_tables := (page_tables s)(dest_pt \<mapsto> replicate PT_ENTRIES 0)\<rparr>)) (\<lambda>s.
       Inr (dest_pt, paddr, s)))"

definition clone_slot :: "malloc_fn \<Rightarrow> u32 \<Rightarrow> u32 \<Rightarrow> nat \<Rightarrow> vm \<Rightarrow> vm res" where
  "clone_slot malloc src_pd dest_pd i s =
     res_bind (deref (page_dirs s) src_pd) (\<lambda>src.
     res_bind (arr_get (tables src) i) (\<lambda>t.
     res_bind (arr_get (entries src) i) (\<lambda>e.
     if t = 0 then
       res_bind (deref (page_dirs s) dest_pd) (\<lambda>dest.
       res_bind (arr_get (tables dest) i) (\<lambda>t'. set_table dest_pd i t' TABLE_RW s))
     else
       res_bind (deref (page_dirs s) (kernel_pd s)) (\<lambda>kernel.
       res_bind (arr_get (tables kernel) i) (\<lambda>kt.
       if t = kt then set_table dest_pd i t e s
       else
         res_bind (clone_page_table malloc t s) (\<lambda>(t', paddr, s).
         case paddr of
           None \<Rightarrow> Inl BadPointer
         | Some paddr \<Rightarrow> set_table dest_pd i t' (paddr OR TABLE_PRESENT OR TABLE_RW OR TABLE_USER) s))))))"

fun clone_slots :: "malloc_fn \<Rightarrow> u32 \<Rightarrow> u32 \<Rightarrow> nat list \<Rightarrow> vm \<Rightarrow> vm res" where
  "clone_slots malloc src_pd dest_pd [] s = Inr s"
| "clone_slots malloc src_pd dest_pd (i # is) s = res_bind (clone_slot malloc src_pd dest_pd i s) (clone_slots malloc src_pd dest_pd is)"

abbreviation zero_pd :: page_directory where
  "zero_pd \<equiv> \<lparr>entries = replicate PD_ENTRIES 0, tables = replicate PD_ENTRIES 0, paddr_pde = 0\<rparr>"

definition clone_page_directory :: "malloc_fn \<Rightarrow> u32 \<Rightarrow> vm \<Rightarrow> (u32 \<times> vm) res" where
  "clone_page_directory malloc src_pd s =
     res_bind (malloc sizeof_page_directory True True s) (\<lambda>(dest_pd, paddr, s).
     if dest_pd = 0 then Inl NullDeref
     else case paddr of
       None \<Rightarrow> Inl BadPointer
     | Some paddr \<Rightarrow>
         res_bind (clone_slots malloc src_pd dest_pd [0..<PD_ENTRIES]
           (s\<lparr>page_dirs := (page_dirs s)(dest_pd \<mapsto> zero_pd\<lparr>paddr_pde := paddr + 0\<rparr>)\<rparr>)) (\<lambda>s.
         Inr (dest_pd, s)))"

definition switch_page_directory :: "u32 \<Rightarrow> vm \<Rightarrow> vm res" where
  "switch_page_directory pd s =
     res_bind (deref (page_dirs s) pd) (\<lambda>p.
     Inr (s\<lparr>current_pd := pd, cr3 := paddr_pde p, cr0 := cr0 s OR 0x80000000\<rparr>))"

section \<open>Page faults\<close>

text \<open>The diagnosis that \<open>page_fault\<close> prints for an error code.\<close>

definition page_fault_message :: "u32 \<Rightarrow> string" where
  "page_fault_message err =
     (let present = (err AND PAGE_PRESENT = 0); rw = (err AND PAGE_RW \<noteq> 0); us = (err AND PAGE_USER \<noteq> 0) in
      if \<not> present \<and> \<not> rw \<and> \<not> us then ''Supervisory process tried to read a non-present page entry.''
      else if \<not> present \<and> \<not> rw \<and> us then ''Supervisory process tried to read a page and cause a protection fault.''
      else if \<not> present \<and> rw \<and> \<not> us then ''Supervisory process tried to write to a non-present page entry.''
      else if \<not> present \<and> rw \<and> us then ''Supervisory process tried to write a page and caused a protection fault.''
      else if present \<and> \<not> rw \<and> \<not> us then ''User Process tried to read a non-present page entry.''
      else if present \<and> \<not> rw \<and> us then ''User process tried to read a page and caused a protection fault.''
      else if present \<and> rw \<and> \<not> us then ''Uer process tried to write to a non-present page entry.''
      else ''User process tried to write a page and caused a protection fault.'')"

text \<open>
  The handler, over the interface of \<open>putchar\<close>; \<open>cr2\<close> is the register with the faulting address. It ends in \<open>panic\<close>, called with the file and the
  line of the source.
\<close>

definition page_fault :: "'s putc \<Rightarrow> u32 \<Rightarrow> regs \<Rightarrow> 's \<Rightarrow> 's outcome res" where
  "page_fault put cr2 r s =
     (let faulting_address = cr2;
          present = (err_code r AND PAGE_PRESENT = 0);
          rw = (err_code r AND PAGE_RW \<noteq> 0);
          us = (err_code r AND PAGE_USER \<noteq> 0);
          rsvd = (err_code r AND PAGE_WRITETHRU \<noteq> 0);
          opt = (\<lambda>b str. StrArg (text_bytes (if b then str else [])))
      in
      res_bind (printf put (text_bytes ''Page fault (%s%s%s%s) at %x\<newline>'')
        [opt present ''present'', opt rw ''read-only'', opt us ''user-mode'', opt rsvd ''reserved'', IntArg faulting_address] s) (\<lambda>(_, s).
      res_bind (printf put (text_bytes (''\<newline>'' @ page_fault_message (err_code r))) [] s) (\<lambda>(_, s).
      res_bind (printf put (text_bytes ''\<newline>'') [] s) (\<lambda>(_, s).
      res_bind (panic put (text_bytes ''page fault'') (text_bytes ''arch/i386/vm.c'') 606 s) (\<lambda>(_, s).
      Inr (Halted s))))))"

section \<open>Initialisation\<close>

text \<open>\<^verbatim>\<open>alloc_frame(get_page(vaddr, kernel_pd, true), false, false)\<close>, the body of the mapping loops.\<close>

definition map_page :: "malloc_fn \<Rightarrow> u32 \<Rightarrow> vm \<Rightarrow> vm res" where
  "map_page malloc vaddr s =
     res_bind (get_page malloc vaddr (kernel_pd s) True s) (\<lambda>(page, s). alloc_frame page False False s)"

abbreviation page_rounds :: nat where "page_rounds \<equiv> 2 ^ 20"

definition map_until :: "malloc_fn \<Rightarrow> (vm \<Rightarrow> u32) \<Rightarrow> u32 \<times> vm \<Rightarrow> (u32 \<times> vm) res" where
  "map_until malloc limit = while_res page_rounds (\<lambda>(vaddr, s). vaddr < limit s)
     (\<lambda>(vaddr, s). res_bind (map_page malloc vaddr s) (\<lambda>s. Inr (vaddr + PAGE_SIZE, s)))"

definition make_tables :: "malloc_fn \<Rightarrow> u32 \<times> vm \<Rightarrow> (u32 \<times> vm) res" where
  "make_tables malloc = while_res page_rounds (\<lambda>(vaddr, s). vaddr < KHEAP_START + KHEAP_INITIAL_SIZE)
     (\<lambda>(vaddr, s). res_bind (get_page malloc vaddr (kernel_pd s) True s) (\<lambda>(_, s). Inr (vaddr + PAGE_SIZE, s)))"

text \<open>The first half of \<open>vm_initialize\<close>: the kernel page directory and its mappings, before paging is enabled.\<close>

definition vm_map_kernel :: "nat \<Rightarrow> vm \<Rightarrow> vm res" where
  "vm_map_kernel d s =
     res_bind (frame_initialize (vm_pm s)) (\<lambda>pm.
     res_bind (ikmalloc d sizeof_page_directory True False (s\<lparr>vm_pm := pm\<rparr>)) (\<lambda>(pd, _, s).
     if pd = 0 then Inl NullDeref
     else
       let s = s\<lparr>kernel_pd := pd, page_dirs := (page_dirs s)(pd \<mapsto>
                 \<lparr>entries = replicate PD_ENTRIES TABLE_RW, tables = replicate PD_ENTRIES 0, paddr_pde = pd\<rparr>)\<rparr> in
       res_bind (make_tables (ikmalloc d) (KHEAP_START, s)) (\<lambda>(_, s).
       res_bind (map_until (ikmalloc d) (\<lambda>s. placement_address (vm_pm s) + PAGE_SIZE) (0, s)) (\<lambda>(vaddr, s).
       res_bind (map_until (ikmalloc d) (\<lambda>s. initrd_end (vm_pm s) + PAGE_SIZE) (vaddr, s)) (\<lambda>(_, s).
       let s = s\<lparr>vm_pm := (vm_pm s)\<lparr>placement_address := initrd_end (vm_pm s) + PAGE_SIZE\<rparr>\<rparr> in
       res_bind (map_until (ikmalloc d) (\<lambda>s. KHEAP_START + KHEAP_INITIAL_SIZE) (KHEAP_START, s)) (\<lambda>(_, s).
       Inr s))))))"

definition load_page_directory :: "u32 \<Rightarrow> vm \<Rightarrow> vm" where
  "load_page_directory p s = s\<lparr>cr3 := p\<rparr>"

definition enable_paging :: "vm \<Rightarrow> vm" where
  "enable_paging s = s\<lparr>cr0 := cr0 s OR 0x80000000\<rparr>"

definition vm_initialize :: "nat \<Rightarrow> 'h \<Rightarrow> 'h ints \<times> vm \<Rightarrow> ('h ints \<times> vm) res" where
  "vm_initialize d page_fault_h = (\<lambda>(ints, s).
     res_bind (vm_map_kernel d s) (\<lambda>s.
     res_bind (register_interrupt_handler 14 page_fault_h ints) (\<lambda>ints.
     res_bind (deref (page_dirs s) (kernel_pd s)) (\<lambda>p.
     let s = enable_paging (load_page_directory (paddr_pde p) s) in
     res_bind (heap_init (ikmalloc d) d KHEAP_START (KHEAP_START + KHEAP_INITIAL_SIZE) KHEAP_MAX_SIZE False False s) (\<lambda>(hp, s).
     let s = s\<lparr>kheap := hp\<rparr> in
     res_bind (clone_page_directory (ikmalloc d) (kernel_pd s) s) (\<lambda>(pd, s).
     res_bind (switch_page_directory pd (s\<lparr>current_pd := pd\<rparr>)) (\<lambda>s. Inr (ints, s))))))))"

end
