(* ===== verification/Proc.thy ===== *)
theory Proc
  imports Paging
begin

text \<open>
  Processes and the timer (\<^verbatim>\<open>proc.c\<close>, \<^verbatim>\<open>timer.c\<close>, the switch in \<^verbatim>\<open>asm/proc.S\<close>). The process structures are
  objects in a store addressed by the pointers that \<open>kmalloc\<close> returns, linked by \<open>p_next\<close>. The state also holds the
  registers that the inline assembly reads and writes. The value that \<open>get_eip\<close> returns is an argument: the address behind the call, or
  \<^verbatim>\<open>0xDEAD\<close> when the process has just been switched to. \<open>vmem\<close> is the contents of memory as the current mapping shows it.
\<close>

section \<open>State\<close>

record proc =
  p_id :: u32
  p_esp :: u32
  p_ebp :: u32
  p_eip :: u32
  p_pd :: u32
  p_next :: u32

record os =
  os_vm :: vm
  procs :: "u32 \<Rightarrow> proc option"
  current_proc :: u32
  ready_queue :: u32
  next_pid :: u32
  initial_esp :: u32
  esp :: u32
  ebp :: u32
  eip :: u32
  eax :: u32
  if_flag :: bool
  vmem :: mem

abbreviation sizeof_proc :: u32 where "sizeof_proc \<equiv> 24"

section \<open>Moving the stack\<close>

text \<open>The first loop of \<open>move_stack\<close> maps the pages of the new stack from the top down, with writable user pages.\<close>

definition map_stack :: "nat \<Rightarrow> u32 \<Rightarrow> u32 \<times> vm \<Rightarrow> (u32 \<times> vm) res" where
  "map_stack d limit = while_res page_rounds (\<lambda>(i, s). limit \<le> i)
     (\<lambda>(i, s).
        res_bind (get_page (ikmalloc d) i (current_pd s) True s) (\<lambda>(page, s).
        res_bind (alloc_frame page False True s) (\<lambda>s. Inr (i - PAGE_SIZE, s))))"

text \<open>The second loop adds the offset to every word of the new stack that points into the old one.\<close>

abbreviation stack_rounds :: nat where "stack_rounds \<equiv> 2 ^ 30"

definition patch_stack :: "u32 \<Rightarrow> u32 \<Rightarrow> u32 \<Rightarrow> u32 \<Rightarrow> u32 \<times> mem \<Rightarrow> (u32 \<times> mem) res" where
  "patch_stack old_stack_ptr stack_top offset limit = while_res stack_rounds (\<lambda>(p, m). limit < p)
     (\<lambda>(p, m). Inr (p - 4,
        if old_stack_ptr < load32 m p \<and> load32 m p < stack_top then store32 p (load32 m p + offset) m else m))"

definition move_stack :: "nat \<Rightarrow> u32 \<Rightarrow> u32 \<Rightarrow> os \<Rightarrow> os res" where
  "move_stack d new_stack_start sz s =
     res_bind (map_stack d (new_stack_start - sz) (new_stack_start, os_vm s)) (\<lambda>(_, v).
     let s = s\<lparr>os_vm := v\<lparr>cr3 := cr3 v\<rparr>\<rparr>;
         old_stack_ptr = esp s;
         old_base_ptr = ebp s;
         offset = new_stack_start - initial_esp s;
         new_stack_ptr = old_stack_ptr + offset;
         new_base_ptr = old_base_ptr + offset;
         m = memcpy new_stack_ptr old_stack_ptr (initial_esp s - old_stack_ptr) (vmem s)
     in res_bind (patch_stack old_stack_ptr (initial_esp s) offset (new_stack_start - sz) (new_stack_start, m)) (\<lambda>(_, m).
        Inr (s\<lparr>vmem := m, esp := new_stack_ptr, ebp := new_base_ptr\<rparr>)))"

section \<open>Processes\<close>

definition proc_initialize :: "nat \<Rightarrow> os \<Rightarrow> os res" where
  "proc_initialize d s =
     res_bind (move_stack d 0xE0000000 0x4000 (s\<lparr>if_flag := False\<rparr>)) (\<lambda>s.
     res_bind (kmalloc d sizeof_proc (os_vm s)) (\<lambda>(p, v).
     if p = 0 then Inl NullDeref
     else
       Inr (s\<lparr>os_vm := v, current_proc := p, ready_queue := p, next_pid := next_pid s + 1,
              procs := (procs s)(p \<mapsto> \<lparr>p_id = next_pid s, p_esp = 0, p_ebp = 0, p_eip = 0, p_pd = current_pd v, p_next = 0\<rparr>),
              if_flag := True\<rparr>)))"

text \<open>The walk to the last process; it never takes more steps than processes were ever created.\<close>

fun queue_end :: "nat \<Rightarrow> (u32 \<Rightarrow> proc option) \<Rightarrow> u32 \<Rightarrow> u32 res" where
  "queue_end 0 ps temp_proc = Inl OutOfFuel"
| "queue_end (Suc n) ps temp_proc =
     res_bind (deref ps temp_proc) (\<lambda>p.
     if p_next p \<noteq> 0 then queue_end n ps (p_next p) else Inr temp_proc)"

text \<open>
  What \<open>fork\<close> does after \<open>get_eip\<close> has returned: first in the parent, and a second time when the child is switched to,
  which returns from the same call.
\<close>

definition fork_return :: "u32 \<Rightarrow> u32 \<Rightarrow> u32 \<Rightarrow> os \<Rightarrow> (u32 \<times> os) res" where
  "fork_return parent_proc new_proc ip s =
     (if current_proc s = parent_proc then
        res_bind (update_at (\<lambda>p. p\<lparr>p_esp := esp s, p_ebp := ebp s, p_eip := ip\<rparr>) new_proc (procs s)) (\<lambda>ps.
        res_bind (deref ps new_proc) (\<lambda>p.
        Inr (p_id p, s\<lparr>procs := ps, if_flag := True\<rparr>)))
      else Inr (0, s))"

definition fork :: "nat \<Rightarrow> u32 \<Rightarrow> os \<Rightarrow> (u32 \<times> os) res" where
  "fork d ip s =
     (let s = s\<lparr>if_flag := False\<rparr>; parent_proc = current_proc s in
      res_bind (deref (procs s) (current_proc s)) (\<lambda>cur.
      res_bind (clone_page_directory (ikmalloc d) (p_pd cur) (os_vm s)) (\<lambda>(pd, v).
      res_bind (kmalloc d sizeof_proc v) (\<lambda>(new_proc, v).
      if new_proc = 0 then Inl NullDeref
      else
        let s = s\<lparr>os_vm := v, next_pid := next_pid s + 1,
                  procs := (procs s)(new_proc \<mapsto> \<lparr>p_id = next_pid s, p_esp = 0, p_ebp = 0, p_eip = 0, p_pd = pd, p_next = 0\<rparr>)\<rparr> in
        res_bind (queue_end (unat (next_pid s)) (procs s) (ready_queue s)) (\<lambda>temp_proc.
        res_bind (update_at (\<lambda>p. p\<lparr>p_next := new_proc\<rparr>) temp_proc (procs s)) (\<lambda>ps.
        fork_return parent_proc new_proc ip (s\<lparr>procs := ps\<rparr>)))))))"

definition switch_physical_proc :: "u32 \<Rightarrow> u32 \<Rightarrow> u32 \<Rightarrow> u32 \<Rightarrow> os \<Rightarrow> os" where
  "switch_physical_proc ip pd_paddr bp sp s =
     s\<lparr>ebp := bp, esp := sp, os_vm := (os_vm s)\<lparr>cr3 := pd_paddr\<rparr>, eax := 0xDEAD, if_flag := True, eip := ip\<rparr>"

text \<open>The first component of the result tells whether control went to another process instead of returning to the caller.\<close>

definition switch_proc :: "u32 \<Rightarrow> os \<Rightarrow> (bool \<times> os) res" where
  "switch_proc ip s =
     (if current_proc s = 0 then Inr (False, s)
      else
        res_bind (deref (procs s) (current_proc s)) (\<lambda>cur.
        if p_next cur = 0 then Inr (False, s)
        else if ip = 0xDEAD then Inr (False, s)
        else
          let s = s\<lparr>procs := (procs s)(current_proc s \<mapsto> cur\<lparr>p_eip := ip, p_esp := esp s, p_ebp := ebp s\<rparr>), current_proc := p_next cur\<rparr>;
              s = (if current_proc s = 0 then s\<lparr>current_proc := ready_queue s\<rparr> else s)
          in res_bind (deref (procs s) (current_proc s)) (\<lambda>nxt.
             res_bind (deref (page_dirs (os_vm s)) (p_pd nxt)) (\<lambda>pd.
             Inr (True, switch_physical_proc (p_eip nxt) (paddr_pde pd) (p_ebp nxt) (p_esp nxt)
                          (s\<lparr>os_vm := (os_vm s)\<lparr>current_pd := p_pd nxt\<rparr>\<rparr>))))))"

definition getpid :: "os \<Rightarrow> u32 res" where
  "getpid s = res_bind (deref (procs s) (current_proc s)) (\<lambda>p. Inr (p_id p))"

section \<open>Timer\<close>

record timer =
  timer_ticks :: u32
  seconds_passed :: int

text \<open>
  The comparison \<^verbatim>\<open>(double)timer_ticks / 18.222 > seconds_passed\<close> is made in floating point; its outcome is the argument \<open>fp_gt\<close>,
  and all that the development uses of it is that it is right where the two sides differ.
\<close>

definition fp_gt_ok :: "(u32 \<Rightarrow> int \<Rightarrow> bool) \<Rightarrow> bool" where
  "fp_gt_ok fp_gt \<longleftrightarrow> (\<forall>t s. 0 \<le> s \<longrightarrow> (18222 * s < 1000 * uint t \<longrightarrow> fp_gt t s) \<and> (1000 * uint t < 18222 * s \<longrightarrow> \<not> fp_gt t s))"

definition timer_handler :: "(u32 \<Rightarrow> int \<Rightarrow> bool) \<Rightarrow> u32 \<Rightarrow> timer \<times> os \<Rightarrow> (timer \<times> os) res" where
  "timer_handler fp_gt ip = (\<lambda>(t, s).
     let t = t\<lparr>timer_ticks := timer_ticks t + 1\<rparr> in
     res_bind (switch_proc ip s) (\<lambda>(switched, s).
     if switched then Inr (t, s)
     else Inr (if fp_gt (timer_ticks t) (seconds_passed t) then t\<lparr>seconds_passed := seconds_passed t + 1\<rparr> else t, s)))"

text \<open>
  The busy wait of \<open>timer_wait\<close>: nothing happens between two timer interrupts, so one round is one interrupt of the list
  (with its \<open>get_eip\<close> value); when no interrupt is left the loop spins for ever.
\<close>

fun wait_ticks :: "(u32 \<Rightarrow> int \<Rightarrow> bool) \<Rightarrow> u32 \<Rightarrow> u32 list \<Rightarrow> timer \<times> os \<Rightarrow> (timer \<times> os) res" where
  "wait_ticks fp_gt eticks [] st = (if timer_ticks (fst st) < eticks then Inl Blocked else Inr st)"
| "wait_ticks fp_gt eticks (ip # irqs) st =
     (if timer_ticks (fst st) < eticks then res_bind (timer_handler fp_gt ip st) (wait_ticks fp_gt eticks irqs) else Inr st)"

definition timer_wait :: "(u32 \<Rightarrow> int \<Rightarrow> bool) \<Rightarrow> u32 \<Rightarrow> u32 list \<Rightarrow> timer \<times> os \<Rightarrow> (timer \<times> os) res" where
  "timer_wait fp_gt ticks irqs st = wait_ticks fp_gt (timer_ticks (fst st) + ticks) irqs st"

end
