(* ===== verification/Kheap_Spec.thy ===== *)
theory Kheap_Spec
  imports Kheap
begin

text \<open>
  What the kernel heap does. The free memory of a heap is the set of bytes of its free blocks. Allocation
  takes the bytes of the new block out of it and freeing puts them back, minus the bytes of the tree node
  that \<open>heap_free\<close> has to allocate; both keep the invariant \<open>heap_inv\<close>: a search tree of blocks that are disjoint, not
  adjacent and inside of the heap, whose nodes do not lie in free memory.
\<close>

section \<open>Free blocks\<close>

text \<open>
  Well-formed lists of free blocks: sorted, pairwise apart (two adjacent blocks would have been merged),
  not empty, and inside of the heap.
\<close>

definition apart :: "u32 \<times> u32 \<Rightarrow> u32 \<times> u32 \<Rightarrow> bool" where
  "apart x y \<longleftrightarrow> unat (fst x) + unat (snd x) < unat (fst y)"

definition in_heap :: "nat \<Rightarrow> nat \<Rightarrow> u32 \<times> u32 \<Rightarrow> bool" where
  "in_heap lo hi x \<longleftrightarrow> 0 < unat (snd x) \<and> lo \<le> unat (fst x) \<and> unat (fst x) + unat (snd x) \<le> hi"

definition blocks_ok :: "nat \<Rightarrow> nat \<Rightarrow> (u32 \<times> u32) list \<Rightarrow> bool" where
  "blocks_ok lo hi xs \<longleftrightarrow> sorted_wrt apart xs \<and> (\<forall>x \<in> set xs. in_heap lo hi x)"

definition range_of :: "u32 \<Rightarrow> u32 \<Rightarrow> nat set" where
  "range_of b n = {unat b..<unat b + unat n}"

definition free_bytes :: "(u32 \<times> u32) list \<Rightarrow> nat set" where
  "free_bytes xs = (\<Union>x \<in> set xs. range_of (fst x) (snd x))"

lemma free_bytes_simps [simp]:
  "free_bytes [] = {}" "free_bytes (x # xs) = range_of (fst x) (snd x) \<union> free_bytes xs"
  "free_bytes (xs @ ys) = free_bytes xs \<union> free_bytes ys"
  by (auto simp: free_bytes_def)

lemma range_of_0 [simp]: "range_of b 0 = {}"
  by (simp add: range_of_def)

lemma free_bytes_before: "\<forall>x \<in> set xs. apart x y \<Longrightarrow> p \<in> free_bytes xs \<Longrightarrow> p < unat (fst y)"
  by (fastforce simp: free_bytes_def range_of_def apart_def)

lemma free_bytes_after: "\<forall>x \<in> set xs. apart y x \<Longrightarrow> p \<in> free_bytes xs \<Longrightarrow> unat (fst y) + unat (snd y) < p"
  by (fastforce simp: free_bytes_def range_of_def apart_def)

lemma blocks_ok_append: "blocks_ok lo hi (xs @ y # ys) \<longleftrightarrow>
  blocks_ok lo hi xs \<and> blocks_ok lo hi ys \<and> in_heap lo hi y \<and> (\<forall>x \<in> set xs. apart x y) \<and> (\<forall>x \<in> set ys. apart y x)
    \<and> (\<forall>x \<in> set xs. \<forall>z \<in> set ys. apart x z)"
  by (auto simp: blocks_ok_def sorted_wrt_append)

lemma blocks_ok_sorted: "blocks_ok lo hi xs \<Longrightarrow> sorted_wrt (<) (map fst xs)"
  unfolding blocks_ok_def sorted_wrt_map
  by (erule conjE, erule sorted_wrt_mono_rel [rotated]) (auto simp: apart_def word_less_nat_alt)

text \<open>Cutting \<open>k\<close> bytes off the front of a block.\<close>

lemma unat_cut: "k \<le> n \<Longrightarrow> unat b + unat n < 2 ^ 32 \<Longrightarrow> unat (b + k) = unat b + unat k \<and> unat (n - k) = unat n - unat k"
  for b n k :: u32
  by (auto simp: word_le_nat_alt unat_word_ariths unat_sub_if' )

lemma blocks_ok_cut:
  assumes "blocks_ok lo hi (xs @ (b, n) # ys)" "k < n" "hi < 2 ^ 32"
  shows "blocks_ok lo hi (xs @ (b + k, n - k) # ys)"
    and "free_bytes (xs @ (b + k, n - k) # ys) = free_bytes (xs @ (b, n) # ys) - range_of b k"
    and "range_of b k \<subseteq> free_bytes (xs @ (b, n) # ys)"
proof -
  have ok: "blocks_ok lo hi xs" "blocks_ok lo hi ys" "in_heap lo hi (b, n)" "\<forall>x \<in> set xs. apart x (b, n)" "\<forall>x \<in> set ys. apart (b, n) x"
    "\<forall>x \<in> set xs. \<forall>z \<in> set ys. apart x z"
    using assms(1) by (auto simp: blocks_ok_append)
  have k: "unat k < unat n" using assms(2) by (simp add: word_less_nat_alt)
  have u: "unat (b + k) = unat b + unat k" "unat (n - k) = unat n - unat k"
    using unat_cut [of k n b] assms(2,3) ok(3) by (auto simp: in_heap_def)
  show "blocks_ok lo hi (xs @ (b + k, n - k) # ys)"
    using ok u k by (fastforce simp: blocks_ok_append in_heap_def apart_def)
  have "free_bytes xs \<inter> range_of b k = {}" "free_bytes ys \<inter> range_of b k = {}"
    using free_bytes_before [OF ok(4)] free_bytes_after [OF ok(5)] k by (fastforce simp: range_of_def)+
  moreover have "range_of (b + k) (n - k) = range_of b n - range_of b k"
    using u k by (auto simp: range_of_def)
  ultimately show "free_bytes (xs @ (b + k, n - k) # ys) = free_bytes (xs @ (b, n) # ys) - range_of b k" by auto
  show "range_of b k \<subseteq> free_bytes (xs @ (b, n) # ys)" using k by (auto simp: range_of_def)
qed

lemma blocks_ok_remove:
  assumes "blocks_ok lo hi (xs @ (b, n) # ys)"
  shows "blocks_ok lo hi (xs @ ys)" and "free_bytes (xs @ ys) = free_bytes (xs @ (b, n) # ys) - range_of b n"
proof -
  have ok: "blocks_ok lo hi xs" "blocks_ok lo hi ys" "in_heap lo hi (b, n)" "\<forall>x \<in> set xs. apart x (b, n)" "\<forall>x \<in> set ys. apart (b, n) x"
    "\<forall>x \<in> set xs. \<forall>z \<in> set ys. apart x z"
    using assms(1) by (auto simp: blocks_ok_append)
  then show "blocks_ok lo hi (xs @ ys)" by (auto simp: blocks_ok_def sorted_wrt_append)
  have "free_bytes xs \<inter> range_of b n = {}" "free_bytes ys \<inter> range_of b n = {}"
    using free_bytes_before [OF ok(4)] free_bytes_after [OF ok(5)] by (fastforce simp: range_of_def)+
  then show "free_bytes (xs @ ys) = free_bytes (xs @ (b, n) # ys) - range_of b n" by auto
qed

section \<open>Changing the block of a node\<close>

fun set_block :: "u32 \<Rightarrow> u32 \<Rightarrow> u32 \<Rightarrow> atree \<Rightarrow> atree" where
  "set_block a b n Leaf = Leaf"
| "set_block a b n (Node l x b0 n0 h r) =
     Node (set_block a b n l) x (if x = a then b else b0) (if x = a then n else n0) h (set_block a b n r)"

lemma set_block_simps [simp]:
  "ptr (set_block a b n t) = ptr t" "addrs (set_block a b n t) = addrs t" "depth (set_block a b n t) = depth t"
  "heights_pos (set_block a b n t) = heights_pos t" "ht (set_block a b n t) = ht t"
  by (induction t; simp)+

lemma tree_at_set_block:
  "tree_at m t \<Longrightarrow> m a = Some x \<Longrightarrow> tree_at (m(a \<mapsto> x\<lparr>avl_base := b, avl_size := n\<rparr>)) (set_block a b n t)"
  by (induction t) auto

lemma set_block_other: "a \<notin> set (addrs t) \<Longrightarrow> set_block a b n t = t"
  by (induction t) auto

lemma blocks_set_block:
  assumes "distinct (addrs t)" "(a, b0, n0) \<in> set (entries_of t)"
  obtains xs ys where "blocks t = xs @ (b0, n0) # ys" "\<And>b n. blocks (set_block a b n t) = xs @ (b, n) # ys"
  using assms
proof (induction t arbitrary: thesis)
  case Leaf
  then show ?case by simp
next
  case (Node l x b1 n1 h r)
  have mem: "(a, b0, n0) \<in> set (entries_of t) \<Longrightarrow> a \<in> set (addrs t)" for t
    by (metis entries_of_projections(2) fst_conv image_eqI set_map)
  consider "(a, b0, n0) \<in> set (entries_of l)" | "x = a" "b1 = b0" "n1 = n0" | "(a, b0, n0) \<in> set (entries_of r)"
    using Node.prems by auto
  then show ?case
  proof cases
    case 1
    obtain xs ys where *: "blocks l = xs @ (b0, n0) # ys" "\<And>b n. blocks (set_block a b n l) = xs @ (b, n) # ys"
      using Node.IH(1) [OF _ _ 1] Node.prems by auto
    have "set_block a b n r = r" "x \<noteq> a" for b n using mem [OF 1] Node.prems by (auto intro!: set_block_other)
    then show ?thesis using Node.prems(1) [of xs "ys @ (b1, n1) # blocks r"] * by simp
  next
    case 2
    then show ?thesis using Node.prems(1) [of "blocks l" "blocks r"] Node.prems by (simp add: set_block_other)
  next
    case 3
    obtain xs ys where *: "blocks r = xs @ (b0, n0) # ys" "\<And>b n. blocks (set_block a b n r) = xs @ (b, n) # ys"
      using Node.IH(2) [OF _ _ 3] Node.prems by auto
    have "set_block a b n l = l" "x \<noteq> a" for b n using mem [OF 3] Node.prems by (auto intro!: set_block_other)
    then show ?thesis using Node.prems(1) [of "blocks l @ (b1, n1) # xs" ys] * by simp
  qed
qed

section \<open>The invariant of a heap\<close>

text \<open>
  The tree \<open>t\<close> of the heap at \<open>hp\<close> is in the store, its blocks are well formed, and its nodes lie
  outside of the free memory, where no later allocation can overwrite them.
\<close>

definition nodes_safe :: "u32 list \<Rightarrow> (u32 \<times> u32) list \<Rightarrow> bool" where
  "nodes_safe as xs \<longleftrightarrow> (\<forall>a \<in> set as. range_of a sizeof_avl_node \<inter> free_bytes xs = {})"

definition heap_inv :: "u32 \<Rightarrow> u32 \<Rightarrow> u32 \<Rightarrow> atree \<Rightarrow> vm \<Rightarrow> bool" where
  "heap_inv hp lo hi t s \<longleftrightarrow> hp \<noteq> 0 \<and> tree_at (nodes s) t \<and> distinct (addrs t) \<and> heights_pos t \<and> nodes_safe (addrs t) (blocks t) \<and>
     blocks_ok (unat lo) (unat hi) (blocks t) \<and> (\<exists>h. heaps s hp = Some h \<and> root h = ptr t \<and> start_addr h = lo \<and> end_addr h = hi)"

lemma heap_invE:
  assumes "heap_inv hp lo hi t s"
  obtains h where "hp \<noteq> 0" "heaps s hp = Some h" "root h = ptr t" "tree_at (nodes s) t" "distinct (addrs t)" "heights_pos t"
    "nodes_safe (addrs t) (blocks t)" "blocks_ok (unat lo) (unat hi) (blocks t)" "bst t" "unat hi < 2 ^ 32"
    "start_addr h = lo" "end_addr h = hi"
  using assms blocks_ok_sorted by (fastforce simp: heap_inv_def bst_def)

lemma depth_le_addrs: "depth t \<le> length (addrs t)"
  by (induction t) auto

lemma length_addrs_blocks: "length (addrs t) = length (blocks t)"
  by (induction t) auto

lemma nodes_safe_mono:
  "nodes_safe as xs \<Longrightarrow> set as' \<subseteq> set as \<Longrightarrow> free_bytes xs' \<subseteq> free_bytes xs \<Longrightarrow> nodes_safe as' xs'"
  by (fastforce simp: nodes_safe_def)


lemma length_filter_blocks: "length (filter P xs) \<le> length xs"
  by simp

lemma length_addrs_del: "bst t \<Longrightarrow> length (addrs (del base t)) \<le> length (addrs t)"
  by (simp add: length_addrs_blocks blocks_del)

section \<open>Allocation\<close>

lemma filter_keep: "\<forall>x \<in> set xs. P x \<Longrightarrow> filter P xs = xs"
  by (induction xs) auto

text \<open>A block that is used up: its node is moved to the end of the block, with size 0, and deleted there.\<close>

lemma delete_used_up:
  assumes inv: "heap_inv hp lo hi t s" and fit: "(a, b, n) \<in> set (entries_of t)" and d: "length (addrs t) < d"
  defines "m \<equiv> (nodes s)(a := map_option (\<lambda>x. x\<lparr>avl_base := b + n, avl_size := 0\<rparr>) (nodes s a))"
  shows "\<exists>t' m' hs. delete_block d hp (b + n) (s\<lparr>nodes := m\<rparr>) = Inr (s\<lparr>nodes := m', heaps := hs\<rparr>) \<and>
    heap_inv hp lo hi t' (s\<lparr>nodes := m', heaps := hs\<rparr>) \<and> free_bytes (blocks t') = free_bytes (blocks t) - range_of b n \<and>
    set (addrs t') \<subseteq> set (addrs t) \<and> length (addrs t') \<le> length (addrs t) \<and> (\<forall>p. p \<notin> set (addrs t) \<longrightarrow> m' p = nodes s p)"
proof -
  obtain h where h: "hp \<noteq> 0" "heaps s hp = Some h" "root h = ptr t" "tree_at (nodes s) t" "distinct (addrs t)" "heights_pos t"
    "nodes_safe (addrs t) (blocks t)" "blocks_ok (unat lo) (unat hi) (blocks t)" "unat hi < 2 ^ 32" "start_addr h = lo" "end_addr h = hi"
    using inv by (rule heap_invE) blast
  obtain xs ys where bl: "blocks t = xs @ (b, n) # ys" "\<And>b n. blocks (set_block a b n t) = xs @ (b, n) # ys"
    using blocks_set_block [OF h(5) fit] by blast
  let ?t1 = "set_block a (b + n) 0 t"
  have "\<exists>x. nodes s a = Some x" and aa: "a \<in> set (addrs t)"
    using tree_at_entry [OF h(4) fit] fit by (auto simp flip: entries_of_projections) force
  then have t1: "tree_at m ?t1" using tree_at_set_block [OF h(4)] by (auto simp: m_def)
  have ok: "\<forall>x \<in> set xs. apart x (b, n)" "\<forall>x \<in> set ys. apart (b, n) x" "sorted_wrt (<) (map fst xs)" "sorted_wrt (<) (map fst ys)"
    "\<forall>x \<in> set xs. \<forall>z \<in> set ys. apart x z" "in_heap (unat lo) (unat hi) (b, n)"
    using h(8) blocks_ok_sorted by (auto simp: bl(1) blocks_ok_append)
  have "unat b + unat n < 2 ^ 32" using ok(6) h(9) unfolding in_heap_def fst_conv snd_conv by linarith
  then have u: "unat (b + n) = unat b + unat n" using unat_cut [of n n b] by blast
  have lt: "\<forall>x \<in> set xs. fst x < b + n" "\<forall>x \<in> set ys. b + n < fst x"
    using ok(1,2) u by (fastforce simp: apart_def word_less_nat_alt)+
  have "bst ?t1" using lt ok(3-5) by (fastforce simp: bst_def bl(2) sorted_wrt_append apart_def word_less_nat_alt)
  moreover have "filter (\<lambda>x. fst x \<noteq> b + n) xs = xs" "filter (\<lambda>x. fst x \<noteq> b + n) ys = ys"
    using lt by (force intro!: filter_keep)+
  ultimately have bd: "blocks (del (b + n) ?t1) = xs @ ys" and ld: "length (addrs (del (b + n) ?t1)) \<le> length (addrs t)"
    using length_addrs_del [of ?t1] by (auto simp: blocks_del bl(2))
  have dep: "depth ?t1 < d" using d depth_le_addrs [of t] by simp
  obtain m' where m': "avl_delete d (ptr ?t1) (b + n) m = Inr (ptr (del (b + n) ?t1), m')" "tree_at m' (del (b + n) ?t1)"
    "\<And>p. p \<notin> set (addrs t) \<Longrightarrow> m' p = m p"
    using refines_Inr [OF avl_delete_refines [OF t1 _ _ dep, of "b + n"]] h(5,6) by auto
  have sub: "set (addrs (del (b + n) ?t1)) \<subseteq> set (addrs t)" using addrs_del_subset [of "b + n" ?t1] by simp
  let ?hs = "(heaps s)(hp \<mapsto> h\<lparr>root := ptr (del (b + n) ?t1)\<rparr>)"
  have "delete_block d hp (b + n) (s\<lparr>nodes := m\<rparr>) = Inr (s\<lparr>nodes := m', heaps := ?hs\<rparr>)"
    using h(1-3) m'(1) by (simp add: delete_block_def on_nodes_def set_root_def)
  moreover have fb: "blocks_ok (unat lo) (unat hi) (xs @ ys)" "free_bytes (xs @ ys) = free_bytes (blocks t) - range_of b n"
    using blocks_ok_remove h(8) unfolding bl(1) by blast+
  moreover have "heap_inv hp lo hi (del (b + n) ?t1) (s\<lparr>nodes := m', heaps := ?hs\<rparr>)"
    using h m'(2) fb nodes_safe_mono [OF h(7) sub] distinct_addrs_del [of ?t1 "b + n"] heights_pos_del [of ?t1 "b + n"]
    by (auto simp: heap_inv_def bd)
  moreover have "\<forall>p. p \<notin> set (addrs t) \<longrightarrow> m' p = nodes s p" using m'(3) aa by (auto simp: m_def)
  ultimately show ?thesis
    using sub ld bd by (intro exI [of _ "del (b + n) ?t1"] exI [of _ m'] exI [of _ ?hs]) simp
qed

lemma heap_alloc_fits:
  assumes inv: "heap_inv hp lo hi t s" and fit: "fit_of (sz + sizeof_header) t = Some (a, b, n)"
    and sz: "unat sz + 8 < 2 ^ 32" and d: "length (addrs t) < d"
  shows "\<exists>t' m hs. heap_alloc malloc d hp False sz s = Inr (b + sizeof_header, put_header b sz (s\<lparr>nodes := m, heaps := hs\<rparr>)) \<and>
    heap_inv hp lo hi t' (s\<lparr>nodes := m, heaps := hs\<rparr>) \<and>
    free_bytes (blocks t') = free_bytes (blocks t) - range_of b (sz + sizeof_header) \<and>
    set (addrs t') \<subseteq> set (addrs t) \<and> length (addrs t') \<le> length (addrs t) \<and> (\<forall>p. p \<notin> set (addrs t) \<longrightarrow> m p = nodes s p) \<and>
    (sz + sizeof_header < n \<longrightarrow> hs = heaps s \<and> t' = set_block a (b + (sz + sizeof_header)) (n - (sz + sizeof_header)) t)"
proof -
  obtain h where h: "hp \<noteq> 0" "heaps s hp = Some h" "root h = ptr t" "tree_at (nodes s) t" "distinct (addrs t)" "heights_pos t"
    "nodes_safe (addrs t) (blocks t)" "blocks_ok (unat lo) (unat hi) (blocks t)" "unat hi < 2 ^ 32" "start_addr h = lo" "end_addr h = hi"
    using inv by (rule heap_invE) blast
  let ?k = "sz + sizeof_header"
  have e: "(a, b, n) \<in> set (entries_of t)" "?k \<le> n" using fit_of_entry [OF fit] by auto
  obtain xs ys where bl: "blocks t = xs @ (b, n) # ys" "\<And>b n. blocks (set_block a b n t) = xs @ (b, n) # ys"
    using blocks_set_block [OF h(5) e(1)] by blast
  obtain x where x: "a \<noteq> 0" "nodes s a = Some x" "avl_base x = b" "avl_size x = n" using tree_at_entry [OF h(4) e(1)] by blast
  have aa: "a \<in> set (addrs t)" using e(1) by (force simp flip: entries_of_projections)
  have dep: "depth t < d" using d depth_le_addrs [of t] by simp
  have find: "find_best_fit d (ptr t) ?k (nodes s) = Inr a" using find_best_fit_tree [OF h(4) dep, of ?k] fit by simp
  let ?m = "(nodes s)(a \<mapsto> x\<lparr>avl_base := b + ?k, avl_size := n - ?k\<rparr>)"
  show ?thesis
  proof (cases "?k = n")
    case True
    have up: "(nodes s)(a := map_option (\<lambda>x. x\<lparr>avl_base := b + n, avl_size := 0\<rparr>) (nodes s a)) = ?m"
      using x True by auto
    from delete_used_up [OF inv e(1) d, unfolded up]
    obtain t' m' hs where r: "delete_block d hp (b + n) (s\<lparr>nodes := ?m\<rparr>) = Inr (s\<lparr>nodes := m', heaps := hs\<rparr>)"
      "heap_inv hp lo hi t' (s\<lparr>nodes := m', heaps := hs\<rparr>)" "free_bytes (blocks t') = free_bytes (blocks t) - range_of b n"
      "set (addrs t') \<subseteq> set (addrs t)" "length (addrs t') \<le> length (addrs t)" "\<forall>p. p \<notin> set (addrs t) \<longrightarrow> m' p = nodes s p" by blast
    have "heap_alloc malloc d hp False sz s = Inr (b + sizeof_header, put_header b sz (s\<lparr>nodes := m', heaps := hs\<rparr>))"
      using h(1-3) find x True r(1) by (simp add: heap_alloc_def heap_alloc_fit_def delete_block_def)
    with r True show ?thesis by blast
  next
    case False
    then have lt: "?k < n" using e(2) by simp
    let ?t' = "set_block a (b + ?k) (n - ?k) t"
    note cut = blocks_ok_cut [OF h(8) [unfolded bl(1)] lt h(9), folded bl(1)]
    have "heap_alloc malloc d hp False sz s = Inr (b + sizeof_header, put_header b sz (s\<lparr>nodes := ?m, heaps := heaps s\<rparr>))"
      using h(1-3) find x False by (simp add: heap_alloc_def heap_alloc_fit_def eq_commute [of n])
    moreover have "heap_inv hp lo hi ?t' (s\<lparr>nodes := ?m, heaps := heaps s\<rparr>)"
      using h cut tree_at_set_block [OF h(4) x(2)] nodes_safe_mono [OF h(7) subset_refl] by (auto simp: heap_inv_def bl(2))
    moreover have "free_bytes (blocks ?t') = free_bytes (blocks t) - range_of b ?k"
      using cut(2) by (simp only: bl(2))
    moreover have "set (addrs ?t') \<subseteq> set (addrs t)" "length (addrs ?t') \<le> length (addrs t)" by simp_all
    moreover have "\<forall>p. p \<notin> set (addrs t) \<longrightarrow> ?m p = nodes s p" using aa by auto
    ultimately show ?thesis by (intro exI [of _ ?t'] exI [of _ ?m] exI [of _ "heaps s"]) simp
  qed
qed

section \<open>The walks of heap_free\<close>

lemma unat_end: "in_heap lo hi (b, n) \<Longrightarrow> hi < 2 ^ 32 \<Longrightarrow> unat (b + n) = unat b + unat n"
  using unat_cut [of n n b] by (auto simp: in_heap_def)

lemma blocks_ok_Node:
  "blocks_ok lo hi (blocks (Node l a b n h r)) \<longleftrightarrow> blocks_ok lo hi (blocks l) \<and> blocks_ok lo hi (blocks r) \<and> in_heap lo hi (b, n) \<and>
    (\<forall>x \<in> set (blocks l). apart x (b, n)) \<and> (\<forall>x \<in> set (blocks r). apart (b, n) x) \<and> (\<forall>x \<in> set (blocks l). \<forall>z \<in> set (blocks r). apart x z)"
  by (simp add: blocks_ok_append)

lemma overlaps_iff:
  assumes "in_heap lo hi (b, n)" "hi < 2 ^ 32" "sz \<noteq> 0" "unat base + unat sz < 2 ^ 32" "avl_base x = b" "avl_size x = n"
  shows "overlaps base sz x \<longleftrightarrow> range_of base sz \<inter> range_of b n \<noteq> {}"
proof -
  have u: "unat (b + n) = unat b + unat n" "unat (base + sz) = unat base + unat sz"
    using unat_end [OF assms(1,2)] unat_cut [of sz sz base] assms(4) by auto
  have "0 < unat sz" "0 < unat n" using assms(1,3) by (auto simp: in_heap_def unat_gt_0)
  then have "range_of base sz \<inter> range_of b n \<noteq> {} \<longleftrightarrow> unat base < unat b + unat n \<and> unat b < unat base + unat sz"
    by (auto simp: range_of_def)
  with \<open>0 < unat sz\<close> \<open>0 < unat n\<close> show ?thesis
    unfolding overlaps_def assms(5,6) word_less_nat_alt word_le_nat_alt u by linarith
qed

lemma overlap_walk_tree:
  assumes "hi < 2 ^ 32" "sz \<noteq> 0" "unat base + unat sz < 2 ^ 32"
  shows "tree_at m t \<Longrightarrow> blocks_ok lo hi (blocks t) \<Longrightarrow> depth t < d \<Longrightarrow>
    overlap_walk d (ptr t) base sz m = Inr (range_of base sz \<inter> free_bytes (blocks t) \<noteq> {})"
proof (induction t arbitrary: d)
  case Leaf
  then show ?case by (cases d) auto
next
  case (Node l a b n h r)
  obtain e where d: "d = Suc e" "depth l < e" "depth r < e" using Node.prems by (cases d) auto
  let ?R = "range_of base sz"
  have ok: "blocks_ok lo hi (blocks l)" "blocks_ok lo hi (blocks r)" "in_heap lo hi (b, n)" "\<forall>x \<in> set (blocks l). apart x (b, n)"
    "\<forall>x \<in> set (blocks r). apart (b, n) x" using Node.prems(2) unfolding blocks_ok_Node by blast+
  let ?x = "\<lparr>avl_base = b, avl_size = n, avl_height = h, avl_left = ptr l, avl_right = ptr r\<rparr>"
  have a: "a \<noteq> 0" "m a = Some ?x" and tr: "tree_at m l" "tree_at m r" using Node.prems by auto
  have ov: "overlaps base sz ?x \<longleftrightarrow> ?R \<inter> range_of b n \<noteq> {}" by (rule overlaps_iff [OF ok(3) assms]) simp_all
  have pos: "0 < unat sz" "0 < unat n" using assms(2) ok(3) by (auto simp: in_heap_def unat_gt_0)
  have far: "?R \<inter> free_bytes (blocks r) = {}" if "base < b" "?R \<inter> range_of b n = {}"
    using free_bytes_after [OF ok(5)] that pos by (fastforce simp: range_of_def word_less_nat_alt)
  have near: "?R \<inter> free_bytes (blocks l) = {}" if "\<not> base < b" "?R \<inter> range_of b n = {}"
    using free_bytes_before [OF ok(4)] that by (fastforce simp: range_of_def word_less_nat_alt)
  show ?case
    using a d(1) ov far near Node.IH(1) [OF tr(1) ok(1) d(2)] Node.IH(2) [OF tr(2) ok(2) d(3)]
    by (auto simp: Int_Un_distrib)
qed

text \<open>The neighbours of a range, with their nodes, as \<open>neighbor_walk\<close> finds them.\<close>

fun left_nb :: "u32 \<Rightarrow> atree \<Rightarrow> (u32 \<times> u32 \<times> u32) option" where
  "left_nb base Leaf = None"
| "left_nb base (Node l a b n h r) =
     (if b + n = base then Some (a, b, n) else left_nb base (if base < b then l else r))"

fun right_nb :: "u32 \<Rightarrow> u32 \<Rightarrow> atree \<Rightarrow> (u32 \<times> u32 \<times> u32) option" where
  "right_nb base e Leaf = None"
| "right_nb base e (Node l a b n h r) =
     (if b = e then Some (a, b, n) else right_nb base e (if base < b then l else r))"

abbreviation addr_of :: "(u32 \<times> u32 \<times> u32) option \<Rightarrow> u32 \<Rightarrow> u32" where
  "addr_of x y \<equiv> (case x of None \<Rightarrow> y | Some (a, _) \<Rightarrow> a)"

lemma left_nb_entry: "left_nb base t = Some (a, b, n) \<Longrightarrow> (a, b, n) \<in> set (entries_of t) \<and> b + n = base"
  by (induction t) (auto split: if_splits)

lemma right_nb_entry: "right_nb base e t = Some (a, b, n) \<Longrightarrow> (a, b, n) \<in> set (entries_of t) \<and> b = e"
  by (induction t) (auto split: if_splits)

lemma entry_block: "(a, b, n) \<in> set (entries_of t) \<Longrightarrow> (b, n) \<in> set (blocks t)"
  by (force simp flip: entries_of_projections(1))

lemma left_nb_None_after:
  assumes "blocks_ok lo hi (blocks t)" "hi < 2 ^ 32" "\<forall>x \<in> set (blocks t). unat base < unat (fst x)"
  shows "left_nb base t = None"
proof (rule ccontr)
  assume "left_nb base t \<noteq> None"
  then obtain a b n where "left_nb base t = Some (a, b, n)" by (cases "left_nb base t") auto
  from left_nb_entry [OF this] have e: "(b, n) \<in> set (blocks t)" "b + n = base" by (auto dest: entry_block)
  with assms(1) have "in_heap lo hi (b, n)" by (simp add: blocks_ok_def)
  from unat_end [OF this assms(2)] e assms(3) show False by force
qed

lemma right_nb_None_before:
  assumes "\<forall>x \<in> set (blocks t). unat (fst x) < unat e"
  shows "right_nb base e t = None"
  using right_nb_entry [of base e t] assms entry_block by (cases "right_nb base e t") fastforce+

lemma neighbor_walk_tree:
  assumes "hi < 2 ^ 32" "sz \<noteq> 0" "unat base + unat sz < 2 ^ 32"
  shows "tree_at m t \<Longrightarrow> blocks_ok lo hi (blocks t) \<Longrightarrow> range_of base sz \<inter> free_bytes (blocks t) = {} \<Longrightarrow> depth t < d \<Longrightarrow>
    L = 0 \<or> R = 0 \<Longrightarrow> L \<noteq> 0 \<longrightarrow> left_nb base t = None \<Longrightarrow> R \<noteq> 0 \<longrightarrow> right_nb base (base + sz) t = None \<Longrightarrow>
    neighbor_walk d (ptr t) base sz L R m = Inr (addr_of (left_nb base t) L, addr_of (right_nb base (base + sz) t) R)"
proof (induction t arbitrary: d L R)
  case Leaf
  then show ?case by (cases d) auto
next
  case (Node l a b n h r)
  obtain e where d: "d = Suc e" "depth l < e" "depth r < e" using Node.prems by (cases d) auto
  have ok: "blocks_ok lo hi (blocks l)" "blocks_ok lo hi (blocks r)" "in_heap lo hi (b, n)"
    "\<forall>x \<in> set (blocks l). apart x (b, n)" "\<forall>x \<in> set (blocks r). apart (b, n) x" using Node.prems(2) unfolding blocks_ok_Node by blast+
  have a: "a \<noteq> 0" "m a = Some \<lparr>avl_base = b, avl_size = n, avl_height = h, avl_left = ptr l, avl_right = ptr r\<rparr>"
    and tr: "tree_at m l" "tree_at m r" and dj: "range_of base sz \<inter> free_bytes (blocks l) = {}" "range_of base sz \<inter> free_bytes (blocks r) = {}"
    using Node.prems by auto
  have u: "unat (b + n) = unat b + unat n" "unat (base + sz) = unat base + unat sz"
    using unat_end [OF ok(3) assms(1)] unat_cut [of sz sz base] assms(3) by auto
  have pos: "0 < unat sz" "0 < unat n" using assms(2) ok(3) by (auto simp: in_heap_def unat_gt_0)
  have lr: "b + n = base \<Longrightarrow> \<not> base < b" "base + sz = b \<Longrightarrow> base < b" "base + sz = b \<Longrightarrow> b + n \<noteq> base"
    using u pos by (auto simp: word_less_nat_alt)
  have nl: "left_nb base r = None" if "b + n = base"
    using left_nb_None_after [OF ok(2) assms(1), of base] ok(5) u that by (auto simp: apart_def)
  have nr: "right_nb base (base + sz) l = None" if "base + sz = b"
    using right_nb_None_before [of l "base + sz" base] ok(4) that by (force simp: apart_def)
  note IHl = Node.IH(1) [OF tr(1) ok(1) dj(1) d(2)] and IHr = Node.IH(2) [OF tr(2) ok(2) dj(2) d(3)]
  consider "b + n = base" | "b + n \<noteq> base" "base + sz = b" | "b + n \<noteq> base" "base + sz \<noteq> b" by blast
  then show ?case
  proof cases
    case 1
    then have "L = 0" "\<not> base < b" using Node.prems(6) lr(1) by auto
    with 1 IHr [of a R] nl Node.prems(5,7) a d(1) lr(3) show ?thesis by (cases "R = 0") auto
  next
    case 2
    then have "R = 0" "base < b" using Node.prems(7) lr(2) by auto
    with 2 IHl [of L a] nr Node.prems(5,6) a d(1) show ?thesis by (cases "L = 0") (auto split: if_splits)
  next
    case 3
    with IHl [of L R] IHr [of L R] Node.prems(5-7) a d(1) show ?thesis by auto
  qed
qed

lemma left_nb_complete:
  assumes "hi < 2 ^ 32" "sz \<noteq> 0"
  shows "blocks_ok lo hi (blocks t) \<Longrightarrow> range_of base sz \<inter> free_bytes (blocks t) = {} \<Longrightarrow> left_nb base t = None \<Longrightarrow>
    (b, n) \<in> set (blocks t) \<Longrightarrow> unat b + unat n \<noteq> unat base"
proof (induction t)
  case Leaf
  then show ?case by simp
next
  case (Node l a b1 n1 h r)
  have ok: "blocks_ok lo hi (blocks l)" "blocks_ok lo hi (blocks r)" "in_heap lo hi (b1, n1)"
    "\<forall>x \<in> set (blocks l). apart x (b1, n1)" "\<forall>x \<in> set (blocks r). apart (b1, n1) x" using Node.prems(1) unfolding blocks_ok_Node by blast+
  have u: "unat (b1 + n1) = unat b1 + unat n1" using unat_end [OF ok(3) assms(1)] .
  have ne: "b1 + n1 \<noteq> base" using Node.prems(3) by (auto split: if_splits)
  have nb: "left_nb base (if base < b1 then l else r) = None" using Node.prems(3) ne by simp
  have dj: "range_of base sz \<inter> free_bytes (blocks l) = {}" "range_of base sz \<inter> free_bytes (blocks r) = {}" using Node.prems(2) by auto
  consider "(b, n) \<in> set (blocks l)" | "b = b1" "n = n1" | "(b, n) \<in> set (blocks r)" using Node.prems(4) by auto
  then show ?case
  proof cases
    case 1
    then have "unat b + unat n < unat b1" using ok(4) by (auto simp: apart_def)
    then show ?thesis using Node.IH(1) [OF ok(1) dj(1) _ 1] nb by (cases "base < b1") (auto simp: word_less_nat_alt)
  next
    case 2
    then show ?thesis using ne u by (metis unsigned_word_eqI)
  next
    case 3
    then have "unat b1 + unat n1 < unat b" using ok(5) by (auto simp: apart_def)
    then show ?thesis using Node.IH(2) [OF ok(2) dj(2) _ 3] nb by (cases "base < b1") (auto simp: word_less_nat_alt)
  qed
qed

lemma right_nb_complete:
  assumes "sz \<noteq> 0" "unat base + unat sz < 2 ^ 32"
  shows "blocks_ok lo hi (blocks t) \<Longrightarrow> range_of base sz \<inter> free_bytes (blocks t) = {} \<Longrightarrow> right_nb base (base + sz) t = None \<Longrightarrow>
    (b, n) \<in> set (blocks t) \<Longrightarrow> unat b \<noteq> unat base + unat sz"
proof (induction t)
  case Leaf
  then show ?case by simp
next
  case (Node l a b1 n1 h r)
  have ok: "blocks_ok lo hi (blocks l)" "blocks_ok lo hi (blocks r)" "in_heap lo hi (b1, n1)"
    "\<forall>x \<in> set (blocks l). apart x (b1, n1)" "\<forall>x \<in> set (blocks r). apart (b1, n1) x" using Node.prems(1) unfolding blocks_ok_Node by blast+
  have u: "unat (base + sz) = unat base + unat sz" using unat_cut [of sz sz base] assms(2) by auto
  have out: "unat base + unat sz \<le> unat b1 \<or> unat b1 + unat n1 \<le> unat base"
  proof (rule ccontr)
    assume "\<not> ?thesis"
    then have "max (unat base) (unat b1) \<in> range_of base sz \<inter> range_of b1 n1"
      using assms(1) ok(3) by (auto simp: range_of_def in_heap_def unat_gt_0)
    with Node.prems(2) show False by auto
  qed
  have ne: "b1 \<noteq> base + sz" using Node.prems(3) by (auto split: if_splits)
  have nb: "right_nb base (base + sz) (if base < b1 then l else r) = None" using Node.prems(3) ne by simp
  have dj: "range_of base sz \<inter> free_bytes (blocks l) = {}" "range_of base sz \<inter> free_bytes (blocks r) = {}" using Node.prems(2) by auto
  consider "(b, n) \<in> set (blocks l)" | "b = b1" "n = n1" | "(b, n) \<in> set (blocks r)" using Node.prems(4) by auto
  then show ?case
  proof cases
    case 1
    then have "unat b + unat n < unat b1" using ok(4) by (auto simp: apart_def)
    then show ?thesis using Node.IH(1) [OF ok(1) dj(1) _ 1] nb by (cases "base < b1") (auto simp: word_less_nat_alt)
  next
    case 2
    then show ?thesis using ne u by (metis unsigned_word_eqI)
  next
    case 3
    then have "unat b1 + unat n1 < unat b" using ok(5) by (auto simp: apart_def)
    then show ?thesis using Node.IH(2) [OF ok(2) dj(2) _ 3] nb out by (cases "base < b1") (auto simp: word_less_nat_alt)
  qed
qed

section \<open>Deletion keeps the blocks of the other nodes\<close>

text \<open>
  \<open>heap_free\<close> reads the node of the right neighbour after the left one has been deleted. Deleting
  a node with two children copies the successor's block into it, so this needs a proof: the only
  node whose block is overwritten is the one that held the deleted base.
\<close>

definition keeps :: "u32 set \<Rightarrow> node_store \<Rightarrow> node_store \<Rightarrow> bool" where
  "keeps A m m' \<longleftrightarrow> (\<forall>q \<in> A. \<forall>x. m q = Some x \<longrightarrow> (\<exists>y. m' q = Some y \<and> avl_base y = avl_base x \<and> avl_size y = avl_size x))"

lemma keeps_refl [simp]: "keeps A m m"
  by (simp add: keeps_def)

lemma keeps_trans: "keeps A m1 m2 \<Longrightarrow> keeps A m2 m3 \<Longrightarrow> keeps A m1 m3"
  by (fastforce simp: keeps_def)

lemma keeps_mono: "keeps A m m' \<Longrightarrow> B \<subseteq> A \<Longrightarrow> keeps B m m'"
  by (auto simp: keeps_def)

lemma keeps_update_at:
  assumes "update_at f p m = Inr m'" "p \<in> A \<Longrightarrow> \<forall>x. avl_base (f x) = avl_base x \<and> avl_size (f x) = avl_size x"
  shows "keeps A m m'"
  using assms by (auto simp: update_at_def keeps_def res_bind_eq_Inr deref_Inr)

lemma keeps_rotations:
  "rotate_right y m = Inr (p, m') \<Longrightarrow> keeps A m m'" "rotate_left y m = Inr (p, m') \<Longrightarrow> keeps A m m'"
  unfolding rotate_right_def rotate_left_def Let_def set_height_def
  by (elim res_bindE; clarsimp; (intro keeps_trans [OF keeps_update_at keeps_trans [OF keeps_update_at keeps_trans [OF keeps_update_at keeps_update_at]]];
      assumption?; simp))+

lemma keeps_double_rotations:
  "rotate_left_right y m = Inr (p, m') \<Longrightarrow> keeps A m m'" "rotate_right_left y m = Inr (p, m') \<Longrightarrow> keeps A m m'"
  unfolding rotate_left_right_def rotate_right_left_def
  by (elim res_bindE; clarsimp; elim res_bindE; (intro keeps_trans [OF keeps_rotations(1) keeps_trans [OF keeps_update_at keeps_rotations(2)]]
       keeps_trans [OF keeps_rotations(2) keeps_trans [OF keeps_update_at keeps_rotations(1)]]; assumption?; simp))+

lemma keeps_delete_rebalance:
  assumes "delete_rebalance node m = Inr (p, m')"
  shows "keeps A m m'"
proof -
  obtain m1 b n where m1: "update_height node m = Inr m1" "get_balance m1 node = Inr b" "deref m1 node = Inr n"
    and r: "rotate_right node m1 = Inr (p, m') \<or> rotate_left_right node m1 = Inr (p, m') \<or> rotate_left node m1 = Inr (p, m') \<or>
      rotate_right_left node m1 = Inr (p, m') \<or> m' = m1"
    using assms unfolding delete_rebalance_def by (elim res_bindE) (auto simp: res_bind_eq_Inr split: if_splits)
  have "keeps A m m1"
    using m1(1) unfolding update_height_def set_height_def by (elim res_bindE) (erule keeps_update_at, simp)
  moreover have "keeps A m1 m'" using r keeps_rotations keeps_double_rotations by auto
  ultimately show ?thesis by (rule keeps_trans)
qed

lemma keeps_rebuild:
  assumes "res_bind r (\<lambda>(l, m). res_bind (update_at (f l) a m) (delete_rebalance a)) = Inr (p, m')"
    and "\<And>l x. avl_base (f l x) = avl_base x \<and> avl_size (f l x) = avl_size x"
    and "\<And>l m1. r = Inr (l, m1) \<Longrightarrow> keeps A m m1"
  shows "keeps A m m'"
  using assms(1)
proof (elim res_bindE, clarsimp, elim res_bindE)
  fix l m1 m2
  assume "r = Inr (l, m1)" "update_at (f l) a m1 = Inr m2" "delete_rebalance a m2 = Inr (p, m')"
  then have "keeps A m m1" "keeps A m1 m2" "keeps A m2 m'"
    using assms(2,3) by (auto intro: keeps_update_at keeps_delete_rebalance)
  then show "keeps A m m'" by (blast intro: keeps_trans)
qed

text \<open>Deleting the smallest base unlinks its node, and overwrites no block at all.\<close>

lemma avl_delete_min_keeps:
  "tree_at m t \<Longrightarrow> bst t \<Longrightarrow> t \<noteq> Leaf \<Longrightarrow> avl_delete d (ptr t) (fst (min_block t)) m = Inr (p, m') \<Longrightarrow> keeps A m m'"
proof (induction t arbitrary: d p m')
  case Leaf
  then show ?case by simp
next
  case (Node l a b n h r)
  then obtain e where d: "d = Suc e" by (cases d) auto
  have a: "a \<noteq> 0" "m a = Some \<lparr>avl_base = b, avl_size = n, avl_height = h, avl_left = ptr l, avl_right = ptr r\<rparr>"
    and l: "tree_at m l" "bst l" using Node.prems by (auto simp: bst_Node)
  show ?case
  proof (cases "l = Leaf")
    case True
    then show ?thesis using Node.prems a d by (auto split: if_splits)
  next
    case False
    then have mb: "min_block (Node l a b n h r) = min_block l" by (cases l) auto
    have "min_block l \<in> set (blocks l)" using blocks_min_block [OF False] by auto
    then have "fst (min_block l) < b" using Node.prems(2) by (auto simp: bst_Node)
    then have "res_bind (avl_delete e (ptr l) (fst (min_block l)) m)
      (\<lambda>(l, m). res_bind (update_at (\<lambda>n. n\<lparr>avl_left := l\<rparr>) a m) (delete_rebalance a)) = Inr (p, m')"
      using Node.prems(4) a d mb by simp
    then show ?thesis by (rule keeps_rebuild) (use Node.IH(1) [OF l False] in auto)
  qed
qed

lemma avl_delete_keeps:
  "tree_at m t \<Longrightarrow> distinct (addrs t) \<Longrightarrow> bst t \<Longrightarrow> depth t < d \<Longrightarrow> avl_delete d (ptr t) base m = Inr (p, m') \<Longrightarrow>
   keeps {q. \<forall>b n. (q, b, n) \<in> set (entries_of t) \<longrightarrow> b \<noteq> base} m m'"
proof (induction t arbitrary: d p m')
  case Leaf
  then show ?case by (cases d) auto
next
  case (Node l a b n h r)
  then obtain e where d: "d = Suc e" "depth l < e" "depth r < e" by (cases d) auto
  let ?A = "{q. \<forall>b' n'. (q, b', n') \<in> set (entries_of (Node l a b n h r)) \<longrightarrow> b' \<noteq> base}"
  have a: "a \<noteq> 0" "m a = Some \<lparr>avl_base = b, avl_size = n, avl_height = h, avl_left = ptr l, avl_right = ptr r\<rparr>"
    and sub: "tree_at m l" "tree_at m r" "distinct (addrs l)" "distinct (addrs r)" "bst l" "bst r" "a \<notin> set (addrs r)"
    using Node.prems by (auto simp: bst_Node)
  consider "base < b" | "base > b" | "base = b" by fastforce
  then show ?case
  proof cases
    case 1
    then have "res_bind (avl_delete e (ptr l) base m)
      (\<lambda>(l, m). res_bind (update_at (\<lambda>n. n\<lparr>avl_left := l\<rparr>) a m) (delete_rebalance a)) = Inr (p, m')"
      using Node.prems(5) a d by simp
    then show ?thesis
      by (rule keeps_rebuild) (auto intro: keeps_mono [OF Node.IH(1) [OF sub(1,3,5) d(2)]])
  next
    case 2
    then have "\<not> base < b" by simp
    with 2 have "res_bind (avl_delete e (ptr r) base m)
      (\<lambda>(r, m). res_bind (update_at (\<lambda>n. n\<lparr>avl_right := r\<rparr>) a m) (delete_rebalance a)) = Inr (p, m')"
      using Node.prems(5) a d by simp
    then show ?thesis
      by (rule keeps_rebuild) (auto intro: keeps_mono [OF Node.IH(2) [OF sub(2,4,6) d(3)]])
  next
    case 3
    show ?thesis
    proof (cases "l = Leaf \<or> r = Leaf")
      case True
      then show ?thesis using Node.prems(5) 3 a d sub by (auto simp: ptr_0_iff split: if_splits)
    next
      case False
      obtain q x where q: "find_min_base e (ptr r) m = Inr q" "m q = Some x" "q \<noteq> 0" "(avl_base x, avl_size x) = min_block r"
        using find_min_base_tree [OF sub(2), of e] False d(3) by auto
      let ?m1 = "m(a \<mapsto> \<lparr>avl_base = avl_base x, avl_size = avl_size x, avl_height = h, avl_left = ptr l, avl_right = ptr r\<rparr>)"
      have tr: "tree_at ?m1 r" using sub(2,7) by simp
      have mb: "fst (min_block r) = avl_base x" using q(4) by (metis fst_conv)
      have "ptr l \<noteq> 0" "ptr r \<noteq> 0" using False sub by (auto simp: ptr_0_iff)
      then have "res_bind (avl_delete e (ptr r) (avl_base x) ?m1)
        (\<lambda>(r, m). res_bind (update_at (\<lambda>n. n\<lparr>avl_right := r\<rparr>) a m) (delete_rebalance a)) = Inr (p, m')"
        using Node.prems(5) 3 a d q by simp
      then have "keeps ?A ?m1 m'"
        by (rule keeps_rebuild) (use avl_delete_min_keeps [OF tr sub(6), of e] False mb in auto)
      moreover have "keeps ?A m ?m1" using 3 by (auto simp: keeps_def)
      ultimately show ?thesis by (rule keeps_trans [rotated])
    qed
  qed
qed

section \<open>Freeing\<close>

lemma delete_block_inv:
  assumes inv: "heap_inv hp lo hi t s" and e: "(a, b, n) \<in> set (entries_of t)" and d: "length (addrs t) < d"
  shows "\<exists>m hs. delete_block d hp b s = Inr (s\<lparr>nodes := m, heaps := hs\<rparr>) \<and> heap_inv hp lo hi (del b t) (s\<lparr>nodes := m, heaps := hs\<rparr>) \<and>
    free_bytes (blocks (del b t)) = free_bytes (blocks t) - range_of b n \<and>
    keeps {q. \<forall>b' n'. (q, b', n') \<in> set (entries_of t) \<longrightarrow> b' \<noteq> b} (nodes s) m"
proof -
  obtain h where h: "hp \<noteq> 0" "heaps s hp = Some h" "root h = ptr t" "tree_at (nodes s) t" "distinct (addrs t)" "heights_pos t"
    "nodes_safe (addrs t) (blocks t)" "blocks_ok (unat lo) (unat hi) (blocks t)" "bst t" "start_addr h = lo" "end_addr h = hi"
    using inv by (rule heap_invE) blast
  have dep: "depth t < d" using d depth_le_addrs [of t] by simp
  obtain m where m: "avl_delete d (ptr t) b (nodes s) = Inr (ptr (del b t), m)" "tree_at m (del b t)"
    using refines_Inr [OF avl_delete_refines [OF h(4-6) dep, of b]] by blast
  obtain xs ys where bl: "blocks t = xs @ (b, n) # ys" using entry_block [OF e] by (meson in_set_conv_decomp)
  have "filter (\<lambda>x. fst x \<noteq> b) xs = xs" "filter (\<lambda>x. fst x \<noteq> b) ys = ys"
    using h(9) by (force intro!: filter_keep simp: bst_def bl sorted_wrt_append)+
  then have bd: "blocks (del b t) = xs @ ys" using h(9) bl by (simp add: blocks_del)
  note rm = blocks_ok_remove [OF h(8) [unfolded bl], folded bl bd]
  let ?hs = "(heaps s)(hp \<mapsto> h\<lparr>root := ptr (del b t)\<rparr>)"
  have "delete_block d hp b s = Inr (s\<lparr>nodes := m, heaps := ?hs\<rparr>)"
    using h(1-3) m(1) by (simp add: delete_block_def on_nodes_def set_root_def)
  moreover have "heap_inv hp lo hi (del b t) (s\<lparr>nodes := m, heaps := ?hs\<rparr>)"
    using h m(2) rm nodes_safe_mono [OF h(7) addrs_del_subset] by (auto simp: heap_inv_def distinct_addrs_del heights_pos_del)
  ultimately show ?thesis using rm(2) avl_delete_keeps [OF h(4,5,9) dep m(1)] by blast
qed

text \<open>The tree and the block that \<open>heap_free\<close> has when it reaches its last statement.\<close>

definition merge_left :: "u32 \<Rightarrow> u32 \<Rightarrow> atree \<Rightarrow> u32 \<times> u32 \<times> atree" where
  "merge_left base sz t = (case left_nb base t of None \<Rightarrow> (base, sz, t) | Some (a, b, n) \<Rightarrow> (b, sz + n, del b t))"

definition merge_nbs :: "u32 \<Rightarrow> u32 \<Rightarrow> atree \<Rightarrow> u32 \<times> u32 \<times> atree" where
  "merge_nbs base sz t = (let (b1, n1, t1) = merge_left base sz t in
     case right_nb base (base + sz) t of None \<Rightarrow> (b1, n1, t1) | Some (a, b, n) \<Rightarrow> (b1, n1 + n, del b t1))"

text \<open>A range that is not free and may be freed.\<close>

definition freeable :: "nat \<Rightarrow> nat \<Rightarrow> u32 \<Rightarrow> u32 \<Rightarrow> (u32 \<times> u32) list \<Rightarrow> bool" where
  "freeable lo hi b n xs \<longleftrightarrow> in_heap lo hi (b, n) \<and> range_of b n \<inter> free_bytes xs = {}"

lemma block_in_heap: "blocks_ok lo hi xs \<Longrightarrow> x \<in> set xs \<Longrightarrow> in_heap lo hi x"
  by (simp add: blocks_ok_def)

lemma blocks_disjoint:
  assumes "blocks_ok lo hi xs" "(b, n) \<in> set xs" "(b', n') \<in> set xs" "b \<noteq> b'"
  shows "unat b + unat n < unat b' \<or> unat b' + unat n' < unat b"
proof -
  obtain ys zs where xs: "xs = ys @ (b, n) # zs" using assms(2) by (meson in_set_conv_decomp)
  then show ?thesis using assms(1,3,4) by (auto simp: blocks_ok_append apart_def)
qed

lemma free_bytes_member: "(b, n) \<in> set xs \<Longrightarrow> range_of b n \<subseteq> free_bytes xs"
  by (force simp: free_bytes_def)

lemma merge_left_values:
  assumes ok: "blocks_ok lo hi (blocks t)" "hi < 2 ^ 32" and f: "freeable lo hi base sz (blocks t)"
    and l: "left_nb base t = Some (a, b, n)" and fb: "free_bytes (blocks (del b t)) = free_bytes (blocks t) - range_of b n"
    and bst: "bst t"
  shows "unat b + unat n = unat base" "unat b + unat (sz + n) = unat base + unat sz" "unat (sz + n) = unat sz + unat n"
    and "freeable lo hi b (sz + n) (blocks (del b t))"
    and "range_of b (sz + n) \<union> free_bytes (blocks (del b t)) = range_of base sz \<union> free_bytes (blocks t)"
    and "\<forall>x \<in> set (blocks (del b t)). unat (fst x) + unat (snd x) \<noteq> unat b"
proof -
  have e: "(b, n) \<in> set (blocks t)" "b + n = base" using left_nb_entry [OF l] entry_block by auto
  have ih: "in_heap lo hi (b, n)" using block_in_heap [OF ok(1) e(1)] .
  show u: "unat b + unat n = unat base" using unat_end [OF ih ok(2)] e(2) by simp
  have fz: "in_heap lo hi (base, sz)" "range_of base sz \<inter> free_bytes (blocks t) = {}" using f by (auto simp: freeable_def)
  have lt: "unat sz + unat n < 2 ^ 32" using u fz(1) ok(2) by (auto simp: in_heap_def)
  then show un: "unat (sz + n) = unat sz + unat n" by (simp add: unat_word_ariths)
  then show "unat b + unat (sz + n) = unat base + unat sz" using u by simp
  have r: "range_of b (sz + n) = range_of b n \<union> range_of base sz" using u un by (auto simp: range_of_def)
  show "freeable lo hi b (sz + n) (blocks (del b t))"
    using fz fb u un ih by (auto simp: freeable_def in_heap_def r)
  show "range_of b (sz + n) \<union> free_bytes (blocks (del b t)) = range_of base sz \<union> free_bytes (blocks t)"
    using fb r free_bytes_member [OF e(1)] by auto
  show "\<forall>x \<in> set (blocks (del b t)). unat (fst x) + unat (snd x) \<noteq> unat b"
    using blocks_disjoint [OF ok(1) e(1)] block_in_heap [OF ok(1)] by (fastforce simp: blocks_del [OF bst] in_heap_def)
qed

lemma left_step_state:
  assumes inv: "heap_inv hp lo hi t s" and d: "length (addrs t) < d" and f: "freeable (unat lo) (unat hi) base sz (blocks t)"
    and ml: "merge_left base sz t = (b1, n1, t1)"
  obtains m hs where "left_step d hp (addr_of (left_nb base t) 0) base sz s = Inr (b1, n1, s\<lparr>nodes := m, heaps := hs\<rparr>)"
    "heap_inv hp lo hi t1 (s\<lparr>nodes := m, heaps := hs\<rparr>)" "unat b1 + unat n1 = unat base + unat sz"
    "freeable (unat lo) (unat hi) b1 n1 (blocks t1)" "range_of b1 n1 \<union> free_bytes (blocks t1) = range_of base sz \<union> free_bytes (blocks t)"
    "\<forall>x \<in> set (blocks t1). unat (fst x) + unat (snd x) \<noteq> unat b1" "set (addrs t1) \<subseteq> set (addrs t)" "length (addrs t1) \<le> length (addrs t)"
    "\<And>q b n. (q, b, n) \<in> set (entries_of t) \<Longrightarrow> unat base < unat b \<Longrightarrow>
       (b, n) \<in> set (blocks t1) \<and> (\<exists>y. m q = Some y \<and> avl_base y = b \<and> avl_size y = n)"
proof -
  obtain h where h: "tree_at (nodes s) t" "distinct (addrs t)" "blocks_ok (unat lo) (unat hi) (blocks t)" "bst t" "unat hi < 2 ^ 32"
    using inv by (rule heap_invE) blast
  show thesis
  proof (cases "left_nb base t")
    case None
    have "\<forall>x \<in> set (blocks t). unat (fst x) + unat (snd x) \<noteq> unat base"
      using left_nb_complete [OF h(5) _ h(3) _ None, of sz] f by (force simp: freeable_def in_heap_def)
    moreover have "b1 = base" "n1 = sz" "t1 = t" using ml None by (auto simp: merge_left_def)
    ultimately show thesis
      using that [where m = "nodes s" and hs = "heaps s"] inv f None entry_block tree_at_entry [OF h(1)] by (auto simp: left_step_def)
  next
    case (Some x)
    then obtain a b n where l: "left_nb base t = Some (a, b, n)" by (cases x) auto
    have e: "(a, b, n) \<in> set (entries_of t)" using left_nb_entry [OF l] by simp
    obtain x where x: "a \<noteq> 0" "nodes s a = Some x" "avl_base x = b" "avl_size x = n" using tree_at_entry [OF h(1) e] by blast
    obtain m hs where m: "delete_block d hp b s = Inr (s\<lparr>nodes := m, heaps := hs\<rparr>)" "heap_inv hp lo hi (del b t) (s\<lparr>nodes := m, heaps := hs\<rparr>)"
      "free_bytes (blocks (del b t)) = free_bytes (blocks t) - range_of b n"
      "keeps {q. \<forall>b' n'. (q, b', n') \<in> set (entries_of t) \<longrightarrow> b' \<noteq> b} (nodes s) m"
      using delete_block_inv [OF inv e d] by blast
    note v = merge_left_values [OF h(3,5) f l m(3) h(4)]
    have r: "b1 = b" "n1 = sz + n" "t1 = del b t" using ml l by (auto simp: merge_left_def)
    have kp: "(b', n') \<in> set (blocks (del b t)) \<and> (\<exists>y. m q = Some y \<and> avl_base y = b' \<and> avl_size y = n')"
      if q: "(q, b', n') \<in> set (entries_of t)" "unat base < unat b'" for q b' n'
    proof -
      have ne: "b' \<noteq> b" using q(2) v(1) by auto
      have "b'' = b'" if "(q, b'', n'') \<in> set (entries_of t)" for b'' n''
        using tree_at_entry [OF h(1) that] tree_at_entry [OF h(1) q(1)] by auto
      with ne have "q \<in> {q. \<forall>b' n'. (q, b', n') \<in> set (entries_of t) \<longrightarrow> b' \<noteq> b}" by blast
      then show ?thesis
        using m(4) tree_at_entry [OF h(1) q(1)] ne entry_block [OF q(1)] unfolding keeps_def by (fastforce simp: blocks_del [OF h(4)])
    qed
    have "left_step d hp (addr_of (left_nb base t) 0) base sz s = Inr (b1, n1, s\<lparr>nodes := m, heaps := hs\<rparr>)"
      using l x m(1) r by (simp add: left_step_def)
    then show thesis
      using that [where m = m and hs = hs] m(2) v(2,4,5,6) kp addrs_del_subset [of b t] length_addrs_del [OF h(4)] unfolding r by blast
  qed
qed

lemma merge_right_values:
  assumes ok: "blocks_ok lo hi (blocks t)" "hi < 2 ^ 32" and f: "freeable lo hi b1 n1 (blocks t)"
    and e: "(b, n) \<in> set (blocks t)" "unat b = unat b1 + unat n1"
    and fb: "free_bytes (blocks (del b t)) = free_bytes (blocks t) - range_of b n" and bst: "bst t"
  shows "freeable lo hi b1 (n1 + n) (blocks (del b t))"
    and "range_of b1 (n1 + n) \<union> free_bytes (blocks (del b t)) = range_of b1 n1 \<union> free_bytes (blocks t)"
    and "\<forall>x \<in> set (blocks (del b t)). unat (fst x) \<noteq> unat b1 + unat (n1 + n)"
proof -
  have ih: "in_heap lo hi (b, n)" using block_in_heap [OF ok(1) e(1)] .
  have fz: "in_heap lo hi (b1, n1)" "range_of b1 n1 \<inter> free_bytes (blocks t) = {}" using f by (auto simp: freeable_def)
  have "unat n1 + unat n < 2 ^ 32" using e(2) ih ok(2) by (auto simp: in_heap_def)
  then have un: "unat (n1 + n) = unat n1 + unat n" by (simp add: unat_word_ariths)
  have r: "range_of b1 (n1 + n) = range_of b1 n1 \<union> range_of b n" using e(2) un by (auto simp: range_of_def)
  show "freeable lo hi b1 (n1 + n) (blocks (del b t))"
    using fz fb e(2) un ih by (auto simp: freeable_def in_heap_def r)
  show "range_of b1 (n1 + n) \<union> free_bytes (blocks (del b t)) = range_of b1 n1 \<union> free_bytes (blocks t)"
    using fb r free_bytes_member [OF e(1)] by auto
  show "\<forall>x \<in> set (blocks (del b t)). unat (fst x) \<noteq> unat b1 + unat (n1 + n)"
    using blocks_disjoint [OF ok(1) e(1)] e(2) un by (fastforce simp: blocks_del [OF bst])
qed

text \<open>Both merges: the state in which \<open>heap_free\<close> inserts the block.\<close>

lemma right_step_state:
  assumes inv: "heap_inv hp lo hi t s" and d: "length (addrs t) < d" and f: "freeable (unat lo) (unat hi) base sz (blocks t)"
    and bl: "(b, n) \<in> set (blocks t)" "unat b = unat base + unat sz" and y: "a \<noteq> 0" "nodes s a = Some y" "avl_base y = b" "avl_size y = n"
  obtains m hs where "right_step d hp a sz s = Inr (sz + n, s\<lparr>nodes := m, heaps := hs\<rparr>)" "heap_inv hp lo hi (del b t) (s\<lparr>nodes := m, heaps := hs\<rparr>)"
    "freeable (unat lo) (unat hi) base (sz + n) (blocks (del b t))"
    "range_of base (sz + n) \<union> free_bytes (blocks (del b t)) = range_of base sz \<union> free_bytes (blocks t)"
    "\<forall>x \<in> set (blocks (del b t)). unat (fst x) \<noteq> unat base + unat (sz + n)" "set (blocks (del b t)) \<subseteq> set (blocks t)"
    "set (addrs (del b t)) \<subseteq> set (addrs t)" "length (addrs (del b t)) \<le> length (addrs t)"
proof -
  obtain h where h: "blocks_ok (unat lo) (unat hi) (blocks t)" "bst t" "unat hi < 2 ^ 32" using inv by (rule heap_invE) blast
  obtain a' where e: "(a', b, n) \<in> set (entries_of t)" using bl by (auto simp flip: entries_of_projections(1))
  obtain m hs where D: "delete_block d hp b s = Inr (s\<lparr>nodes := m, heaps := hs\<rparr>)" "heap_inv hp lo hi (del b t) (s\<lparr>nodes := m, heaps := hs\<rparr>)"
    "free_bytes (blocks (del b t)) = free_bytes (blocks t) - range_of b n" using delete_block_inv [OF inv e d] by blast
  have "right_step d hp a sz s = Inr (sz + n, s\<lparr>nodes := m, heaps := hs\<rparr>)" using y D(1) by (simp add: right_step_def)
  moreover have "set (blocks (del b t)) \<subseteq> set (blocks t)" using h(2) by (auto simp: blocks_del)
  ultimately show thesis
    using that D(2) merge_right_values [OF h(1,3) f bl D(3) h(2)] addrs_del_subset [of b t] length_addrs_del [OF h(2), of b] by blast
qed

lemma merge_state:
  assumes inv: "heap_inv hp lo hi t s" and d: "length (addrs t) < d" and f: "freeable (unat lo) (unat hi) base sz (blocks t)"
    and mg: "merge_nbs base sz t = (b2, n2, t2)"
  obtains m hs n' s' where
    "left_step d hp (addr_of (left_nb base t) 0) base sz s = Inr (b2, n', s')"
    "right_step d hp (addr_of (right_nb base (base + sz) t) 0) n' s' = Inr (n2, s\<lparr>nodes := m, heaps := hs\<rparr>)"
    "heap_inv hp lo hi t2 (s\<lparr>nodes := m, heaps := hs\<rparr>)" "freeable (unat lo) (unat hi) b2 n2 (blocks t2)"
    "range_of b2 n2 \<union> free_bytes (blocks t2) = range_of base sz \<union> free_bytes (blocks t)"
    "\<forall>x \<in> set (blocks t2). unat (fst x) + unat (snd x) \<noteq> unat b2" "\<forall>x \<in> set (blocks t2). unat (fst x) \<noteq> unat b2 + unat n2"
    "set (addrs t2) \<subseteq> set (addrs t)" "length (addrs t2) \<le> length (addrs t)"
proof -
  obtain b1 n1 t1 where ml: "merge_left base sz t = (b1, n1, t1)" by (cases "merge_left base sz t") auto
  obtain m hs where L: "left_step d hp (addr_of (left_nb base t) 0) base sz s = Inr (b1, n1, s\<lparr>nodes := m, heaps := hs\<rparr>)"
    and inv1: "heap_inv hp lo hi t1 (s\<lparr>nodes := m, heaps := hs\<rparr>)" and ends: "unat b1 + unat n1 = unat base + unat sz"
    and f1: "freeable (unat lo) (unat hi) b1 n1 (blocks t1)" and un1: "range_of b1 n1 \<union> free_bytes (blocks t1) = range_of base sz \<union> free_bytes (blocks t)"
    and nl: "\<forall>x \<in> set (blocks t1). unat (fst x) + unat (snd x) \<noteq> unat b1" and ad: "set (addrs t1) \<subseteq> set (addrs t)" "length (addrs t1) \<le> length (addrs t)"
    and kp: "\<And>q b n. (q, b, n) \<in> set (entries_of t) \<Longrightarrow> unat base < unat b \<Longrightarrow>
       (b, n) \<in> set (blocks t1) \<and> (\<exists>y. m q = Some y \<and> avl_base y = b \<and> avl_size y = n)"
    by (rule left_step_state [OF inv d f ml]) blast
  have h1: "unat hi < 2 ^ 32" using inv1 by (rule heap_invE)
  obtain h where h: "tree_at (nodes s) t" "blocks_ok (unat lo) (unat hi) (blocks t)" "bst t" using inv by (rule heap_invE) blast
  have z: "sz \<noteq> 0" "range_of base sz \<inter> free_bytes (blocks t) = {}" and "unat base + unat sz \<le> unat hi"
    using f by (auto simp: freeable_def in_heap_def)
  with h1 have z2: "unat base + unat sz < 2 ^ 32" by linarith
  have ue: "unat (base + sz) = unat base + unat sz" using unat_cut [of sz sz base] z2 by auto
  let ?s1 = "s\<lparr>nodes := m, heaps := hs\<rparr>"
  show thesis
  proof (cases "right_nb base (base + sz) t")
    case None
    have "\<forall>x \<in> set (blocks t1). unat (fst x) \<noteq> unat b1 + unat n1"
    proof
      fix x assume "x \<in> set (blocks t1)"
      then have "x \<in> set (blocks t)"
        using ml h(3) by (auto simp: merge_left_def blocks_del split: option.splits)
      then show "unat (fst x) \<noteq> unat b1 + unat n1"
        using right_nb_complete [OF z(1) z2 h(2) z(2) None, of "fst x" "snd x"] ends by simp
    qed
    moreover have "b2 = b1" "n2 = n1" "t2 = t1" using mg ml None by (auto simp: merge_nbs_def)
    ultimately show thesis
      using that [where s' = ?s1 and n' = n1 and m = m and hs = hs] L inv1 f1 un1 nl ad None by (auto simp: right_step_def)
  next
    case (Some x)
    then obtain a b n where r: "right_nb base (base + sz) t = Some (a, b, n)" by (cases x) auto
    have e: "(a, b, n) \<in> set (entries_of t)" "unat b = unat b1 + unat n1" using right_nb_entry [OF r] ends ue by auto
    have lt: "unat base < unat b" using e(2) ends z(1) by (simp add: unat_gt_0)
    obtain y where y: "m a = Some y" "avl_base y = b" "avl_size y = n" and bl: "(b, n) \<in> set (blocks t1)" using kp [OF e(1) lt] by blast
    have a0: "a \<noteq> 0" using tree_at_entry [OF h(1) e(1)] by blast
    obtain a' where e': "(a', b, n) \<in> set (entries_of t1)" using bl by (auto simp flip: entries_of_projections(1))
    obtain m2 hs2 where R: "right_step d hp a n1 ?s1 = Inr (n1 + n, ?s1\<lparr>nodes := m2, heaps := hs2\<rparr>)"
      "heap_inv hp lo hi (del b t1) (?s1\<lparr>nodes := m2, heaps := hs2\<rparr>)" "freeable (unat lo) (unat hi) b1 (n1 + n) (blocks (del b t1))"
      "range_of b1 (n1 + n) \<union> free_bytes (blocks (del b t1)) = range_of b1 n1 \<union> free_bytes (blocks t1)"
      "\<forall>x \<in> set (blocks (del b t1)). unat (fst x) \<noteq> unat b1 + unat (n1 + n)" "set (blocks (del b t1)) \<subseteq> set (blocks t1)"
      "set (addrs (del b t1)) \<subseteq> set (addrs t1)" "length (addrs (del b t1)) \<le> length (addrs t1)"
      by (rule right_step_state [OF inv1 order.strict_trans1 [OF ad(2) d] f1 bl e(2) a0]) (use y in simp_all)
    have "b2 = b1" "n2 = n1 + n" "t2 = del b t1" using mg ml r by (auto simp: merge_nbs_def)
    moreover have "\<forall>x \<in> set (blocks (del b t1)). unat (fst x) + unat (snd x) \<noteq> unat b1" using nl R(6) by blast
    ultimately show thesis
      using that [where s' = ?s1 and n' = n1 and m = m2 and hs = hs2] L R un1 ad r by auto
  qed
qed

text \<open>The last statement of \<open>heap_free\<close>: the block is inserted, with a node from the heap itself.\<close>

lemma sorted_apart_insert:
  "sorted_wrt apart xs \<Longrightarrow> \<forall>x \<in> set xs. apart x y \<or> apart y x \<Longrightarrow> sorted_wrt apart (ins_block y xs)"
proof (induction xs)
  case Nil
  then show ?case by simp
next
  case (Cons x xs)
  have xy: "apart x y \<or> apart y x" using Cons.prems(2) by simp
  show ?case
  proof (cases "fst y < fst x")
    case True
    then have a: "apart y x" using xy by (auto simp: apart_def word_less_nat_alt)
    have "apart y z" if "z \<in> set xs" for z using a Cons.prems(1) that by (fastforce simp: apart_def)
    then show ?thesis using True a Cons.prems by simp
  next
    case False
    then have "apart x y" using xy by (auto simp: apart_def word_less_nat_alt)
    then show ?thesis using False Cons by (auto dest: set_ins_blockD)
  qed
qed

lemma blocks_ok_insert:
  assumes ok: "blocks_ok lo hi xs" and f: "freeable lo hi b n xs"
    and ends: "\<forall>x \<in> set xs. unat (fst x) + unat (snd x) \<noteq> unat b" "\<forall>x \<in> set xs. unat (fst x) \<noteq> unat b + unat n"
  shows "blocks_ok lo hi (ins_block (b, n) xs)" "free_bytes (ins_block (b, n) xs) = range_of b n \<union> free_bytes xs"
    and "b \<notin> fst ` set xs"
proof -
  have ap: "apart x (b, n) \<or> apart (b, n) x" if x: "x \<in> set xs" for x
  proof (rule ccontr)
    assume "\<not> ?thesis"
    then have "max (unat b) (unat (fst x)) \<in> range_of b n \<inter> range_of (fst x) (snd x)"
      using block_in_heap [OF ok x] f ends x by (fastforce simp: apart_def range_of_def freeable_def in_heap_def)
    then show False using f free_bytes_member [of "fst x" "snd x" xs] x by (auto simp: freeable_def)
  qed
  have pos: "0 < unat n" using f by (simp add: freeable_def in_heap_def)
  show nb: "b \<notin> fst ` set xs" using ap pos by (fastforce simp: apart_def)
  then have set: "set (ins_block (b, n) xs) = insert (b, n) (set xs)" by (rule set_ins_block [of "(b, n)", simplified])
  show "free_bytes (ins_block (b, n) xs) = range_of b n \<union> free_bytes xs" by (simp add: free_bytes_def set)
  show "blocks_ok lo hi (ins_block (b, n) xs)"
    using ok f sorted_apart_insert [of xs "(b, n)"] ap by (auto simp: blocks_ok_def set freeable_def)
qed



lemma unat_small_word: "unat (28 :: u32) = 28" "unat (20 :: u32) = 20" "unat (8 :: u32) = 8"
  by simp_all






text \<open>Everything \<open>heap_free\<close> does before its last statement, which inserts the merged block.\<close>

lemma set_root_max:
  assumes "set_root hp r s = Inr s'" "heaps s hp = Some h"
  shows "\<exists>h'. heaps s' hp = Some h' \<and> max_size h' = max_size h"
  using assms by (auto simp: set_root_def update_at_def deref_def split: if_splits)

lemma delete_block_max:
  assumes "delete_block d hp b s = Inr s'" "heaps s hp = Some h"
  shows "\<exists>h'. heaps s' hp = Some h' \<and> max_size h' = max_size h"
  using assms unfolding delete_block_def
  by (auto simp: on_nodes_def dest!: set_root_max elim!: res_bindE split: prod.splits)

lemma merge_steps_max:
  assumes "left_step d hp l base sz s = Inr (b, n, s1)" "right_step d hp r n s1 = Inr (n', s2)" "heaps s hp = Some h"
  shows "\<exists>h'. heaps s2 hp = Some h' \<and> max_size h' = max_size h"
proof -
  obtain h1 where h1: "heaps s1 hp = Some h1" "max_size h1 = max_size h"
    using assms(1,3) by (auto simp: left_step_def elim!: res_bindE dest: delete_block_max split: if_splits)
  show ?thesis using assms(2) h1 by (auto simp: right_step_def elim!: res_bindE dest: delete_block_max split: if_splits)
qed

lemma heap_free_inserts:
  assumes inv: "heap_inv hp lo hi t s" and d: "length (addrs t) < d"
    and f: "freeable (unat lo) (unat hi) base sz (blocks t)" and safe: "\<forall>a \<in> set (addrs t). range_of a sizeof_avl_node \<inter> range_of base sz = {}"
    and mg: "merge_nbs base sz t = (b2, n2, t2)" and hd: "heaps s hp = Some h0"
  obtains m hs h2 where
    "heap_free malloc d hp base sz s = res_bind (avl_insert malloc d (ptr t2) b2 n2 (s\<lparr>nodes := m, heaps := hs\<rparr>)) (\<lambda>(r, s). set_root hp r s)"
    "heap_inv hp lo hi t2 (s\<lparr>nodes := m, heaps := hs\<rparr>)" "freeable (unat lo) (unat hi) b2 n2 (blocks t2)"
    "range_of b2 n2 \<union> free_bytes (blocks t2) = range_of base sz \<union> free_bytes (blocks t)"
    "\<forall>x \<in> set (blocks t2). unat (fst x) + unat (snd x) \<noteq> unat b2" "\<forall>x \<in> set (blocks t2). unat (fst x) \<noteq> unat b2 + unat n2"
    "length (addrs t2) \<le> length (addrs t)" "\<forall>a \<in> set (addrs t2). range_of a sizeof_avl_node \<inter> range_of b2 n2 = {}"
    "hs hp = Some h2" "max_size h2 = max_size h0"
proof -
  obtain h where h: "hp \<noteq> 0" "heaps s hp = Some h" "root h = ptr t" "tree_at (nodes s) t" "nodes_safe (addrs t) (blocks t)"
    "blocks_ok (unat lo) (unat hi) (blocks t)" "unat hi < 2 ^ 32" "start_addr h = lo" "end_addr h = hi"
    using inv by (rule heap_invE) blast
  have z: "sz \<noteq> 0" "range_of base sz \<inter> free_bytes (blocks t) = {}" "unat lo \<le> unat base" "unat base + unat sz \<le> unat hi"
    using f by (auto simp: freeable_def in_heap_def)
  then have z2: "unat base + unat sz < 2 ^ 32" using h(7) by linarith
  then have "unat (base + sz) = unat base + unat sz" using unat_cut [of sz sz base] by auto
  then have valid: "\<not> (sz = 0 \<or> base < start_addr h \<or> base + sz > end_addr h)"
    using z h(8,9) by (simp add: word_less_nat_alt)
  have dep: "depth t < d" using d depth_le_addrs [of t] by auto
  note walks = overlap_walk_tree [OF h(7) z(1) z2 h(4,6) dep] neighbor_walk_tree [OF h(7) z(1) z2 h(4,6) z(2) dep, of 0 0]
  obtain m hs n' s' where M: "left_step d hp (addr_of (left_nb base t) 0) base sz s = Inr (b2, n', s')"
    "right_step d hp (addr_of (right_nb base (base + sz) t) 0) n' s' = Inr (n2, s\<lparr>nodes := m, heaps := hs\<rparr>)"
    "heap_inv hp lo hi t2 (s\<lparr>nodes := m, heaps := hs\<rparr>)" "freeable (unat lo) (unat hi) b2 n2 (blocks t2)"
    and un: "range_of b2 n2 \<union> free_bytes (blocks t2) = range_of base sz \<union> free_bytes (blocks t)"
    and en: "\<forall>x \<in> set (blocks t2). unat (fst x) + unat (snd x) \<noteq> unat b2" "\<forall>x \<in> set (blocks t2). unat (fst x) \<noteq> unat b2 + unat n2"
    and ad: "set (addrs t2) \<subseteq> set (addrs t)" "length (addrs t2) \<le> length (addrs t)"
    by (rule merge_state [OF inv d f mg]) blast
  have safe2: "\<forall>a \<in> set (addrs t2). range_of a sizeof_avl_node \<inter> range_of b2 n2 = {}"
    using safe h(5) ad(1) un unfolding nodes_safe_def by blast
  obtain h2 where h2: "hs hp = Some h2" "root h2 = ptr t2" using M(3) by (auto simp: heap_inv_def)
  have "max_size h2 = max_size h0" using merge_steps_max [OF M(1,2) hd] h2(1) by simp
  moreover have "heap_free malloc d hp base sz s = res_bind (avl_insert malloc d (ptr t2) b2 n2 (s\<lparr>nodes := m, heaps := hs\<rparr>)) (\<lambda>(r, s). set_root hp r s)"
    using h(1-3) valid walks z(2) M(1,2) h2 by (simp add: heap_free_def del: avl_insert.simps overlap_walk.simps neighbor_walk.simps)
  ultimately show thesis using that M(3,4) un en ad(2) safe2 h2(1) by blast
qed






section \<open>A heap to evaluate on\<close>

text \<open>
  The kernel heap as \<open>vm_initialize\<close> sets it up, before its first allocation: one free block of 1 MB at
  \<open>KHEAP_START\<close>, the heap structure and the root of the tree in the memory after the kernel.
\<close>

definition vm_empty :: vm where
  "vm_empty = \<lparr>vm_pm = pm_boot 0x2000, nodes = Map.empty, headers = Map.empty, heaps = Map.empty, page_tables = Map.empty,
     page_dirs = Map.empty, kheap = 0, kernel_pd = 0, current_pd = 0, cr0 = 0, cr3 = 0, phys_mem = (\<lambda>_. 0), vm_out = []\<rparr>"

definition kheap_boot :: "vm res" where
  "kheap_boot =
     res_bind (heap_init (ikmalloc 40) 40 KHEAP_START (KHEAP_START + KHEAP_INITIAL_SIZE) KHEAP_MAX_SIZE False False vm_empty) (\<lambda>(hp, s).
     Inr (s\<lparr>kheap := hp\<rparr>))"

definition kheap_tree :: atree where
  "kheap_tree = Node Leaf 0x100014 KHEAP_START KHEAP_INITIAL_SIZE 1 Leaf"

definition kheap_s0 :: vm where
  "kheap_s0 = vm_empty\<lparr>vm_pm := (vm_pm vm_empty)\<lparr>placement_address := 0x100028\<rparr>,
     nodes := [0x100014 \<mapsto> \<lparr>avl_base = KHEAP_START, avl_size = KHEAP_INITIAL_SIZE, avl_height = 1, avl_left = 0, avl_right = 0\<rparr>],
     heaps := [0x100000 \<mapsto> \<lparr>root = 0x100014, start_addr = KHEAP_START, end_addr = KHEAP_START + KHEAP_INITIAL_SIZE,
       max_size = KHEAP_MAX_SIZE, supervisor = False, readonly = False\<rparr>], kheap := 0x100000\<rparr>"

lemma pm_boot_placement: "placement_alloc 20 False (pm_boot 0x2000) = (0x100000, (pm_boot 0x2000)\<lparr>placement_address := 0x100014\<rparr>)"
  "placement_alloc 20 False ((pm_boot 0x2000)\<lparr>placement_address := 0x100014\<rparr>) = (0x100014, (pm_boot 0x2000)\<lparr>placement_address := 0x100028\<rparr>)"
  by code_simp+

lemma ikmalloc_placement:
  "kheap s = 0 \<Longrightarrow> 0 < d \<Longrightarrow> ikmalloc d sz page_align want_paddr s =
     (let (p, pm) = placement_alloc sz page_align (vm_pm s) in Inr (p, if want_paddr then Some p else None, s\<lparr>vm_pm := pm\<rparr>))"
  by (cases d) (auto simp: ikmalloc_body_def)

lemma avl_insert_NULL: "0 < d \<Longrightarrow> sz \<noteq> 0 \<Longrightarrow> avl_insert malloc d 0 base sz s = create_node malloc base sz s"
  by (cases d) auto

lemma kheap_boot_s0: "kheap_boot = Inr kheap_s0"
proof -
  have a: "ALIGN KHEAP_START PAGE_SIZE = KHEAP_START" "ALIGN (KHEAP_START + KHEAP_INITIAL_SIZE) PAGE_SIZE = KHEAP_START + KHEAP_INITIAL_SIZE"
    by code_simp+
  show ?thesis
    unfolding kheap_boot_def heap_init_def a
    by (simp add: ikmalloc_placement avl_insert_NULL pm_boot_placement create_node_def kheap_s0_def vm_empty_def Let_def)
qed

lemma kheap_s0_inv: "heap_inv (kheap kheap_s0) KHEAP_START (KHEAP_START + KHEAP_INITIAL_SIZE) kheap_tree kheap_s0"
  by (simp add: heap_inv_def kheap_s0_def kheap_tree_def nodes_safe_def range_of_def blocks_ok_def in_heap_def)

definition state_of :: "('a \<times> vm) res \<Rightarrow> vm" where
  "state_of r = (case r of Inr (_, s) \<Rightarrow> s | Inl _ \<Rightarrow> vm_empty)"

text \<open>One and two blocks of 100 bytes are allocated, then the first is freed.\<close>

definition kheap_s1 :: vm where
  "kheap_s1 = state_of (kmalloc 40 100 kheap_s0)"

definition kheap_t1 :: atree where
  "kheap_t1 = Node Leaf 0x100014 0xC000006C 0xFFF94 1 Leaf"

definition kheap_s2 :: vm where
  "kheap_s2 = state_of (res_bind (kmalloc 40 100 kheap_s0) (\<lambda>(_, s). kmalloc 40 100 s))"

definition kheap_t2 :: atree where
  "kheap_t2 = Node Leaf 0x100014 0xC00000D8 0xFFF28 1 Leaf"



lemma kheap_s1_facts:
  "kmalloc 40 100 kheap_s0 = Inr (0xC0000008, kheap_s1)"
  "nodes kheap_s1 0x100014 = Some \<lparr>avl_base = 0xC000006C, avl_size = 0xFFF94, avl_height = 1, avl_left = 0, avl_right = 0\<rparr>"
  "heaps kheap_s1 0x100000 = Some \<lparr>root = 0x100014, start_addr = KHEAP_START, end_addr = KHEAP_START + KHEAP_INITIAL_SIZE,
       max_size = KHEAP_MAX_SIZE, supervisor = False, readonly = False\<rparr>"
  "kheap kheap_s1 = 0x100000"
  "headers kheap_s1 0xC0000000 = Some \<lparr>magic = HEAP_MAGIC, block_size = 100\<rparr>"
proof -
  have "case kmalloc 40 100 kheap_s0 of Inr (p, s) \<Rightarrow> p = 0xC0000008 | Inl _ \<Rightarrow> False" by code_simp
  then show "kmalloc 40 100 kheap_s0 = Inr (0xC0000008, kheap_s1)" by (auto simp: kheap_s1_def state_of_def split: sum.splits)
qed (code_simp+)

lemma kheap_s2_facts:
  "nodes kheap_s2 0x100014 = Some \<lparr>avl_base = 0xC00000D8, avl_size = 0xFFF28, avl_height = 1, avl_left = 0, avl_right = 0\<rparr>"
  "heaps kheap_s2 0x100000 = Some \<lparr>root = 0x100014, start_addr = KHEAP_START, end_addr = KHEAP_START + KHEAP_INITIAL_SIZE,
       max_size = KHEAP_MAX_SIZE, supervisor = False, readonly = False\<rparr>"
  "kheap kheap_s2 = 0x100000"
  "headers kheap_s2 0xC0000000 = Some \<lparr>magic = HEAP_MAGIC, block_size = 100\<rparr>"
  by code_simp+


lemma kheap_s1_inv: "heap_inv (kheap kheap_s1) KHEAP_START (KHEAP_START + KHEAP_INITIAL_SIZE) kheap_t1 kheap_s1"
  using kheap_s1_facts by (simp add: heap_inv_def kheap_t1_def nodes_safe_def range_of_def blocks_ok_def in_heap_def)



section \<open>Properties\<close>

lemma heap_alloc_fit_max:
  assumes "heap_alloc_fit malloc d hp False sz a s = Inr (p, s')" "heaps s hp = Some h"
  shows "\<exists>h'. heaps s' hp = Some h' \<and> max_size h' = max_size h"
  using assms unfolding heap_alloc_fit_def Let_def
  by (auto simp: put_header_def on_nodes_def dest!: set_root_max elim!: res_bindE split: if_splits prod.splits)

lemma find_fit:
  assumes "heap_inv hp lo hi t s" "fit_of sz t = Some (a, b, n)" "length (addrs t) < d"
  obtains h where "heaps s hp = Some h" "hp \<noteq> 0" "find_best_fit d (root h) sz (nodes s) = Inr a" "a \<noteq> 0"
proof -
  obtain h where h: "hp \<noteq> 0" "heaps s hp = Some h" "root h = ptr t" "tree_at (nodes s) t" using assms(1) by (rule heap_invE) blast
  have "depth t < d" using assms(3) depth_le_addrs [of t] by simp
  then have "find_best_fit d (root h) sz (nodes s) = Inr a" using find_best_fit_tree [OF h(4), of d sz] assms(2) h(3) by simp
  moreover have "a \<noteq> 0" using tree_at_entry [OF h(4)] fit_of_entry [OF assms(2)] by blast
  ultimately show thesis using that h(1,2) by blast
qed

lemma kmalloc_fits:
  assumes "heap_inv (kheap s) lo hi t s" and "fit_of (sz + sizeof_header) t = Some (a, b, n)"
    and "unat sz + 8 < 2 ^ 32" and "length (addrs t) < d"
  shows "\<exists>t' s'. kmalloc (Suc d) sz s = Inr (b + sizeof_header, s') \<and> kheap s' = kheap s \<and> heap_inv (kheap s') lo hi t' s' \<and>
    range_of b (sz + sizeof_header) \<subseteq> free_bytes (blocks t) \<and>
    free_bytes (blocks t') = free_bytes (blocks t) - range_of b (sz + sizeof_header) \<and>
    headers s' = (headers s)(b \<mapsto> \<lparr>magic = HEAP_MAGIC, block_size = sz\<rparr>) \<and> length (addrs t') \<le> length (addrs t) \<and>
    (\<forall>h. heaps s (kheap s) = Some h \<longrightarrow> (\<exists>h'. heaps s' (kheap s) = Some h' \<and> max_size h' = max_size h))"
proof -
  have hp: "kheap s \<noteq> 0" using assms(1) by (simp add: heap_inv_def)
  obtain t' m hs where r: "heap_alloc (ikmalloc d) d (kheap s) False sz s = Inr (b + sizeof_header, put_header b sz (s\<lparr>nodes := m, heaps := hs\<rparr>))"
    "heap_inv (kheap s) lo hi t' (s\<lparr>nodes := m, heaps := hs\<rparr>)" "free_bytes (blocks t') = free_bytes (blocks t) - range_of b (sz + sizeof_header)"
    "length (addrs t') \<le> length (addrs t)"
    using heap_alloc_fits [OF assms, of "ikmalloc d"] by blast
  have e: "(b, n) \<in> set (blocks t)" "sz + sizeof_header \<le> n" using fit_of_entry [OF assms(2)] entry_block by blast+
  then have "range_of b (sz + sizeof_header) \<subseteq> free_bytes (blocks t)"
    using free_bytes_member [OF e(1)] by (force simp: range_of_def word_le_nat_alt)
  moreover have "kmalloc (Suc d) sz s = Inr (b + sizeof_header, put_header b sz (s\<lparr>nodes := m, heaps := hs\<rparr>))"
    using r(1) hp by (simp add: kmalloc_def ikmalloc_body_def imalloc_def)
  moreover have "\<forall>h. heaps s (kheap s) = Some h \<longrightarrow> (\<exists>h'. hs (kheap s) = Some h' \<and> max_size h' = max_size h)"
  proof -
    obtain h where h: "heaps s (kheap s) = Some h" "find_best_fit d (root h) (sz + sizeof_header) (nodes s) = Inr a" "a \<noteq> 0"
      using find_fit [OF assms(1,2,4)] by blast
    then have "heap_alloc_fit (ikmalloc d) d (kheap s) False sz a s = Inr (b + sizeof_header, put_header b sz (s\<lparr>nodes := m, heaps := hs\<rparr>))"
      using r(1) hp by (simp add: heap_alloc_def)
    from heap_alloc_fit_max [OF this h(1)] show ?thesis using h(1) by (simp add: put_header_def)
  qed
  ultimately show ?thesis using r(2-4)
    by (intro exI [of _ t'] exI [of _ "put_header b sz (s\<lparr>nodes := m, heaps := hs\<rparr>)"]) (simp add: put_header_def heap_inv_def)
qed

text \<open>
  C6: \<open>kmalloc\<close>. On a kernel heap that satisfies the invariant, a request for which the search finds a
  block always succeeds: the result points behind a header at the front of the block, the header records the
  size, header and data were free and are the only bytes that are no longer free, and
  the invariant still holds, whether a rest of the block stays in the tree or the node is deleted.
\<close>

theorem kmalloc_allocates:
  assumes "heap_inv (kheap s) lo hi t s" and "fit_of (sz + sizeof_header) t = Some (a, b, n)"
    and "unat sz + 8 < 2 ^ 32" and "length (addrs t) < d"
  shows "\<exists>t' s'. kmalloc (Suc d) sz s = Inr (b + sizeof_header, s') \<and> kheap s' = kheap s \<and> heap_inv (kheap s') lo hi t' s' \<and>
    range_of b (sz + sizeof_header) \<subseteq> free_bytes (blocks t) \<and>
    free_bytes (blocks t') = free_bytes (blocks t) - range_of b (sz + sizeof_header) \<and>
    headers s' = (headers s)(b \<mapsto> \<lparr>magic = HEAP_MAGIC, block_size = sz\<rparr>)"
  using kmalloc_fits [OF assms] by blast

theorem kmalloc_allocates_witness:
  "\<exists>t' s'. kmalloc 40 100 kheap_s0 = Inr (0xC0000008, s') \<and> heap_inv (kheap s') KHEAP_START (KHEAP_START + KHEAP_INITIAL_SIZE) t' s' \<and>
     headers s' 0xC0000000 = Some \<lparr>magic = HEAP_MAGIC, block_size = 100\<rparr>"
proof -
  have "fit_of (100 + sizeof_header) kheap_tree = Some (0x100014, KHEAP_START, KHEAP_INITIAL_SIZE)" "length (addrs kheap_tree) < 39"
    by code_simp+
  from kmalloc_allocates [OF kheap_s0_inv this(1) _ this(2)] show ?thesis by auto
qed






text \<open>The end of the kernel heap after a request for \<open>sz\<close> bytes, and when \<open>expand_heap\<close> accepts it.\<close>

definition new_end :: "u32 \<Rightarrow> u32" where
  "new_end sz = ALIGN (KHEAP_START + KHEAP_INITIAL_SIZE + sizeof_header + sz) PAGE_SIZE"

lemma unat_new_end: "unat (new_end sz) = ((0xC0101007 + unat sz) mod 2 ^ 32) div 4096 * 4096"
proof -
  have "unat (KHEAP_START + KHEAP_INITIAL_SIZE + sizeof_header + sz) = (0xC0100008 + unat sz) mod 2 ^ 32" by (simp add: unat_word_ariths)
  then show ?thesis unfolding new_end_def unat_ALIGN by (simp only: mod_add_left_eq) (simp add: add.commute)
qed

lemma new_end_accepted: "new_end sz \<le> KHEAP_START + KHEAP_MAX_SIZE \<longleftrightarrow> 0x3FEFEFF8 < sz \<and> sz \<le> 0xCFEFEFF8"
proof -
  have lt: "unat sz < 4294967296" using unat_u32_less [of sz] by simp
  have "unat (new_end sz) \<le> 0x8FFFF000 \<longleftrightarrow> 0x3FEFEFF8 < unat sz \<and> unat sz \<le> 0xCFEFEFF8"
  proof (cases "unat sz \<le> 0x3FEFEFF8")
    case True
    then have "(0xC0101007 + unat sz) mod 2 ^ 32 = 0xC0101007 + unat sz" by simp
    then show ?thesis using True unfolding unat_new_end by auto
  next
    case False
    then have "(0xC0101007 + unat sz) mod 4294967296 = (0xC0101007 + unat sz - 4294967296) mod 4294967296" by (intro le_mod_geq) simp
    also have "\<dots> = 0xC0101007 + unat sz - 4294967296" using lt by (intro mod_less) linarith
    finally have "(0xC0101007 + unat sz) mod 4294967296 = 0xC0101007 + unat sz - 4294967296" .
    then show ?thesis using False lt unfolding unat_new_end by auto
  qed
  then show ?thesis by (simp add: word_le_nat_alt word_less_nat_alt)
qed

lemma expand_kheap:
  assumes h: "hp \<noteq> 0" "heaps s hp = Some h" "start_addr h = KHEAP_START" "end_addr h = KHEAP_START + KHEAP_INITIAL_SIZE" "max_size h = KHEAP_MAX_SIZE"
  shows "expand_heap malloc hp (sizeof_header + sz) s =
    (if 0x3FEFEFF8 < sz \<and> sz \<le> 0xCFEFEFF8
     then Inr (new_end sz - KHEAP_START, s\<lparr>heaps := (heaps s)(hp \<mapsto> h\<lparr>end_addr := new_end sz\<rparr>)\<rparr>) else Inr (0, s))"
proof -
  have e: "ALIGN (0xC0100008 + sz) PAGE_SIZE = new_end sz" by (simp add: new_end_def)
  have "new_end sz \<le> KHEAP_START + KHEAP_MAX_SIZE \<Longrightarrow> \<not> KHEAP_START + KHEAP_INITIAL_SIZE < new_end sz"
    by (simp add: word_less_nat_alt word_le_nat_alt)
  then show ?thesis
    using h new_end_accepted [of sz] unfolding expand_heap_def
    by (auto simp: e Let_def set_end_def not_le simp del: while_res.simps)
qed

lemma kmalloc_no_fit:
  assumes "heap_inv (kheap s) KHEAP_START (KHEAP_START + KHEAP_INITIAL_SIZE) t s" and "heaps s (kheap s) = Some h" "max_size h = KHEAP_MAX_SIZE"
    and "fit_of (sz + sizeof_header) t = None" and "length (addrs t) < d"
  shows "kmalloc (Suc d) sz s =
    (if 0x3FEFEFF8 < sz \<and> sz \<le> 0xCFEFEFF8
     then Inr (KHEAP_START + KHEAP_INITIAL_SIZE + sizeof_header, put_header (KHEAP_START + KHEAP_INITIAL_SIZE) sz
       (s\<lparr>heaps := (heaps s)(kheap s \<mapsto> h\<lparr>end_addr := new_end sz\<rparr>)\<rparr>))
     else Inr (0, s))"
proof -
  have h: "kheap s \<noteq> 0" "root h = ptr t" "tree_at (nodes s) t" "start_addr h = KHEAP_START" "end_addr h = KHEAP_START + KHEAP_INITIAL_SIZE"
    using assms(1,2) by (auto simp: heap_inv_def)
  have "depth t < d" using assms(5) depth_le_addrs [of t] by simp
  from find_best_fit_tree [OF h(3) this] assms(4) have find: "find_best_fit d (ptr t) (sz + sizeof_header) (nodes s) = Inr 0" by simp
  have "new_end sz - KHEAP_START \<noteq> 0" if "0x3FEFEFF8 < sz \<and> sz \<le> 0xCFEFEFF8"
    using that new_end_accepted [of sz] by (auto simp: word_le_nat_alt)
  then show ?thesis
    using h assms(2) find expand_kheap [OF h(1) assms(2) h(4,5) assms(3), of "ikmalloc d" sz]
    by (simp add: kmalloc_def ikmalloc_body_def imalloc_def heap_alloc_def heap_alloc_grow_def)
qed

text \<open>
  C12: the kernel heap does not grow. \<open>KHEAP_MAX_SIZE\<close> is an address, but \<open>expand_heap\<close> adds it to the start of the
  heap as a size; the sum wraps around to a limit below the heap. A request that the search finds no block for fails with
  \<open>NULL\<close> and changes nothing, for up to 0x3FEFEFF8 bytes and for more than 0xCFEFEFF8. For sizes in between the new end of the heap wraps around too and
  passes the test: no page is mapped, the caller gets the memory behind the heap, and the end of the heap moves below its start.
\<close>

theorem kheap_never_grows:
  assumes "heap_inv (kheap s) KHEAP_START (KHEAP_START + KHEAP_INITIAL_SIZE) t s" and "heaps s (kheap s) = Some h" "max_size h = KHEAP_MAX_SIZE"
    and "fit_of (sz + sizeof_header) t = None" and "length (addrs t) < d"
  shows "if 0x3FEFEFF8 < sz \<and> sz \<le> 0xCFEFEFF8
    then \<exists>e. kmalloc (Suc d) sz s = Inr (KHEAP_START + KHEAP_INITIAL_SIZE + sizeof_header, put_header (KHEAP_START + KHEAP_INITIAL_SIZE) sz
       (s\<lparr>heaps := (heaps s)(kheap s \<mapsto> h\<lparr>end_addr := e\<rparr>)\<rparr>)) \<and> e < KHEAP_START
    else kmalloc (Suc d) sz s = Inr (0, s)"
proof -
  have "new_end sz < KHEAP_START" if "0x3FEFEFF8 < sz \<and> sz \<le> 0xCFEFEFF8"
    using that new_end_accepted [of sz] by (auto simp: word_le_nat_alt word_less_nat_alt)
  then show ?thesis using kmalloc_no_fit [OF assms] by auto
qed

theorem kheap_never_grows_witness:
  "kmalloc 40 0x200000 kheap_s0 = Inr (0, kheap_s0) \<and> (\<exists>s. kmalloc 40 0x40000000 kheap_s0 = Inr (0xC0100008, s))"
proof
  have f: "fit_of (0x200000 + sizeof_header) kheap_tree = None" "fit_of (0x40000000 + sizeof_header) kheap_tree = None" "length (addrs kheap_tree) < 39" by code_simp+
  have h: "heaps kheap_s0 (kheap kheap_s0) = Some \<lparr>root = 0x100014, start_addr = KHEAP_START, end_addr = KHEAP_START + KHEAP_INITIAL_SIZE,
       max_size = KHEAP_MAX_SIZE, supervisor = False, readonly = False\<rparr>" by (simp add: kheap_s0_def)
  show "kmalloc 40 0x200000 kheap_s0 = Inr (0, kheap_s0)" using kheap_never_grows [OF kheap_s0_inv h _ f(1,3)] by simp
  show "\<exists>s. kmalloc 40 0x40000000 kheap_s0 = Inr (0xC0100008, s)" using kheap_never_grows [OF kheap_s0_inv h _ f(2,3)] by auto
qed

text \<open>
  C13: \<open>kfree\<close> crashes when it has no room for its node. The freed block is first merged with its free neighbours, whose nodes leave the tree; the
  node for the merged block is then requested from the heap without the merged block. If the search finds no block for it there, \<open>kmalloc\<close>
  returns \<open>NULL\<close>, since the heap does not grow, and \<open>create_node\<close> writes through it. The first \<open>kfree\<close> of the kernel is such a
  call: on the heap that \<open>heap_init\<close> makes, a block that is allocated and freed again merges with the only free block.
\<close>

theorem kfree_without_room:
  assumes inv: "heap_inv (kheap s) KHEAP_START (KHEAP_START + KHEAP_INITIAL_SIZE) t s" "heaps s (kheap s) = Some h" "max_size h = KHEAP_MAX_SIZE"
    and d: "length (addrs t) < d"
    and p: "p \<noteq> 0" "p - sizeof_header \<noteq> 0" "headers s (p - sizeof_header) = Some \<lparr>magic = HEAP_MAGIC, block_size = z\<rparr>"
    and f: "freeable (unat KHEAP_START) (unat (KHEAP_START + KHEAP_INITIAL_SIZE)) (p - sizeof_header) (z + sizeof_header) (blocks t)"
    and safe: "\<forall>a \<in> set (addrs t). range_of a sizeof_avl_node \<inter> range_of (p - sizeof_header) (z + sizeof_header) = {}"
    and mg: "merge_nbs (p - sizeof_header) (z + sizeof_header) t = (b2, n2, t2)" and fit: "fit_of 28 t2 = None"
  shows "kfree (Suc d) p s = Inl NullDeref"
proof -
  have hp: "kheap s \<noteq> 0" using inv(1) by (simp add: heap_inv_def)
  have d': "length (addrs t) < Suc d" using d by simp
  obtain m hs h2 where F: "heap_free (ikmalloc (Suc d)) (Suc d) (kheap s) (p - sizeof_header) (z + sizeof_header) s =
      res_bind (avl_insert (ikmalloc (Suc d)) (Suc d) (ptr t2) b2 n2 (s\<lparr>nodes := m, heaps := hs\<rparr>)) (\<lambda>(r, s'). set_root (kheap s) r s')"
    and M: "heap_inv (kheap s) KHEAP_START (KHEAP_START + KHEAP_INITIAL_SIZE) t2 (s\<lparr>nodes := m, heaps := hs\<rparr>)"
      "freeable (unat KHEAP_START) (unat (KHEAP_START + KHEAP_INITIAL_SIZE)) b2 n2 (blocks t2)"
    and en: "\<forall>x \<in> set (blocks t2). unat (fst x) + unat (snd x) \<noteq> unat b2" "\<forall>x \<in> set (blocks t2). unat (fst x) \<noteq> unat b2 + unat n2"
    and ad: "length (addrs t2) \<le> length (addrs t)" and h2: "hs (kheap s) = Some h2" "max_size h2 = max_size h"
    by (rule heap_free_inserts [OF inv(1) d' f safe mg inv(2)]) blast
  let ?s2 = "s\<lparr>nodes := m, heaps := hs\<rparr>"
  have "kmalloc (Suc d) 20 ?s2 = Inr (0, ?s2)"
    using kmalloc_no_fit [of ?s2 t2 h2 20 d] M(1) h2 inv(3) fit order.strict_trans1 [OF ad d] by simp
  then obtain x where m0: "ikmalloc (Suc d) sizeof_avl_node False False ?s2 = Inr (0, x, ?s2)"
    by (auto simp: kmalloc_def elim!: res_bindE simp del: ikmalloc.simps)
  obtain h' where t2: "tree_at (nodes ?s2) t2" "blocks_ok (unat KHEAP_START) (unat (KHEAP_START + KHEAP_INITIAL_SIZE)) (blocks t2)"
    using M(1) by (rule heap_invE) blast
  have "b2 \<notin> set (bases t2)" using blocks_ok_insert(3) [OF t2(2) M(2) en] by simp
  moreover have "n2 \<noteq> 0" using M(2) by (auto simp: freeable_def in_heap_def)
  moreover have "depth t2 < Suc d" using ad d depth_le_addrs [of t2] by simp
  ultimately have "avl_insert (ikmalloc (Suc d)) (Suc d) (ptr t2) b2 n2 ?s2 = Inl NullDeref"
    using avl_insert_no_node [where malloc = "ikmalloc (Suc d)", OF m0 _ t2(1)] by blast
  then show ?thesis using F p hp by (simp add: kfree_def ifree_def del: ikmalloc.simps avl_insert.simps)
qed

theorem kfree_without_room_witness:
  "kheap_boot = Inr kheap_s0 \<and> kmalloc 40 100 kheap_s0 = Inr (0xC0000008, kheap_s1) \<and> kfree 40 0xC0000008 kheap_s1 = Inl NullDeref"
proof -
  have c: "merge_nbs 0xC0000000 108 kheap_t1 = (0xC0000000, 0x100000, Leaf)" "fit_of 28 Leaf = None" "length (addrs kheap_t1) < 39"
    by code_simp+
  have f: "freeable (unat KHEAP_START) (unat (KHEAP_START + KHEAP_INITIAL_SIZE)) 0xC0000000 108 (blocks kheap_t1)"
    "\<forall>a \<in> set (addrs kheap_t1). range_of a sizeof_avl_node \<inter> range_of 0xC0000000 108 = {}"
    by (simp_all add: freeable_def in_heap_def range_of_def kheap_t1_def)
  have h: "heaps kheap_s1 (kheap kheap_s1) = Some \<lparr>root = 0x100014, start_addr = KHEAP_START, end_addr = KHEAP_START + KHEAP_INITIAL_SIZE,
       max_size = KHEAP_MAX_SIZE, supervisor = False, readonly = False\<rparr>" using kheap_s1_facts(3,4) by simp
  have "kfree (Suc 39) 0xC0000008 kheap_s1 = Inl NullDeref"
    by (rule kfree_without_room [OF kheap_s1_inv h _ c(3), where z = 100 and ?t2.0 = Leaf])
      (use kheap_s1_facts(5) c f in simp_all)
  then show ?thesis using kheap_s1_facts(1) kheap_boot_s0 by simp
qed

text \<open>
  C11: refinement of \<open>avl_insert\<close>. The node comes from an allocator that may take its memory out of a block of this very
  tree, moving that block (\<open>moved\<close>). If the rotations on the way back find the nodes they read (\<open>ins_ok\<close>), \<open>avl_insert\<close> returns a
  search tree that holds the block in addition, and writes only to the nodes of the tree and to the new one; if they do not, it
  dereferences \<open>NULL\<close>. The height fields are arbitrary positive numbers: the rotations compute wrong ones.
\<close>

theorem avl_insert_correct:
  assumes "malloc sizeof_avl_node False False s = Inr (new, x, s')" and "new \<noteq> 0" "sz \<noteq> 0"
    and "tree_at (nodes s) t" "tree_at (nodes s') t'" "moved base t t'" "bst t'"
    and "distinct (addrs t)" "heights_pos t" "new \<notin> set (addrs t)" "base \<notin> set (bases t')" "depth t < d"
  shows "if ins_ok new base sz t'
    then \<exists>t'' m. avl_insert malloc d (ptr t) base sz s = Inr (ptr t'', s'\<lparr>nodes := m\<rparr>) \<and> tree_at m t'' \<and> bst t'' \<and>
      distinct (addrs t'') \<and> heights_pos t'' \<and> set (blocks t'') = insert (base, sz) (set (blocks t')) \<and>
      (\<forall>a. a \<noteq> new \<and> a \<notin> set (addrs t) \<longrightarrow> m a = nodes s' a)
    else avl_insert malloc d (ptr t) base sz s = Inl NullDeref"
proof (cases "ins_ok new base sz t'")
  case True
  note sh = moved_shape [OF assms(6)]
  have "inserts (new # addrs t) s' (avl_insert malloc d (ptr t) base sz s) (ins new base sz t')"
    by (rule avl_insert_refines) (fact assms True)+
  moreover have "set (blocks (ins new base sz t')) = insert (base, sz) (set (blocks t'))"
    using set_ins_block [of "(base, sz)" "blocks t'"] assms(7,11) by (simp add: blocks_ins)
  moreover have "distinct (addrs (ins new base sz t'))" "heights_pos (ins new base sz t')" "bst (ins new base sz t')"
    using distinct_addrs_ins heights_pos_ins bst_ins assms(7-11) sh by auto
  ultimately show ?thesis using True by (fastforce simp: inserts_def)
next
  case False
  have "avl_insert malloc d (ptr t) base sz s = Inl NullDeref" by (rule avl_insert_null) (fact assms False)+
  then show ?thesis using False by simp
qed

theorem avl_insert_correct_witness:
  "\<exists>r s'. avl_insert (ikmalloc 40) 40 (ptr kheap_t2) 0xC0000000 108 kheap_s2 = Inr (r, s') \<and>
     (\<exists>t''. r = ptr t'' \<and> tree_at (nodes s') t'' \<and> set (blocks t'') = {(0xC0000000, 108), (0xC00000F4, 0xFFF0C)})"
proof -
  have "case ikmalloc 40 sizeof_avl_node False False kheap_s2 of Inr (p, x, s') \<Rightarrow> p = 0xC00000E0 \<and>
      nodes s' 0x100014 = Some \<lparr>avl_base = 0xC00000F4, avl_size = 0xFFF0C, avl_height = 1, avl_left = 0, avl_right = 0\<rparr> | Inl _ \<Rightarrow> False"
    by code_simp
  then obtain x s' where m: "ikmalloc 40 sizeof_avl_node False False kheap_s2 = Inr (0xC00000E0, x, s')"
    "nodes s' 0x100014 = Some \<lparr>avl_base = 0xC00000F4, avl_size = 0xFFF0C, avl_height = 1, avl_left = 0, avl_right = 0\<rparr>"
    by (auto split: sum.splits simp del: ikmalloc.simps)
  let ?t' = "set_block 0x100014 0xC00000F4 0xFFF0C kheap_t2"
  have ok: "ins_ok 0xC00000E0 0xC0000000 108 ?t'" by code_simp
  have "if ins_ok 0xC00000E0 0xC0000000 108 ?t'
    then \<exists>t'' m. avl_insert (ikmalloc 40) 40 (ptr kheap_t2) 0xC0000000 108 kheap_s2 = Inr (ptr t'', s'\<lparr>nodes := m\<rparr>) \<and> tree_at m t'' \<and> bst t'' \<and>
      distinct (addrs t'') \<and> heights_pos t'' \<and> set (blocks t'') = insert (0xC0000000, 108) (set (blocks ?t')) \<and>
      (\<forall>a. a \<noteq> 0xC00000E0 \<and> a \<notin> set (addrs kheap_t2) \<longrightarrow> m a = nodes s' a)
    else avl_insert (ikmalloc 40) 40 (ptr kheap_t2) 0xC0000000 108 kheap_s2 = Inl NullDeref"
    by (rule avl_insert_correct [where malloc = "ikmalloc 40", OF m(1)])
      (use m(2) kheap_s2_facts(1) in \<open>simp_all add: kheap_t2_def bst_def\<close>)
  moreover have "set (blocks ?t') = {(0xC00000F4, 0xFFF0C)}" by (simp add: kheap_t2_def)
  ultimately show ?thesis using ok by fastforce
qed

text \<open>Insert blocks of 16 bytes one after the other, from an empty tree.\<close>

fun insert_all :: "u32 list \<Rightarrow> u32 \<times> vm \<Rightarrow> (u32 \<times> vm) res" where
  "insert_all [] rs = Inr rs"
| "insert_all (b # bs) (r, s) = res_bind (avl_insert (ikmalloc 40) 40 r b 16 s) (insert_all bs)"

text \<open>
  \<open>avl_insert\<close> can crash. Both rotations compute a height from the wrong subtrees; a height field that is too
  small makes a later insertion rotate around a child that is not there. Eleven insertions with different bases, from
  an empty tree and with an allocator that never fails, end in a dereference of \<open>NULL\<close>; the first ten succeed.
\<close>

theorem avl_insert_null_deref:
  "\<exists>r s. insert_all [0x700, 0x100, 0x3200, 0x800, 0x3400, 0x1700, 0x1900, 0x2800, 0x2900, 0x50] (0, vm_empty) = Inr (r, s) \<and>
     avl_insert (ikmalloc 40) 40 r 0x2400 16 s = Inl NullDeref"
proof -
  let ?r = "insert_all [0x700, 0x100, 0x3200, 0x800, 0x3400, 0x1700, 0x1900, 0x2800, 0x2900, 0x50] (0, vm_empty)"
  have "case ?r of Inr (r, s) \<Rightarrow> (case avl_insert (ikmalloc 40) 40 r 0x2400 16 s of Inl e \<Rightarrow> e = NullDeref | Inr _ \<Rightarrow> False) | Inl _ \<Rightarrow> False"
    by code_simp
  then obtain r s where rs: "?r = Inr (r, s)" "case avl_insert (ikmalloc 40) 40 r 0x2400 16 s of Inl e \<Rightarrow> e = NullDeref | Inr _ \<Rightarrow> False"
    by (cases ?r) auto
  then have "avl_insert (ikmalloc 40) 40 r 0x2400 16 s = Inl NullDeref"
    by (cases "avl_insert (ikmalloc 40) 40 r 0x2400 16 s") auto
  with rs(1) show ?thesis by blast
qed

end
