(* ===== verification/Paging_Spec.thy ===== *)
theory Paging_Spec
  imports Paging Kheap_Spec
begin

text \<open>
  The address space that \<open>vm_initialize\<close> builds. While the kernel directory is built, page tables come from the placement allocator;
  an invariant on the directory, the tables and the frames is kept by every iteration of the four mapping loops, which gives
  the identity mapping of the kernel. The bounds on the memory are those of \<open>enough_memory\<close>; the loops are bounded by the
  \<open>2 ^ 20\<close> pages of the address space, which the proofs show to be enough.
\<close>

section \<open>Page numbers\<close>

text \<open>The page table entry of page number \<open>q\<close> in the kernel directory; \<open>None\<close> if there is no table for it.\<close>

definition pte_of :: "vm \<Rightarrow> nat \<Rightarrow> u32 option" where
  "pte_of s q = (case page_dirs s (kernel_pd s) of None \<Rightarrow> None
     | Some p \<Rightarrow> (case page_tables s (tables p ! (q div 1024)) of None \<Rightarrow> None
       | Some es \<Rightarrow> if tables p ! (q div 1024) = 0 then None else Some (es ! (q mod 1024))))"

definition frame_pte :: "nat \<Rightarrow> u32" where
  "frame_pte k = (push_bit 12 (of_nat k) OR PAGE_PRESENT) OR PAGE_USER"

lemma page_index:
  assumes "unat vaddr = 4096 * q"
  shows "unat (drop_bit 22 vaddr) = q div 1024" "unat (drop_bit 12 vaddr AND 0x3FF :: u32) = q mod 1024"
proof -
  have "unat (drop_bit 22 vaddr) = unat vaddr div 2 ^ 22" by (simp add: unat_drop_bit_div)
  then show "unat (drop_bit 22 vaddr) = q div 1024" using assms by (simp add: div_mult2_eq [of _ 4096 1024, simplified])
  have "(0x3FF :: u32) = mask 10" by (simp add: mask_eq_exp_minus_1)
  then have "drop_bit 12 vaddr AND 0x3FF = take_bit 10 (drop_bit 12 vaddr)" by (simp only: take_bit_eq_mask)
  then have "unat (drop_bit 12 vaddr AND 0x3FF) = take_bit 10 (unat (drop_bit 12 vaddr))" by (simp only: unsigned_take_bit_eq)
  then have "unat (drop_bit 12 vaddr AND 0x3FF) = unat (drop_bit 12 vaddr) mod 1024" by (simp add: take_bit_eq_mod)
  then show "unat (drop_bit 12 vaddr AND 0x3FF) = q mod 1024" using assms by (simp add: unat_drop_bit_div)
qed

section \<open>Address translation\<close>

text \<open>
  The translation of the processor. With the paging bit of CR0 clear, addresses are physical. With it set, the processor reads the entry for the
  upper ten bits of the address in the directory that CR3 points to, and the entry for the next ten bits in the table that this entry
  points to; \<open>None\<close> is a page fault for a missing table or page. It knows nothing of the array \<open>tables[]\<close> of the kernel. The directory and the
  tables are looked up by their physical addresses, which are the addresses that the kernel knows them by as long as they lie in memory that is mapped to itself.
\<close>

definition translate :: "vm \<Rightarrow> u32 \<Rightarrow> u32 option" where
  "translate s v =
     (if cr0 s AND 0x80000000 = 0 then Some v
      else case page_dirs s (push_bit 12 (drop_bit 12 (cr3 s))) of
        None \<Rightarrow> None
      | Some p \<Rightarrow>
          let pde = entries p ! unat (drop_bit 22 v) in
          if pde AND TABLE_PRESENT = 0 then None
          else case page_tables s (push_bit 12 (drop_bit 12 pde)) of
            None \<Rightarrow> None
          | Some es \<Rightarrow>
              let pte = es ! unat (drop_bit 12 v AND 0x3FF) in
              if pte AND PAGE_PRESENT = 0 then None else Some (push_bit 12 (drop_bit 12 pte) + take_bit 12 v))"

lemma page_aligned_bits:
  assumes "page_aligned v"
  shows "push_bit 12 (drop_bit 12 v) = v"
proof -
  have "unat (take_bit 12 v) = 0" using assms by (simp add: page_aligned_def take_bit_eq_mod unat_mod)
  then have "take_bit 12 v = 0" by (simp add: unat_eq_0)
  then show ?thesis using bits_ident [of 12 v] by simp
qed

lemma drop_bit_low: "drop_bit 12 (v OR 1) = drop_bit 12 v" "drop_bit 12 (v OR 2) = drop_bit 12 v" "drop_bit 12 (v OR 4) = drop_bit 12 v" "drop_bit 12 (v OR 3) = drop_bit 12 v"
  for v :: u32
  by simp_all

lemma present_bit: "v AND 1 = 0 \<longleftrightarrow> \<not> bit v 0" for v :: u32
  by (simp add: and_one_eq odd_iff_mod_2_eq_one bit_0)

lemma pte_frame_address:
  assumes "k < 2 ^ 20"
  shows "push_bit 12 (drop_bit 12 (frame_pte k)) = of_nat k * 4096" "frame_pte k AND PAGE_PRESENT \<noteq> 0"
proof -
  have "k * 4096 < 2 ^ 32" using assms by simp
  then have "page_aligned (of_nat k * 4096 :: u32)" by (simp add: page_aligned_def unat_word_ariths unat_of_nat)
  then show "push_bit 12 (drop_bit 12 (frame_pte k)) = of_nat k * 4096"
    using page_aligned_bits by (simp add: frame_pte_def push_bit_eq_mult)
  show "frame_pte k AND PAGE_PRESENT \<noteq> 0" unfolding present_bit by (simp add: frame_pte_def bit_or_iff)
qed

lemma page_number:
  fixes v :: u32
  shows "unat (drop_bit 22 v) = unat v div 4096 div 1024" "unat (drop_bit 12 v AND 0x3FF) = unat v div 4096 mod 1024"
    "of_nat (unat v div 4096) * 4096 + take_bit 12 v = v" "unat v div 4096 < 2 ^ 20"
proof -
  have u: "unat (drop_bit 12 v) = unat v div 4096" by (simp add: unat_drop_bit_div)
  have d: "of_nat (unat v div 4096) = drop_bit 12 v" unfolding u [symmetric] by simp
  have v: "unat (push_bit 12 (drop_bit 12 v)) = 4096 * (unat v div 4096)"
  proof -
    have "push_bit 12 (drop_bit 12 v) = of_nat (unat v div 4096) * 4096" by (simp add: push_bit_eq_mult d)
    moreover have "unat v div 4096 * 4096 < 2 ^ 32" using unat_u32_less [of v] by (simp add: le_less_trans [OF div_times_less_eq_dividend])
    ultimately show ?thesis by (simp add: unat_word_ariths unat_of_nat)
  qed
  have "drop_bit 22 (push_bit 12 (drop_bit 12 v)) = drop_bit 22 v" "drop_bit 12 (push_bit 12 (drop_bit 12 v)) = drop_bit 12 v"
    by (auto simp: bit_eq_iff bit_simps dest: bit_imp_le_length)
  then show "unat (drop_bit 22 v) = unat v div 4096 div 1024" "unat (drop_bit 12 v AND 0x3FF) = unat v div 4096 mod 1024"
    using page_index [OF v] by simp_all
  show "of_nat (unat v div 4096) * 4096 + take_bit 12 v = v"
    using bits_ident [of 12 v] by (simp add: push_bit_eq_mult d)
  show "unat v div 4096 < 2 ^ 20" by (rule less_mult_imp_div_less) (use unat_u32_less [of v] in simp)
qed

section \<open>The kernel directory while it is built\<close>

text \<open>
  Before the heap exists, page tables come from the placement allocator: they are page aligned and lie below
  \<open>placement_address\<close>, no two slots share one, and the hardware entry of a slot holds its table's address; \<open>paddr_pde\<close> is the address of
  the directory itself.
\<close>

definition slot_ok :: "nat \<Rightarrow> vm \<Rightarrow> page_directory \<Rightarrow> nat \<Rightarrow> bool" where
  "slot_ok L s p i \<longleftrightarrow> entries p ! i = (if tables p ! i = 0 then TABLE_RW else tables p ! i OR TABLE_PRESENT OR TABLE_RW) \<and>
     (tables p ! i \<noteq> 0 \<longrightarrow> unat (tables p ! i) + 4096 \<le> L \<and> page_aligned (tables p ! i) \<and>
        (\<exists>es. page_tables s (tables p ! i) = Some es \<and> length es = 1024))"

definition pd_below :: "nat \<Rightarrow> vm \<Rightarrow> page_directory \<Rightarrow> bool" where
  "pd_below L s p \<longleftrightarrow> kheap s = 0 \<and> kernel_pd s \<noteq> 0 \<and> page_dirs s (kernel_pd s) = Some p \<and> paddr_pde p = kernel_pd s \<and>
     length (tables p) = 1024 \<and> length (entries p) = 1024 \<and> (\<forall>i < 1024. slot_ok L s p i) \<and>
     (\<forall>i < 1024. \<forall>j < 1024. i \<noteq> j \<longrightarrow> tables p ! i \<noteq> 0 \<longrightarrow> tables p ! i \<noteq> tables p ! j)"

definition pd_ok :: "vm \<Rightarrow> page_directory \<Rightarrow> bool" where
  "pd_ok s p \<longleftrightarrow> 0 < unat (placement_address (vm_pm s)) \<and> pd_below (unat (placement_address (vm_pm s))) s p"

definition room :: "vm \<Rightarrow> bool" where
  "room s \<longleftrightarrow> unat (placement_address (vm_pm s)) + 0x2000 < 2 ^ 32"

lemma pte_of_ok:
  assumes "pd_below L s p" "q < 2 ^ 20"
  shows "tables p ! (q div 1024) = 0 \<Longrightarrow> pte_of s q = None"
    and "tables p ! (q div 1024) \<noteq> 0 \<Longrightarrow> \<exists>es. page_tables s (tables p ! (q div 1024)) = Some es \<and> length es = 1024 \<and> pte_of s q = Some (es ! (q mod 1024))"
proof -
  have "q div 1024 < 1024" using assms(2) by simp
  then have "slot_ok L s p (q div 1024)" using assms(1) by (simp add: pd_below_def)
  then show "tables p ! (q div 1024) = 0 \<Longrightarrow> pte_of s q = None"
    "tables p ! (q div 1024) \<noteq> 0 \<Longrightarrow> \<exists>es. page_tables s (tables p ! (q div 1024)) = Some es \<and> length es = 1024 \<and> pte_of s q = Some (es ! (q mod 1024))"
    using assms(1) by (auto simp: slot_ok_def pd_below_def pte_of_def split: option.splits)
qed

text \<open>Once CR3 points to the directory and paging is on, the processor finds the entries that \<open>pte_of\<close> reads.\<close>

lemma translate_kernel:
  assumes ok: "pd_below L s p" and al: "page_aligned (kernel_pd s)"
  shows "translate (enable_paging (load_page_directory (paddr_pde p) s)) v =
    (case pte_of s (unat v div 4096) of None \<Rightarrow> None
     | Some e \<Rightarrow> if e AND PAGE_PRESENT = 0 then None else Some (push_bit 12 (drop_bit 12 e) + take_bit 12 v))"
proof -
  let ?q = "unat v div 4096" and ?s = "enable_paging (load_page_directory (paddr_pde p) s)"
  have i: "?q div 1024 < 1024" "?q < 2 ^ 20" using page_number(4) [of v] by simp_all
  have sl: "slot_ok L s p (?q div 1024)" and pd: "page_dirs s (kernel_pd s) = Some p" "paddr_pde p = kernel_pd s"
    using ok i(1) by (simp_all add: pd_below_def)
  have on: "\<not> (cr0 ?s AND 0x80000000 = 0)" "cr3 ?s = kernel_pd s" "page_dirs ?s = page_dirs s" "page_tables ?s = page_tables s"
    using pd(2) by (simp_all add: enable_paging_def load_page_directory_def bit.conj_disj_distrib2)
  show ?thesis
  proof (cases "tables p ! (?q div 1024) = 0")
    case True
    then have "entries p ! (?q div 1024) AND TABLE_PRESENT = 0" using sl by (simp add: slot_ok_def)
    then show ?thesis
      using on pd page_aligned_bits [OF al] pte_of_ok(1) [OF ok i(2) True] by (simp add: translate_def page_number Let_def)
  next
    case False
    obtain es where es: "page_tables s (tables p ! (?q div 1024)) = Some es" "pte_of s ?q = Some (es ! (?q mod 1024))"
      using pte_of_ok(2) [OF ok i(2) False] by blast
    have e: "entries p ! (?q div 1024) = tables p ! (?q div 1024) OR TABLE_PRESENT OR TABLE_RW" "page_aligned (tables p ! (?q div 1024))"
      using sl False by (simp_all add: slot_ok_def)
    have "push_bit 12 (drop_bit 12 (entries p ! (?q div 1024))) = tables p ! (?q div 1024)" "entries p ! (?q div 1024) AND TABLE_PRESENT \<noteq> 0"
      using page_aligned_bits [OF e(2)] unfolding e(1) present_bit by (simp_all add: drop_bit_low bit_or_iff)
    then show ?thesis using on pd page_aligned_bits [OF al] es by (simp add: translate_def page_number Let_def)
  qed
qed

text \<open>What is left of a table slot that \<open>get_page\<close> fills: entries that are not present.\<close>

definition with_table :: "nat \<Rightarrow> vm \<Rightarrow> nat \<Rightarrow> u32 option" where
  "with_table i s q = (case pte_of s q of Some e \<Rightarrow> Some e | None \<Rightarrow> if q div 1024 = i then Some PAGE_RW else None)"

lemma pd_okD: "pd_ok s p \<Longrightarrow> 0 < unat (placement_address (vm_pm s))" "pd_ok s p \<Longrightarrow> pd_below (unat (placement_address (vm_pm s))) s p"
  by (simp_all add: pd_ok_def)

text \<open>A table at a new address in an empty slot.\<close>

lemma new_table:
  assumes ok: "pd_ok s p" and i: "i < 1024" "tables p ! i = 0" and t: "unat (placement_address (vm_pm s)) \<le> unat t" "t \<noteq> 0" "unat t + 4096 < 2 ^ 32" "page_aligned t"
  defines "p' \<equiv> p\<lparr>tables := (tables p)[i := t], entries := (entries p)[i := t OR TABLE_PRESENT OR TABLE_RW]\<rparr>"
  defines "s' \<equiv> s\<lparr>vm_pm := (vm_pm s)\<lparr>placement_address := t + 0x1000\<rparr>, page_tables := (page_tables s)(t \<mapsto> replicate 1024 PAGE_RW),
    page_dirs := (page_dirs s)(kernel_pd s \<mapsto> p')\<rparr>"
  shows "pd_ok s' p'" and "\<And>q. q < 2 ^ 20 \<Longrightarrow> pte_of s' q = with_table i s q"
proof -
  have u: "unat (t + 0x1000) = unat t + 4096" using t(3) by (simp add: unat_word_ariths)
  have sl: "\<And>j. j < 1024 \<Longrightarrow> slot_ok (unat (placement_address (vm_pm s))) s p j" using ok by (simp add: pd_ok_def pd_below_def)
  have old: "tables p ! j \<noteq> t" if "j < 1024" for j
    using sl [OF that] t by (cases "tables p ! j = 0") (auto simp: slot_ok_def)
  have len: "length (tables p) = 1024" "length (entries p) = 1024" using ok by (auto simp: pd_ok_def pd_below_def)
  have "slot_ok (unat (placement_address (vm_pm s'))) s' p' j" if "j < 1024" for j
  proof (cases "j = i")
    case True
    then show ?thesis using i t u len by (simp add: slot_ok_def s'_def p'_def)
  next
    case False
    then show ?thesis using sl [OF that] old [OF that] t u by (auto simp: slot_ok_def s'_def p'_def)
  qed
  moreover have "tables p' ! j \<noteq> tables p' ! k" if "j < 1024" "k < 1024" "j \<noteq> k" "tables p' ! j \<noteq> 0" for j k
    using ok old that len i t(2) by (auto simp: pd_ok_def pd_below_def p'_def nth_list_update split: if_splits)
  ultimately show ok': "pd_ok s' p'" using ok len u by (auto simp: pd_ok_def pd_below_def s'_def p'_def)
  show "pte_of s' q = with_table i s q" if q: "q < 2 ^ 20" for q
  proof -
    have qd: "q div 1024 < 1024" using q by simp
    show ?thesis
    proof (cases "q div 1024 = i")
      case True
      then show ?thesis using i t(2) len ok pte_of_ok(1) [OF pd_okD(2) [OF ok] q] by (simp add: pte_of_def with_table_def s'_def p'_def)
    next
      case False
      then show ?thesis using old [OF qd] len ok by (simp add: pte_of_def with_table_def s'_def p'_def pd_ok_def pd_below_def split: option.splits)
    qed
  qed
qed

lemma get_page_create:
  assumes ok: "pd_ok s p" and room: "room s" and v: "unat vaddr = 4096 * q" "q < 2 ^ 20" and d: "0 < d"
  obtains p' s' where "get_page (ikmalloc d) vaddr (kernel_pd s) True s = Inr (Some (tables p' ! (q div 1024), q mod 1024), s')"
    "pd_ok s' p'" "tables p' ! (q div 1024) \<noteq> 0" "kernel_pd s' = kernel_pd s" "\<And>x. x < 2 ^ 20 \<Longrightarrow> pte_of s' x = with_table (q div 1024) s x"
    "vm_pm s' = (vm_pm s)\<lparr>placement_address := placement_address (vm_pm s')\<rparr>"
    "unat (placement_address (vm_pm s')) \<le> unat (placement_address (vm_pm s)) + (if pte_of s q = None then 8192 else 0)"
    "unat (placement_address (vm_pm s)) \<le> unat (placement_address (vm_pm s'))"
    "\<And>k. unat (placement_address (vm_pm s)) \<le> 4096 * k \<Longrightarrow> unat (placement_address (vm_pm s')) \<le> 4096 * Suc k"
proof -
  let ?i = "q div 1024"
  have i: "?i < 1024" using v(2) by simp
  note ix = page_index [OF v(1)]
  have pd: "kernel_pd s \<noteq> 0" "page_dirs s (kernel_pd s) = Some p" "length (tables p) = 1024" "length (entries p) = 1024" "kheap s = 0"
    "0 < unat (placement_address (vm_pm s))" using ok by (auto simp: pd_ok_def pd_below_def)
  show thesis
  proof (cases "tables p ! ?i = 0")
    case False
    have "with_table ?i s x = pte_of s x" if "x < 2 ^ 20" for x
      using pte_of_ok [OF pd_okD(2) [OF ok] that] False by (cases "x div 1024 = ?i") (auto simp: with_table_def split: option.splits)
    moreover have "get_page (ikmalloc d) vaddr (kernel_pd s) True s = Inr (Some (tables p ! ?i, q mod 1024), s)"
      using pd i ix False by (simp add: get_page_def)
    ultimately show thesis using that [of p s] ok False by simp
  next
    case True
    let ?P = "placement_address (vm_pm s)"
    let ?t = "ALIGN ?P PAGE_SIZE"
    have P: "unat ?P + 0x2000 < 2 ^ 32" using room by (simp add: room_def)
    have t: "unat ?P \<le> unat ?t" "unat ?t < unat ?P + 4096" using ALIGN_ge [of ?P] ALIGN_less [of ?P] P by (auto simp: word_le_nat_alt)
    have t2: "?t \<noteq> 0" "unat ?t + 4096 < 2 ^ 32" using t P pd(6) by auto
    let ?p' = "p\<lparr>tables := (tables p)[?i := ?t], entries := (entries p)[?i := ?t OR TABLE_PRESENT OR TABLE_RW]\<rparr>"
    let ?s' = "s\<lparr>vm_pm := (vm_pm s)\<lparr>placement_address := ?t + 0x1000\<rparr>, page_tables := (page_tables s)(?t \<mapsto> replicate 1024 PAGE_RW),
      page_dirs := (page_dirs s)(kernel_pd s \<mapsto> ?p')\<rparr>"
    note nt = new_table [OF ok i True t(1) t2 page_aligned_ALIGN]
    have "get_page (ikmalloc d) vaddr (kernel_pd s) True s = Inr (Some (?t, q mod 1024), ?s')"
      using pd i ix True t2(1) d by (simp add: get_page_def ikmalloc_placement placement_alloc_def set_table_def arr_set_def Let_def)
    moreover have "unat (?t + 0x1000) = unat ?t + 4096" using t2(2) by (simp add: unat_word_ariths)
    moreover have "pte_of s q = None" using pte_of_ok(1) [OF pd_okD(2) [OF ok] v(2) True] .
    moreover have "unat ?t \<le> 4096 * k" if "unat ?P \<le> 4096 * k" for k
    proof -
      have "(unat ?P + 4095) div 4096 \<le> k" using less_mult_imp_div_less [of "unat ?P + 4095" "Suc k" 4096] that by simp
      then show ?thesis using unat_ALIGN_no_wrap [of ?P] P by simp
    qed
    ultimately show thesis using that [of ?p' ?s'] nt t t2 pd i by simp
  qed
qed

text \<open>The frames below \<open>k\<close> are used, those from \<open>k\<close> to \<open>n\<close> are free.\<close>

definition used_up_to :: "nat \<Rightarrow> nat \<Rightarrow> vm \<Rightarrow> bool" where
  "used_up_to k n s \<longleftrightarrow> pm_ok (vm_pm s) \<and> free_frames (vm_pm s) = {k..<n}"

lemma alloc_frame_next:
  assumes ok: "pd_below L s p" and q: "q < 2 ^ 20" and t: "tables p ! (q div 1024) \<noteq> 0" and e: "pte_of s q = Some e" "PTE_TO_PFN e = 0"
    and pm: "used_up_to k n s" "k < n"
  obtains s' where "alloc_frame (Some (tables p ! (q div 1024), q mod 1024)) False False s = Inr s'" "pd_below L s' p"
    "kernel_pd s' = kernel_pd s" "\<And>x. x < 2 ^ 20 \<Longrightarrow> pte_of s' x = (if x = q then Some (frame_pte k) else pte_of s x)"
    "used_up_to (Suc k) n s'" "vm_pm s' = (vm_pm s)\<lparr>buddy_bitmaps := buddy_bitmaps (vm_pm s')\<rparr>"
proof -
  let ?t = "tables p ! (q div 1024)"
  obtain es where es: "page_tables s ?t = Some es" "length es = 1024" "es ! (q mod 1024) = e"
    using pte_of_ok(2) [OF ok q t] e(1) by auto
  have mn: "Min {k..<n} = k" using pm(2) by (intro Min_eqI) auto
  obtain bms where b: "pmalloc FRAME_SIZE (vm_pm s) = Inr (int k, (vm_pm s)\<lparr>buddy_bitmaps := bms\<rparr>)"
    "pm_ok ((vm_pm s)\<lparr>buddy_bitmaps := bms\<rparr>)" "free_frames ((vm_pm s)\<lparr>buddy_bitmaps := bms\<rparr>) = {k..<n} - {k}"
    using pmalloc_frame_some [of "vm_pm s"] pm mn by (auto simp: used_up_to_def)
  let ?s' = "s\<lparr>vm_pm := (vm_pm s)\<lparr>buddy_bitmaps := bms\<rparr>, page_tables := (page_tables s)(?t \<mapsto> es[q mod 1024 := frame_pte k])\<rparr>"
  have r: "alloc_frame (Some (?t, q mod 1024)) False False s = Inr ?s'"
    using es t e(2) b(1) by (simp add: alloc_frame_def arr_get_def arr_set_def frame_pte_def Let_def)
  have sl: "\<And>j. j < 1024 \<Longrightarrow> slot_ok L s p j" and len: "length (tables p) = 1024" using ok by (auto simp: pd_below_def)
  have "slot_ok L ?s' p j" if "j < 1024" for j using sl [OF that] es by (auto simp: slot_ok_def)
  then have ok': "pd_below L ?s' p" using ok unfolding pd_below_def by simp
  have "pte_of ?s' x = (if x = q then Some (frame_pte k) else pte_of s x)" if x: "x < 2 ^ 20" for x
  proof (cases "x div 1024 = q div 1024")
    case True
    then have "x = q \<longleftrightarrow> x mod 1024 = q mod 1024" using True div_mult_mod_eq [of x 1024] div_mult_mod_eq [of q 1024] by auto
    moreover have "page_dirs s (kernel_pd s) = Some p" using ok by (simp add: pd_below_def)
    ultimately show ?thesis using True es t by (simp add: pte_of_def nth_list_update)
  next
    case False
    moreover have "x div 1024 < 1024" "q div 1024 < 1024" using x q by simp_all
    ultimately have "tables p ! (x div 1024) \<noteq> ?t" using ok t unfolding pd_below_def by metis
    moreover have "page_dirs s (kernel_pd s) = Some p" using ok by (simp add: pd_below_def)
    moreover have "x \<noteq> q" using False by auto
    ultimately show ?thesis by (simp add: pte_of_def)
  qed
  moreover have "{k..<n} - {k} = {Suc k..<n}" by auto
  then have "used_up_to (Suc k) n ?s'" using b(2,3) by (simp add: used_up_to_def)
  ultimately show thesis using that [OF r ok'] by simp
qed

text \<open>One round of a mapping loop.\<close>

lemma map_page_next:
  assumes ok: "pd_ok s p" and room: "room s" and v: "unat vaddr = 4096 * q" "q < 2 ^ 20" and d: "0 < d"
    and e: "\<forall>e. pte_of s q = Some e \<longrightarrow> PTE_TO_PFN e = 0" and pm: "used_up_to k n s" "k < n"
  obtains p' s' where "map_page (ikmalloc d) vaddr s = Inr s'" "pd_ok s' p'" "kernel_pd s' = kernel_pd s"
    "\<And>x. x < 2 ^ 20 \<Longrightarrow> pte_of s' x = (if x = q then Some (frame_pte k) else with_table (q div 1024) s x)"
    "used_up_to (Suc k) n s'" "initrd_end (vm_pm s') = initrd_end (vm_pm s)"
    "unat (placement_address (vm_pm s')) \<le> unat (placement_address (vm_pm s)) + (if pte_of s q = None then 8192 else 0)"
    "unat (placement_address (vm_pm s)) \<le> unat (placement_address (vm_pm s'))"
    "\<And>k. unat (placement_address (vm_pm s)) \<le> 4096 * k \<Longrightarrow> unat (placement_address (vm_pm s')) \<le> 4096 * Suc k"
proof -
  obtain p1 s1 where g: "get_page (ikmalloc d) vaddr (kernel_pd s) True s = Inr (Some (tables p1 ! (q div 1024), q mod 1024), s1)"
    "pd_ok s1 p1" "tables p1 ! (q div 1024) \<noteq> 0" "kernel_pd s1 = kernel_pd s" "\<And>x. x < 2 ^ 20 \<Longrightarrow> pte_of s1 x = with_table (q div 1024) s x"
    "vm_pm s1 = (vm_pm s)\<lparr>placement_address := placement_address (vm_pm s1)\<rparr>"
    "unat (placement_address (vm_pm s1)) \<le> unat (placement_address (vm_pm s)) + (if pte_of s q = None then 8192 else 0)"
    "unat (placement_address (vm_pm s)) \<le> unat (placement_address (vm_pm s1))"
    "\<And>k. unat (placement_address (vm_pm s)) \<le> 4096 * k \<Longrightarrow> unat (placement_address (vm_pm s1)) \<le> 4096 * Suc k"
    by (rule get_page_create [OF ok room v d]) blast
  obtain e1 where e1: "pte_of s1 q = Some e1" "PTE_TO_PFN e1 = 0"
  proof (cases "pte_of s q")
    case None
    then show ?thesis using that [of PAGE_RW] g(5) [OF v(2)] by (simp add: with_table_def PTE_TO_PFN_def)
  next
    case (Some e1)
    then show ?thesis using that [of e1] g(5) [OF v(2)] e by (simp add: with_table_def)
  qed
  have "buddy_bitmaps (vm_pm s1) = buddy_bitmaps (vm_pm s)" "nframes (vm_pm s1) = nframes (vm_pm s)"
    using arg_cong [OF g(6), of buddy_bitmaps] arg_cong [OF g(6), of nframes] by simp_all
  then have pm1: "used_up_to k n s1"
    using pm(1) by (simp add: used_up_to_def pm_ok_def pm_wf_def pm_covered_def free_frames_def)
  obtain s' where a: "alloc_frame (Some (tables p1 ! (q div 1024), q mod 1024)) False False s1 = Inr s'" "pd_below (unat (placement_address (vm_pm s1))) s' p1"
    "kernel_pd s' = kernel_pd s1" "\<And>x. x < 2 ^ 20 \<Longrightarrow> pte_of s' x = (if x = q then Some (frame_pte k) else pte_of s1 x)"
    "used_up_to (Suc k) n s'" "vm_pm s' = (vm_pm s1)\<lparr>buddy_bitmaps := buddy_bitmaps (vm_pm s')\<rparr>"
    by (rule alloc_frame_next [OF pd_okD(2) [OF g(2)] v(2) g(3) e1 pm1 pm(2)]) blast
  have f: "initrd_end (vm_pm s') = initrd_end (vm_pm s)" "placement_address (vm_pm s') = placement_address (vm_pm s1)"
    using arg_cong [OF g(6), of initrd_end] arg_cong [OF a(6), of initrd_end] arg_cong [OF a(6), of placement_address] by simp_all
  show thesis
    by (rule that [of s' p1]) (use g(1,2,4,5,7,8,9) a f in \<open>simp_all add: map_page_def pd_ok_def\<close>)
qed

section \<open>The identity mapping\<close>

text \<open>
  The invariant of the loops that map the kernel: the pages below \<open>vaddr\<close> are mapped to the frames with the same
  number, and no other page is. A new table costs at most 8192 bytes of the memory after the kernel per 1024 pages;
  once the mapping has passed this memory (\<open>c\<close>), it stays ahead of it.
\<close>

abbreviation KHEAP_PAGE :: nat where "KHEAP_PAGE \<equiv> 0xC0000"

definition groups :: "nat \<Rightarrow> nat" where
  "groups k = (k + 1023) div 1024"

definition ident_at :: "bool \<Rightarrow> nat \<Rightarrow> nat \<Rightarrow> u32 \<Rightarrow> nat \<Rightarrow> vm \<Rightarrow> bool" where
  "ident_at c n P0 ie k s \<longleftrightarrow> k \<le> n \<and> used_up_to k n s \<and> (\<exists>p. pd_ok s p) \<and>
     (\<forall>q < k. pte_of s q = Some (frame_pte q)) \<and> (\<forall>q. k \<le> q \<and> q < 2 ^ 20 \<longrightarrow> pte_of s q = None \<or> pte_of s q = Some PAGE_RW) \<and>
     (k mod 1024 \<noteq> 0 \<longrightarrow> pte_of s k \<noteq> None) \<and>
     unat (placement_address (vm_pm s)) \<le> P0 + 8192 * groups k \<and> initrd_end (vm_pm s) = ie \<and>
     (c \<longrightarrow> unat (placement_address (vm_pm s)) \<le> 4096 * k) \<and> (\<forall>j < 256. pte_of s (KHEAP_PAGE + j) = Some PAGE_RW)"

lemma groups_Suc: "groups (Suc k) = (if k mod 1024 = 0 then Suc (groups k) else groups k)"
proof -
  have "Suc (k + 1023) div 1024 = (if Suc (k + 1023) mod 1024 = 0 then Suc ((k + 1023) div 1024) else (k + 1023) div 1024)"
    by (rule div_Suc)
  moreover have "Suc (k + 1023) mod 1024 = k mod 1024" by simp
  ultimately show ?thesis by (simp add: groups_def)
qed

lemma groups_le: "k < 2 ^ 20 \<Longrightarrow> groups k \<le> 1024"
  by (simp add: groups_def)

lemma Suc_div_same: "Suc k mod 1024 \<noteq> 0 \<Longrightarrow> Suc k div 1024 = k div 1024"
  by (simp add: div_Suc)

lemma ident_step:
  assumes I: "ident_at c n P0 ie k s" and v: "unat vaddr = 4096 * k" and n: "k < n" "n \<le> KHEAP_PAGE" and P: "P0 < 0xF0000000" and d: "0 < d"
  shows "\<exists>s'. map_page (ikmalloc d) vaddr s = Inr s' \<and> kernel_pd s' = kernel_pd s \<and> ident_at c n P0 ie (Suc k) s' \<and>
    unat (placement_address (vm_pm s)) \<le> unat (placement_address (vm_pm s'))"
proof -
  obtain p where p: "pd_ok s p" and used: "used_up_to k n s"
    and lo: "\<And>q. q < k \<Longrightarrow> pte_of s q = Some (frame_pte q)" and hi: "\<And>q. k \<le> q \<Longrightarrow> q < 2 ^ 20 \<Longrightarrow> pte_of s q = None \<or> pte_of s q = Some PAGE_RW"
    and grp: "k mod 1024 \<noteq> 0 \<Longrightarrow> pte_of s k \<noteq> None" and pl: "unat (placement_address (vm_pm s)) \<le> P0 + 8192 * groups k" "initrd_end (vm_pm s) = ie" "c \<longrightarrow> unat (placement_address (vm_pm s)) \<le> 4096 * k"
    and heap: "\<And>j. j < 256 \<Longrightarrow> pte_of s (KHEAP_PAGE + j) = Some PAGE_RW"
    using I unfolding ident_at_def by blast
  have k: "k < 2 ^ 20" using n by simp
  have room: "room s" using pl(1) groups_le [OF k] P by (simp add: room_def)
  have e: "\<forall>e. pte_of s k = Some e \<longrightarrow> PTE_TO_PFN e = 0" using hi [OF order_refl k] by (auto simp: PTE_TO_PFN_def)
  obtain p' s' where m: "map_page (ikmalloc d) vaddr s = Inr s'" "pd_ok s' p'" "kernel_pd s' = kernel_pd s"
    "\<And>x. x < 2 ^ 20 \<Longrightarrow> pte_of s' x = (if x = k then Some (frame_pte k) else with_table (k div 1024) s x)"
    "used_up_to (Suc k) n s'" "initrd_end (vm_pm s') = initrd_end (vm_pm s)"
    "unat (placement_address (vm_pm s')) \<le> unat (placement_address (vm_pm s)) + (if pte_of s k = None then 8192 else 0)"
    "unat (placement_address (vm_pm s)) \<le> unat (placement_address (vm_pm s'))"
    "\<And>k. unat (placement_address (vm_pm s)) \<le> 4096 * k \<Longrightarrow> unat (placement_address (vm_pm s')) \<le> 4096 * Suc k"
    by (rule map_page_next [OF p room v k d e used n(1)]) blast
  have "pte_of s' q = Some (frame_pte q)" if "q < Suc k" for q
    using m(4) [of q] lo [of q] that k by (cases "q = k") (auto simp: with_table_def)
  moreover have "pte_of s' q = None \<or> pte_of s' q = Some PAGE_RW" if "Suc k \<le> q" "q < 2 ^ 20" for q
    using m(4) [OF that(2)] hi [of q] that by (auto simp: with_table_def split: option.splits)
  moreover have "pte_of s' (Suc k) \<noteq> None" if "Suc k mod 1024 \<noteq> 0"
    using m(4) [of "Suc k"] Suc_div_same [OF that] n by (auto simp: with_table_def split: option.splits)
  moreover have "unat (placement_address (vm_pm s')) \<le> P0 + 8192 * groups (Suc k)"
    using m(7) pl(1) grp by (auto simp: groups_Suc split: if_splits)
  moreover have "pte_of s' (KHEAP_PAGE + j) = Some PAGE_RW" if "j < 256" for j
    using m(4) [of "KHEAP_PAGE + j"] heap [OF that] that n by (simp add: with_table_def)
  ultimately have "ident_at c n P0 ie (Suc k) s'"
    using m(2,5,6) m(9) [of k] n(1) pl(2,3) unfolding ident_at_def by (intro conjI) auto
  with m(1,3,8) show ?thesis by blast
qed

text \<open>A mapping loop with a limit that stays within the memory of the machine always ends, and keeps the mapping the identity.\<close>

lemma map_until_ident:
  assumes I: "ident_at c n P0 ie k s" "unat vaddr = 4096 * k" "k \<le> m" and n: "n \<le> KHEAP_PAGE" "m \<le> n" and P: "P0 < 0xF0000000" and d: "0 < d"
    and lim: "\<And>s k. ident_at c n P0 ie k s \<Longrightarrow> unat (limit s) \<le> 4096 * m"
  shows "\<exists>vaddr' s' k'. map_until (ikmalloc d) limit (vaddr, s) = Inr (vaddr', s') \<and> ident_at c n P0 ie k' s' \<and> k' \<le> m \<and> k \<le> k' \<and> unat vaddr' = 4096 * k' \<and>
    kernel_pd s' = kernel_pd s \<and> \<not> vaddr' < limit s' \<and> unat (placement_address (vm_pm s)) \<le> unat (placement_address (vm_pm s'))"
proof -
  let ?I = "\<lambda>(v, t). \<exists>k'. ident_at c n P0 ie k' t \<and> k' \<le> m \<and> k \<le> k' \<and> unat v = 4096 * k' \<and> kernel_pd t = kernel_pd s \<and>
    unat (placement_address (vm_pm s)) \<le> unat (placement_address (vm_pm t))"
  have "\<exists>r. map_until (ikmalloc d) limit (vaddr, s) = Inr r \<and> ?I r \<and> \<not> (case r of (v, t) \<Rightarrow> v < limit t)"
    unfolding map_until_def
  proof (rule while_res_total [where f = "\<lambda>(v, t). n - unat v div 4096"])
    show "?I (vaddr, s)" using I by auto
    show "(case (vaddr, s) of (v, t) \<Rightarrow> n - unat v div 4096) \<le> page_rounds" using n by simp
  next
    fix r :: "u32 \<times> vm"
    assume r: "?I r" "case r of (v, t) \<Rightarrow> v < limit t"
    obtain v t k1 where vt: "r = (v, t)" "ident_at c n P0 ie k1 t" "k1 \<le> m" "k \<le> k1" "unat v = 4096 * k1" "kernel_pd t = kernel_pd s"
      "unat (placement_address (vm_pm s)) \<le> unat (placement_address (vm_pm t))" using r(1) by (cases r) auto
    have "4096 * k1 < 4096 * m" using lim [OF vt(2)] r(2) vt(1,5) by (simp add: word_less_nat_alt)
    then have k1: "k1 < m" "k1 < n" using n(2) by simp_all
    obtain t' where t': "map_page (ikmalloc d) v t = Inr t'" "kernel_pd t' = kernel_pd t" "ident_at c n P0 ie (Suc k1) t'"
      "unat (placement_address (vm_pm t)) \<le> unat (placement_address (vm_pm t'))"
      using ident_step [OF vt(2,5) k1(2) n(1) P d] by blast
    have "unat (v + 0x1000) = 4096 * Suc k1" using vt(5) k1 n by (simp add: unat_word_ariths)
    then show "\<exists>s'. (case r of (vaddr, s) \<Rightarrow> res_bind (map_page (ikmalloc d) vaddr s) (\<lambda>s. Inr (vaddr + 0x1000, s))) = Inr s' \<and> ?I s' \<and>
      (case s' of (v, t) \<Rightarrow> n - unat v div 4096) < (case r of (v, t) \<Rightarrow> n - unat v div 4096)"
      using vt t' k1 by auto
  qed
  then show ?thesis by auto
qed

section \<open>The tables of the kernel heap\<close>

lemma kheap_group: "j < 256 \<Longrightarrow> (KHEAP_PAGE + j) div 1024 = 768"
  by simp

text \<open>The first loop creates the one page table of the heap.\<close>

lemma make_tables_Inr:
  assumes ok: "pd_ok s p" and P: "unat (placement_address (vm_pm s)) < 0xF0000000" and d: "0 < d"
    and none: "\<And>q. q < 2 ^ 20 \<Longrightarrow> pte_of s q = None"
  shows "\<exists>v' s' p'. make_tables (ikmalloc d) (KHEAP_START, s) = Inr (v', s') \<and> pd_ok s' p' \<and> kernel_pd s' = kernel_pd s \<and>
    (\<forall>q < 2 ^ 20. pte_of s' q = (if q div 1024 = 768 then Some PAGE_RW else None)) \<and>
    vm_pm s' = (vm_pm s)\<lparr>placement_address := placement_address (vm_pm s')\<rparr> \<and>
    unat (placement_address (vm_pm s')) \<le> unat (placement_address (vm_pm s)) + 8192 \<and>
    unat (placement_address (vm_pm s)) \<le> unat (placement_address (vm_pm s'))"
proof -
  let ?e = "\<lambda>j q. if 0 < j \<and> q div 1024 = 768 then Some PAGE_RW else None"
  let ?I = "\<lambda>(v, t). \<exists>j p. j \<le> 256 \<and> unat v = 4096 * (KHEAP_PAGE + j) \<and> pd_ok t p \<and> kernel_pd t = kernel_pd s \<and>
    (\<forall>q < 2 ^ 20. pte_of t q = ?e j q) \<and> vm_pm t = (vm_pm s)\<lparr>placement_address := placement_address (vm_pm t)\<rparr> \<and>
    unat (placement_address (vm_pm t)) \<le> unat (placement_address (vm_pm s)) + (if 0 < j then 8192 else 0) \<and>
    unat (placement_address (vm_pm s)) \<le> unat (placement_address (vm_pm t))"
  have "\<exists>r. make_tables (ikmalloc d) (KHEAP_START, s) = Inr r \<and> ?I r \<and> \<not> (case r of (v, t) \<Rightarrow> v < KHEAP_START + KHEAP_INITIAL_SIZE)"
    unfolding make_tables_def
  proof (rule while_res_total [where f = "\<lambda>(v, t). KHEAP_PAGE + 256 - unat v div 4096"])
    show "?I (KHEAP_START, s)" using ok none by (auto intro!: exI [of _ 0])
    show "(case (KHEAP_START, s) of (v, t) \<Rightarrow> KHEAP_PAGE + 256 - unat v div 4096) \<le> page_rounds" by simp
  next
    fix r :: "u32 \<times> vm"
    assume r: "?I r" "case r of (v, t) \<Rightarrow> v < KHEAP_START + KHEAP_INITIAL_SIZE"
    obtain v t j p1 where vt: "r = (v, t)" "unat v = 4096 * (KHEAP_PAGE + j)" "pd_ok t p1" "kernel_pd t = kernel_pd s"
      "\<forall>q < 2 ^ 20. pte_of t q = ?e j q" "vm_pm t = (vm_pm s)\<lparr>placement_address := placement_address (vm_pm t)\<rparr>"
      "unat (placement_address (vm_pm t)) \<le> unat (placement_address (vm_pm s)) + (if 0 < j then 8192 else 0)"
      "unat (placement_address (vm_pm s)) \<le> unat (placement_address (vm_pm t))"
      using r(1) by (cases r) auto
    have j: "j < 256" using r(2) vt(1,2) by (simp add: word_less_nat_alt)
    have q: "KHEAP_PAGE + j < 2 ^ 20" using j by simp
    have room: "room t" using vt(7) P by (simp add: room_def split: if_splits)
    obtain p2 t' where g: "get_page (ikmalloc d) v (kernel_pd t) True t = Inr (Some (tables p2 ! ((KHEAP_PAGE + j) div 1024), (KHEAP_PAGE + j) mod 1024), t')"
      "pd_ok t' p2" "kernel_pd t' = kernel_pd t" "\<And>x. x < 2 ^ 20 \<Longrightarrow> pte_of t' x = with_table ((KHEAP_PAGE + j) div 1024) t x"
      "vm_pm t' = (vm_pm t)\<lparr>placement_address := placement_address (vm_pm t')\<rparr>"
      "unat (placement_address (vm_pm t')) \<le> unat (placement_address (vm_pm t)) + (if pte_of t (KHEAP_PAGE + j) = None then 8192 else 0)"
      "unat (placement_address (vm_pm t)) \<le> unat (placement_address (vm_pm t'))"
      by (rule get_page_create [OF vt(3) room vt(2) q d]) blast
    have "pte_of t' x = ?e (Suc j) x" if "x < 2 ^ 20" for x
      using g(4) [OF that] vt(5) that kheap_group [OF j] by (auto simp: with_table_def)
    moreover have "unat (placement_address (vm_pm t')) \<le> unat (placement_address (vm_pm s)) + 8192"
      using g(6) vt(5,7) q kheap_group [OF j] by (auto split: if_splits)
    moreover have "vm_pm t' = (vm_pm s)\<lparr>placement_address := placement_address (vm_pm t')\<rparr>"
      using g(5) vt(6) by (metis pm_state.update_convs(3) pm_state.surjective)
    moreover have "unat (v + 0x1000) = 4096 * (KHEAP_PAGE + Suc j)" using vt(2) j by (simp add: unat_word_ariths)
    ultimately have I': "?I (v + 0x1000, t')" using j g(2,3,7) vt(4,8) by (auto intro!: exI [of _ "Suc j"] exI [of _ p2])
    show "\<exists>s'. (case r of (vaddr, s) \<Rightarrow> res_bind (get_page (ikmalloc d) vaddr (kernel_pd s) True s) (\<lambda>(_, s). Inr (vaddr + 0x1000, s))) = Inr s' \<and> ?I s' \<and>
      (case s' of (v, t) \<Rightarrow> KHEAP_PAGE + 256 - unat v div 4096) < (case r of (v, t) \<Rightarrow> KHEAP_PAGE + 256 - unat v div 4096)"
      using vt(1,2) g(1) I' \<open>unat (v + 0x1000) = _\<close> j by (intro exI [of _ "(v + 0x1000, t')"]) simp
  qed
  then obtain v t where vt: "make_tables (ikmalloc d) (KHEAP_START, s) = Inr (v, t)" "?I (v, t)" "\<not> v < KHEAP_START + KHEAP_INITIAL_SIZE" by auto
  then obtain j p' where j: "j \<le> 256" "unat v = 4096 * (KHEAP_PAGE + j)" "pd_ok t p'" "kernel_pd t = kernel_pd s" "\<forall>q < 2 ^ 20. pte_of t q = ?e j q"
    "vm_pm t = (vm_pm s)\<lparr>placement_address := placement_address (vm_pm t)\<rparr>"
    "unat (placement_address (vm_pm t)) \<le> unat (placement_address (vm_pm s)) + (if 0 < j then 8192 else 0)"
    "unat (placement_address (vm_pm s)) \<le> unat (placement_address (vm_pm t))" by auto
  have "0 < j" using vt(3) j(2) by (simp add: word_less_nat_alt)
  with j vt(1) show ?thesis by (intro exI [of _ v] exI [of _ t] exI [of _ p']) simp
qed

text \<open>The last loop maps the pages of the heap, in tables that exist, to the next free frames.\<close>

lemma map_page_present:
  assumes ok: "pd_below L s p" and v: "unat vaddr = 4096 * q" "q < 2 ^ 20" and t: "tables p ! (q div 1024) \<noteq> 0"
  shows "map_page malloc vaddr s = alloc_frame (Some (tables p ! (q div 1024), q mod 1024)) False False s"
proof -
  have "q div 1024 < 1024" using v(2) by simp
  then show ?thesis using ok t page_index [OF v(1)] by (simp add: map_page_def get_page_def pd_below_def)
qed

lemma map_kheap_Inr:
  assumes ok: "pd_below L s p" "tables p ! 768 \<noteq> 0" and rw: "\<And>j. j < 256 \<Longrightarrow> pte_of s (KHEAP_PAGE + j) = Some PAGE_RW"
    and pm: "used_up_to K n s" "K + 256 \<le> n"
  shows "\<exists>v' s'. map_until malloc (\<lambda>s. KHEAP_START + KHEAP_INITIAL_SIZE) (KHEAP_START, s) = Inr (v', s') \<and> pd_below L s' p \<and>
    kernel_pd s' = kernel_pd s \<and> used_up_to (K + 256) n s' \<and> placement_address (vm_pm s') = placement_address (vm_pm s) \<and>
    (\<forall>q < 2 ^ 20. pte_of s' q = (if KHEAP_PAGE \<le> q \<and> q < KHEAP_PAGE + 256 then Some (frame_pte (K + (q - KHEAP_PAGE))) else pte_of s q))"
proof -
  let ?e = "\<lambda>j q. if KHEAP_PAGE \<le> q \<and> q < KHEAP_PAGE + j then Some (frame_pte (K + (q - KHEAP_PAGE))) else pte_of s q"
  let ?I = "\<lambda>(v, t). \<exists>j. j \<le> 256 \<and> unat v = 4096 * (KHEAP_PAGE + j) \<and> pd_below L t p \<and> kernel_pd t = kernel_pd s \<and> used_up_to (K + j) n t \<and>
    placement_address (vm_pm t) = placement_address (vm_pm s) \<and> (\<forall>q < 2 ^ 20. pte_of t q = ?e j q)"
  have "\<exists>r. map_until malloc (\<lambda>s. KHEAP_START + KHEAP_INITIAL_SIZE) (KHEAP_START, s) = Inr r \<and> ?I r \<and> \<not> (case r of (v, t) \<Rightarrow> v < KHEAP_START + KHEAP_INITIAL_SIZE)"
    unfolding map_until_def
  proof (rule while_res_total [where f = "\<lambda>(v, t). KHEAP_PAGE + 256 - unat v div 4096"])
    show "?I (KHEAP_START, s)" using ok pm by (auto intro!: exI [of _ 0])
    show "(case (KHEAP_START, s) of (v, t) \<Rightarrow> KHEAP_PAGE + 256 - unat v div 4096) \<le> page_rounds" by simp
  next
    fix r :: "u32 \<times> vm"
    assume r: "?I r" "case r of (v, t) \<Rightarrow> v < KHEAP_START + KHEAP_INITIAL_SIZE"
    obtain v t j where vt: "r = (v, t)" "unat v = 4096 * (KHEAP_PAGE + j)" "pd_below L t p" "kernel_pd t = kernel_pd s" "used_up_to (K + j) n t"
      "placement_address (vm_pm t) = placement_address (vm_pm s)" "\<forall>q < 2 ^ 20. pte_of t q = ?e j q" using r(1) by (cases r) auto
    have j: "j < 256" using r(2) vt(1,2) by (simp add: word_less_nat_alt)
    let ?q = "KHEAP_PAGE + j"
    have q: "?q < 2 ^ 20" using j by simp
    have tq: "tables p ! (?q div 1024) \<noteq> 0" using ok(2) kheap_group [OF j] by simp
    have e: "pte_of t ?q = Some PAGE_RW" using vt(7) q rw [OF j] by simp
    have e0: "PTE_TO_PFN PAGE_RW = 0" by (simp add: PTE_TO_PFN_def)
    have kn: "K + j < n" using pm(2) j by simp
    obtain t' where a: "alloc_frame (Some (tables p ! (?q div 1024), ?q mod 1024)) False False t = Inr t'" "pd_below L t' p" "kernel_pd t' = kernel_pd t"
      "\<And>x. x < 2 ^ 20 \<Longrightarrow> pte_of t' x = (if x = ?q then Some (frame_pte (K + j)) else pte_of t x)"
      "used_up_to (Suc (K + j)) n t'" "vm_pm t' = (vm_pm t)\<lparr>buddy_bitmaps := buddy_bitmaps (vm_pm t')\<rparr>"
      by (rule alloc_frame_next [OF vt(3) q tq e e0 vt(5) kn]) blast
    have "placement_address (vm_pm t') = placement_address (vm_pm s)" using arg_cong [OF a(6), of placement_address] vt(6) by simp
    moreover have "pte_of t' x = ?e (Suc j) x" if "x < 2 ^ 20" for x
      using a(4) [OF that] vt(7) that by (auto simp: less_Suc_eq)
    moreover have u: "unat (v + 0x1000) = 4096 * (KHEAP_PAGE + Suc j)" using vt(2) j by (simp add: unat_word_ariths)
    ultimately have I': "?I (v + 0x1000, t')" using j a(2,3,5) vt(4) by (auto intro!: exI [of _ "Suc j"])
    show "\<exists>s'. (case r of (vaddr, s) \<Rightarrow> res_bind (map_page malloc vaddr s) (\<lambda>s. Inr (vaddr + 0x1000, s))) = Inr s' \<and> ?I s' \<and>
      (case s' of (v, t) \<Rightarrow> KHEAP_PAGE + 256 - unat v div 4096) < (case r of (v, t) \<Rightarrow> KHEAP_PAGE + 256 - unat v div 4096)"
      using vt(1,2) map_page_present [OF vt(3,2) q tq, of malloc] a(1) I' u j by (intro exI [of _ "(v + 0x1000, t')"]) simp
  qed
  then obtain v t where vt: "map_until malloc (\<lambda>s. KHEAP_START + KHEAP_INITIAL_SIZE) (KHEAP_START, s) = Inr (v, t)" "?I (v, t)"
    "\<not> v < KHEAP_START + KHEAP_INITIAL_SIZE" by auto
  then obtain j where j: "j \<le> 256" "unat v = 4096 * (KHEAP_PAGE + j)" "pd_below L t p" "kernel_pd t = kernel_pd s" "used_up_to (K + j) n t"
    "placement_address (vm_pm t) = placement_address (vm_pm s)" "\<forall>q < 2 ^ 20. pte_of t q = ?e j q" by auto
  have "j = 256" using vt(3) j(1,2) by (simp add: word_less_nat_alt)
  with j vt(1) show ?thesis by (intro exI [of _ v] exI [of _ t]) simp
qed

section \<open>The whole mapping\<close>

text \<open>The machine has the frames 0 to \<open>n - 1\<close> and enough of them for the kernel, its tables, the initial RAM disk and the heap.\<close>

definition enough_memory :: "nat \<Rightarrow> pm_state \<Rightarrow> bool" where
  "enough_memory n pm \<longleftrightarrow> pm_ok pm \<and> free_frames pm = {0..<n} \<and> n \<le> KHEAP_PAGE \<and> 0 < unat (placement_address pm) \<and>
     unat (placement_address pm) + 0x908000 \<le> 4096 * n \<and> unat (initrd_end pm) + 0x101000 \<le> 4096 * n"

lemma pd_below_mono: "pd_below L s p \<Longrightarrow> L \<le> L' \<Longrightarrow> pd_below L' (s\<lparr>vm_pm := x\<rparr>) p"
  by (auto simp: pd_below_def slot_ok_def)

text \<open>The two loops that map the kernel and then the RAM disk to themselves; the tables they make for themselves are mapped as well.\<close>

lemma map_identity_Inr:
  assumes I1: "ident_at False n P0 ie 0 s1" and n: "n \<le> KHEAP_PAGE" and P0: "P0 < 0xF0000000" "P0 + 0x901000 \<le> 4096 * n" "P0 \<le> unat (placement_address (vm_pm s1))"
    and i: "unat ie + 0x101000 \<le> 4096 * n" and d: "0 < d"
  obtains v2 s2 v3 s3 K where "map_until (ikmalloc d) (\<lambda>s. placement_address (vm_pm s) + PAGE_SIZE) (0, s1) = Inr (v2, s2)"
    "map_until (ikmalloc d) (\<lambda>s. initrd_end (vm_pm s) + PAGE_SIZE) (v2, s2) = Inr (v3, s3)" "ident_at True n P0 ie K s3" "K \<le> n - 256"
    "kernel_pd s3 = kernel_pd s1" "unat ie + 0x1000 \<le> 4096 * K" "P0 \<le> unat (placement_address (vm_pm s3))"
proof -
  have lim2: "unat (placement_address (vm_pm t) + PAGE_SIZE) = unat (placement_address (vm_pm t)) + 4096 \<and>
      unat (placement_address (vm_pm t)) + 4096 \<le> 4096 * (n - 256)" if I: "ident_at b n P0 ie k t" for b k t
  proof -
    have "groups k \<le> 1024" using I n groups_le [of k] by (simp add: ident_at_def)
    moreover have "unat (placement_address (vm_pm t)) \<le> P0 + 8192 * groups k" using I by (simp add: ident_at_def)
    ultimately have "unat (placement_address (vm_pm t)) + 4096 + 0x100000 \<le> 4096 * n" using P0(2) by linarith
    then have le: "unat (placement_address (vm_pm t)) + 4096 \<le> 4096 * (n - 256)" by (simp add: diff_mult_distrib2)
    then have "unat (placement_address (vm_pm t)) + 4096 < 2 ^ 32" using n by simp
    then show ?thesis using le by (simp add: unat_word_ariths)
  qed
  obtain v2 s2 K2 where t2: "map_until (ikmalloc d) (\<lambda>s. placement_address (vm_pm s) + PAGE_SIZE) (0, s1) = Inr (v2, s2)"
    "ident_at False n P0 ie K2 s2" "K2 \<le> n - 256" "unat v2 = 4096 * K2" "kernel_pd s2 = kernel_pd s1" "\<not> v2 < placement_address (vm_pm s2) + PAGE_SIZE"
    "unat (placement_address (vm_pm s1)) \<le> unat (placement_address (vm_pm s2))"
    using map_until_ident [OF I1 _ _ n _ P0(1) d, of 0 "n - 256" "\<lambda>s. placement_address (vm_pm s) + PAGE_SIZE"] lim2 by auto
  have "unat (placement_address (vm_pm s2)) + 4096 \<le> 4096 * K2" using t2(4,6) lim2 [OF t2(2)] by (simp add: word_less_nat_alt)
  then have I2: "ident_at True n P0 ie K2 s2" using t2(2) by (simp add: ident_at_def)
  have ie: "unat (ie + 0x1000) = unat ie + 0x1000" "unat ie + 0x1000 \<le> 4096 * (n - 256)"
    using i n by (simp_all add: unat_word_ariths diff_mult_distrib2)
  have lim3: "unat (initrd_end (vm_pm t) + PAGE_SIZE) \<le> 4096 * (n - 256)" if "ident_at True n P0 ie k t" for k t
    using that ie by (simp add: ident_at_def)
  obtain v3 s3 K where t3: "map_until (ikmalloc d) (\<lambda>s. initrd_end (vm_pm s) + PAGE_SIZE) (v2, s2) = Inr (v3, s3)"
    "ident_at True n P0 ie K s3" "K \<le> n - 256" "K2 \<le> K" "unat v3 = 4096 * K" "kernel_pd s3 = kernel_pd s2" "\<not> v3 < initrd_end (vm_pm s3) + PAGE_SIZE"
    "unat (placement_address (vm_pm s2)) \<le> unat (placement_address (vm_pm s3))"
    by (rule exE [OF map_until_ident [where limit = "\<lambda>s. initrd_end (vm_pm s) + PAGE_SIZE", OF I2 t2(4,3) n diff_le_self P0(1) d]], erule lim3, blast)
  have "initrd_end (vm_pm s3) = ie" using t3(2) by (simp add: ident_at_def)
  then have "unat ie + 0x1000 \<le> 4096 * K" using t3(5,7) ie(1) by (simp add: word_less_nat_alt)
  moreover have "P0 \<le> unat (placement_address (vm_pm s3))" using P0(3) t2(7) t3(8) by linarith
  ultimately show thesis using that t2(1,5) t3(1-3,6) by simp
qed

lemma vm_map_kernel_Inr:
  assumes kh: "kheap s = 0" and fi: "frame_initialize (vm_pm s) = Inr pm" and mem: "enough_memory n pm" and d: "0 < d"
  shows "\<exists>s' p K. vm_map_kernel d s = Inr s' \<and> kernel_pd s' = ALIGN (placement_address pm) PAGE_SIZE \<and> pd_below (4096 * K) s' p \<and>
    unat (kernel_pd s') + 0x2004 \<le> 4096 * K \<and> unat (initrd_end pm) + 0x1000 \<le> 4096 * K \<and> K + 256 \<le> n \<and>
    (\<forall>q < K. pte_of s' q = Some (frame_pte q)) \<and> (\<forall>j < 256. pte_of s' (KHEAP_PAGE + j) = Some (frame_pte (K + j))) \<and>
    (\<forall>q < 2 ^ 20. K \<le> q \<and> (q < KHEAP_PAGE \<or> KHEAP_PAGE + 256 \<le> q) \<longrightarrow> pte_of s' q = None \<or> pte_of s' q = Some PAGE_RW) \<and>
    used_up_to (K + 256) n s' \<and> placement_address (vm_pm s') = initrd_end pm + PAGE_SIZE"
proof -
  let ?P = "placement_address pm" and ?ie = "initrd_end pm"
  let ?pd = "ALIGN ?P PAGE_SIZE"
  have m: "pm_ok pm" "free_frames pm = {0..<n}" "n \<le> KHEAP_PAGE" "0 < unat ?P" "unat ?P + 0x908000 \<le> 4096 * n" "unat ?ie + 0x101000 \<le> 4096 * n"
    using mem by (auto simp: enough_memory_def)
  have pd: "unat ?P \<le> unat ?pd" "unat ?pd < unat ?P + 4096" using ALIGN_ge [of ?P] ALIGN_less [of ?P] m by (auto simp: word_le_nat_alt)
  have pd0: "?pd \<noteq> 0" using pd(1) m(4) by auto
  have u: "unat (?pd + 0x2004) = unat ?pd + 0x2004" using pd m by (simp add: unat_word_ariths)
  let ?p0 = "\<lparr>entries = replicate PD_ENTRIES TABLE_RW, tables = replicate PD_ENTRIES 0, paddr_pde = ?pd\<rparr>"
  let ?s0 = "s\<lparr>vm_pm := pm\<lparr>placement_address := ?pd + 0x2004\<rparr>, kernel_pd := ?pd, page_dirs := (page_dirs s)(?pd \<mapsto> ?p0)\<rparr>"
  have ok0: "pd_ok ?s0 ?p0" using kh pd0 u by (auto simp: pd_ok_def pd_below_def slot_ok_def)
  have none0: "pte_of ?s0 q = None" if "q < 2 ^ 20" for q using pte_of_ok(1) [OF pd_okD(2) [OF ok0] that] that by simp
  obtain v1 s1 p1 where t1: "make_tables (ikmalloc d) (KHEAP_START, ?s0) = Inr (v1, s1)" "pd_ok s1 p1" "kernel_pd s1 = ?pd"
    "\<forall>q < 2 ^ 20. pte_of s1 q = (if q div 1024 = 768 then Some PAGE_RW else None)"
    "vm_pm s1 = pm\<lparr>placement_address := placement_address (vm_pm s1)\<rparr>" "unat (placement_address (vm_pm s1)) \<le> unat ?pd + 0x4004"
    "unat ?pd + 0x2004 \<le> unat (placement_address (vm_pm s1))"
    using make_tables_Inr [OF ok0 _ d none0] u pd m by fastforce
  let ?P0 = "unat (placement_address (vm_pm s1))"
  have P0: "?P0 < 0xF0000000" using t1(6) pd m by simp
  have pm1: "used_up_to 0 n s1" "initrd_end (vm_pm s1) = ?ie"
    using arg_cong [OF t1(5), of buddy_bitmaps] arg_cong [OF t1(5), of nframes] arg_cong [OF t1(5), of initrd_end] m(1,2)
    by (simp_all add: used_up_to_def pm_ok_def pm_wf_def pm_covered_def free_frames_def)
  have I1: "ident_at False n ?P0 ?ie 0 s1"
    using t1(2,4) pm1 by (auto simp: ident_at_def groups_def)
  have P1: "?P0 + 0x901000 \<le> 4096 * n" using t1(6) pd m(5) by linarith
  obtain v2 s2 v3 s3 K where t2: "map_until (ikmalloc d) (\<lambda>s. placement_address (vm_pm s) + PAGE_SIZE) (0, s1) = Inr (v2, s2)"
    and t3: "map_until (ikmalloc d) (\<lambda>s. initrd_end (vm_pm s) + PAGE_SIZE) (v2, s2) = Inr (v3, s3)"
    "ident_at True n ?P0 ?ie K s3" "K \<le> n - 256" "kernel_pd s3 = kernel_pd s1" "unat ?ie + 0x1000 \<le> 4096 * K" "?P0 \<le> unat (placement_address (vm_pm s3))"
    by (rule map_identity_Inr [OF I1 m(3) P0 P1 order_refl m(6) d]) blast
  obtain p3 where p3: "pd_ok s3 p3" using t3(2) by (auto simp: ident_at_def)
  have id3: "used_up_to K n s3" "\<And>q. q < K \<Longrightarrow> pte_of s3 q = Some (frame_pte q)"
    "\<And>q. K \<le> q \<Longrightarrow> q < 2 ^ 20 \<Longrightarrow> pte_of s3 q = None \<or> pte_of s3 q = Some PAGE_RW" "\<And>j. j < 256 \<Longrightarrow> pte_of s3 (KHEAP_PAGE + j) = Some PAGE_RW"
    "unat (placement_address (vm_pm s3)) \<le> 4096 * K" "initrd_end (vm_pm s3) = ?ie" using t3(2) by (auto simp: ident_at_def)
  let ?s4 = "s3\<lparr>vm_pm := (vm_pm s3)\<lparr>placement_address := ?ie + PAGE_SIZE\<rparr>\<rparr>"
  have ok4: "pd_below (4096 * K) ?s4 p3" using pd_okD(2) [OF p3] id3(5) by (rule pd_below_mono)
  have pte4: "pte_of ?s4 = pte_of s3" by (rule ext) (simp add: pte_of_def cong: option.case_cong)
  have tab: "tables p3 ! 768 \<noteq> 0" using pte_of_ok(1) [OF pd_okD(2) [OF p3], of KHEAP_PAGE] id3(4) [of 0] by auto
  have used4: "used_up_to K n ?s4" using id3(1) by (simp add: used_up_to_def pm_ok_def pm_wf_def pm_covered_def free_frames_def)
  have Kn: "K + 256 \<le> n" using t3(3) m(5) by linarith
  obtain v5 s5 where t5: "map_until (ikmalloc d) (\<lambda>s. KHEAP_START + KHEAP_INITIAL_SIZE) (KHEAP_START, ?s4) = Inr (v5, s5)" "pd_below (4096 * K) s5 p3"
    "kernel_pd s5 = kernel_pd s3" "used_up_to (K + 256) n s5" "placement_address (vm_pm s5) = ?ie + PAGE_SIZE"
    "\<forall>q < 2 ^ 20. pte_of s5 q = (if KHEAP_PAGE \<le> q \<and> q < KHEAP_PAGE + 256 then Some (frame_pte (K + (q - KHEAP_PAGE))) else pte_of s3 q)"
    using map_kheap_Inr [OF ok4 tab _ used4 Kn, of "ikmalloc d"] id3(4) unfolding pte4 by auto
  have "vm_map_kernel d s = Inr s5"
    unfolding vm_map_kernel_def using fi kh d pd0 t1(1) t2 t3(1) t5(1) id3(6) by (simp add: ikmalloc_placement placement_alloc_def Let_def)
  moreover have "kernel_pd s5 = ?pd" using t1(3) t3(4) t5(3) by simp
  moreover have "unat ?pd + 0x2004 \<le> 4096 * K" using u t1(7) id3(5) t3(6) by linarith
  moreover have "pte_of s5 q = Some (frame_pte q)" if "q < K" for q using t5(6) id3(2) [OF that] that Kn m(3) by simp
  moreover have "pte_of s5 q = None \<or> pte_of s5 q = Some PAGE_RW" if "q < 2 ^ 20" "K \<le> q \<and> (q < KHEAP_PAGE \<or> KHEAP_PAGE + 256 \<le> q)" for q
    using t5(6) id3(3) [of q] that by auto
  moreover have "pte_of s5 (KHEAP_PAGE + j) = Some (frame_pte (K + j))" if "j < 256" for j using t5(6) that by simp
  ultimately show ?thesis using t3(5) t5(2,4,5) Kn by (intro exI [of _ s5] exI [of _ p3] exI [of _ K]) simp
qed

section \<open>A machine with 32 MB\<close>

text \<open>The usable memory starts where the initial RAM disk ends, at 1 MB.\<close>

definition vm_boot :: vm where
  "vm_boot = vm_empty\<lparr>vm_pm := (pm_boot 0x2000)\<lparr>initrd_end := 0x100000\<rparr>\<rparr>"

lemma vm_boot_placement:
  "(case frame_initialize (vm_pm vm_boot) of Inl _ \<Rightarrow> False | Inr pm \<Rightarrow> placement_address pm = 0x1007F8 \<and> initrd_end pm = 0x100000)"
  by code_simp

lemma vm_boot_enough:
  "\<exists>pm. frame_initialize (vm_pm vm_boot) = Inr pm \<and> enough_memory 0x2000 pm \<and> initrd_end pm = 0x100000 \<and> placement_address pm = 0x1007F8"
proof -
  have "length (buddy_bitmaps (vm_pm vm_boot)) = 8" "sint (pm_usable (vm_pm vm_boot)) = 0x2000000" by code_simp+
  then obtain pm where pm: "frame_initialize (vm_pm vm_boot) = Inr pm" "pm_wf pm" "unat (nframes pm) = 0x2000"
    "free_frames pm = {..<0x2000}"
    using frame_initialize_Inr [of "vm_pm vm_boot"] by auto
  have p: "placement_address pm = 0x1007F8" "initrd_end pm = 0x100000" using vm_boot_placement pm(1) by simp_all
  have "pm_covered pm" using pm(2,3) by (simp add: pm_covered_128)
  then have "enough_memory 0x2000 pm" using pm p by (auto simp: enough_memory_def pm_ok_def lessThan_atLeast0)
  with pm(1) p show ?thesis by blast
qed

section \<open>Properties\<close>

lemma kernel_translation:
  assumes "K + 256 \<le> KHEAP_PAGE" "\<forall>q < K. pte_of s q = Some (frame_pte q)" "\<forall>j < 256. pte_of s (KHEAP_PAGE + j) = Some (frame_pte (K + j))"
    "\<forall>q < 2 ^ 20. K \<le> q \<and> (q < KHEAP_PAGE \<or> KHEAP_PAGE + 256 \<le> q) \<longrightarrow> pte_of s q = None \<or> pte_of s q = Some PAGE_RW"
    and ok: "pd_below L s p" "page_aligned (kernel_pd s)"
  shows "translate (enable_paging (load_page_directory (paddr_pde p) s)) v =
    (if unat v < 4096 * K then Some v
     else if KHEAP_START \<le> v \<and> v < KHEAP_START + KHEAP_INITIAL_SIZE then Some (of_nat (4096 * K) + (v - KHEAP_START)) else None)"
proof -
  let ?q = "unat v div 4096"
  note t = translate_kernel [OF ok, of v] and pn = page_number(3,4) [of v]
  have lt: "unat v < 4096 * K \<longleftrightarrow> ?q < K" by (simp add: div_less_iff_less_mult mult.commute)
  have heap: "KHEAP_START \<le> v \<and> v < KHEAP_START + KHEAP_INITIAL_SIZE \<longleftrightarrow> KHEAP_PAGE \<le> ?q \<and> ?q < KHEAP_PAGE + 256"
    by (simp add: word_le_nat_alt word_less_nat_alt div_less_iff_less_mult less_eq_div_iff_mult_less_eq)
  consider "?q < K" | "\<not> ?q < K" "KHEAP_PAGE \<le> ?q" "?q < KHEAP_PAGE + 256" | "\<not> ?q < K" "\<not> (KHEAP_PAGE \<le> ?q \<and> ?q < KHEAP_PAGE + 256)" by blast
  then show ?thesis
  proof cases
    case 1
    then have "push_bit 12 (drop_bit 12 (frame_pte ?q)) = of_nat ?q * 4096" "frame_pte ?q AND PAGE_PRESENT \<noteq> 0"
      using pte_frame_address [of ?q] pn(2) by blast+
    then show ?thesis using t 1 lt assms(2) pn(1) by simp
  next
    case 2
    define j where "j = ?q - KHEAP_PAGE"
    have j: "?q = KHEAP_PAGE + j" "j < 256" using 2 by (auto simp: j_def)
    then have f: "push_bit 12 (drop_bit 12 (frame_pte (K + j))) = of_nat (K + j) * 4096" "frame_pte (K + j) AND PAGE_PRESENT \<noteq> 0"
      using pte_frame_address [of "K + j"] assms(1) by auto
    have "v = of_nat (KHEAP_PAGE + j) * 4096 + take_bit 12 v" using pn(1) unfolding j(1) by simp
    also have "\<dots> = KHEAP_START + (of_nat j * 4096 + take_bit 12 v)" by (simp add: algebra_simps)
    finally have "v - KHEAP_START = of_nat j * 4096 + take_bit 12 v" by (metis add_diff_cancel_left')
    then have "of_nat (K + j) * 4096 + take_bit 12 v = of_nat (4096 * K) + (v - KHEAP_START)" by (simp add: algebra_simps)
    moreover have "pte_of s ?q = Some (frame_pte (K + j))" using assms(3) j by simp
    ultimately show ?thesis using t 2 lt heap f by simp
  next
    case 3
    then have "pte_of s ?q = None \<or> pte_of s ?q = Some PAGE_RW" using assms(4) pn(2) by (simp add: not_less not_le)
    then show ?thesis using t 3 lt heap by auto
  qed
qed

text \<open>
  C14: the address space at the moment \<open>vm_initialize\<close> turns paging on. With enough memory, and bitmaps that cover every frame (\<open>enough_memory\<close>), none of the loops that build the kernel
  directory and none of the calls in them fails. Once the directory is loaded into CR3 and the paging bit of CR0 is set, the processor
  translates every address below \<open>4096 * K\<close> to itself, among them those of the kernel directory, of its page tables and of the RAM disk; the 256
  pages of the heap are translated to the 256 frames from \<open>K\<close> on; every other address faults; exactly the mapped frames are used.
  What follows in \<open>vm_initialize\<close> is not part of the statement.
\<close>

theorem vm_identity_map:
  assumes "kheap s = 0" and "frame_initialize (vm_pm s) = Inr pm" and "enough_memory n pm" and "0 < d"
  shows "\<exists>s' p K. vm_map_kernel d s = Inr s' \<and> page_dirs s' (kernel_pd s') = Some p \<and>
    K + 256 \<le> n \<and> pm_ok (vm_pm s') \<and> free_frames (vm_pm s') = {K + 256..<n} \<and>
    (\<forall>v. translate (enable_paging (load_page_directory (paddr_pde p) s')) v =
       (if unat v < 4096 * K then Some v
        else if KHEAP_START \<le> v \<and> v < KHEAP_START + KHEAP_INITIAL_SIZE then Some (of_nat (4096 * K) + (v - KHEAP_START)) else None)) \<and>
    unat (kernel_pd s') + 0x2004 \<le> 4096 * K \<and> unat (initrd_end pm) + 0x1000 \<le> 4096 * K \<and>
    (\<forall>i < 1024. tables p ! i \<noteq> 0 \<longrightarrow> unat (tables p ! i) + 4096 \<le> 4096 * K)"
proof -
  obtain s' p K where r: "vm_map_kernel d s = Inr s'" "kernel_pd s' = ALIGN (placement_address pm) PAGE_SIZE" "pd_below (4096 * K) s' p"
    "unat (kernel_pd s') + 0x2004 \<le> 4096 * K" "unat (initrd_end pm) + 0x1000 \<le> 4096 * K"
    "K + 256 \<le> n" "\<forall>q < K. pte_of s' q = Some (frame_pte q)" "\<forall>j < 256. pte_of s' (KHEAP_PAGE + j) = Some (frame_pte (K + j))"
    "\<forall>q < 2 ^ 20. K \<le> q \<and> (q < KHEAP_PAGE \<or> KHEAP_PAGE + 256 \<le> q) \<longrightarrow> pte_of s' q = None \<or> pte_of s' q = Some PAGE_RW"
    "used_up_to (K + 256) n s'"
    using vm_map_kernel_Inr [OF assms] by blast
  have "K + 256 \<le> KHEAP_PAGE" using r(6) assms(3) by (simp add: enough_memory_def)
  moreover have "page_aligned (kernel_pd s')" using r(2) by simp
  ultimately have "\<forall>v. translate (enable_paging (load_page_directory (paddr_pde p) s')) v =
       (if unat v < 4096 * K then Some v
        else if KHEAP_START \<le> v \<and> v < KHEAP_START + KHEAP_INITIAL_SIZE then Some (of_nat (4096 * K) + (v - KHEAP_START)) else None)"
    using kernel_translation [OF _ r(7-9,3)] by blast
  moreover have "page_dirs s' (kernel_pd s') = Some p" "\<forall>i < 1024. tables p ! i \<noteq> 0 \<longrightarrow> unat (tables p ! i) + 4096 \<le> 4096 * K"
    using r(3) by (auto simp: pd_below_def slot_ok_def)
  ultimately show ?thesis using r(1,4-6,10) unfolding used_up_to_def by blast
qed

theorem vm_identity_map_witness:
  "\<exists>s' p K. vm_map_kernel 4 vm_boot = Inr s' \<and> page_dirs s' (kernel_pd s') = Some p \<and> K + 256 \<le> 0x2000 \<and> free_frames (vm_pm s') = {K + 256..<0x2000} \<and>
    translate (enable_paging (load_page_directory (paddr_pde p) s')) 0x100123 = Some 0x100123 \<and>
    translate (enable_paging (load_page_directory (paddr_pde p) s')) 0xC0000010 = Some (of_nat (4096 * K) + 0x10) \<and>
    translate (enable_paging (load_page_directory (paddr_pde p) s')) 0xD0000000 = None"
proof -
  obtain pm where pm: "frame_initialize (vm_pm vm_boot) = Inr pm" "enough_memory 0x2000 pm" "initrd_end pm = 0x100000" using vm_boot_enough by blast
  have "kheap vm_boot = 0" by (simp add: vm_boot_def vm_empty_def)
  then obtain s' p K where r: "vm_map_kernel 4 vm_boot = Inr s'" "page_dirs s' (kernel_pd s') = Some p" "K + 256 \<le> 0x2000"
    "free_frames (vm_pm s') = {K + 256..<0x2000}"
    and t: "\<And>v. translate (enable_paging (load_page_directory (paddr_pde p) s')) v =
       (if unat v < 4096 * K then Some v
        else if KHEAP_START \<le> v \<and> v < KHEAP_START + KHEAP_INITIAL_SIZE then Some (of_nat (4096 * K) + (v - KHEAP_START)) else None)"
    and ie: "unat (initrd_end pm) + 0x1000 \<le> 4096 * K"
    using vm_identity_map [OF _ pm(1,2), of 4] by auto
  have K: "0x101 \<le> K" "K \<le> 0x1F00" using ie pm(3) r(3) by simp_all
  then show ?thesis using r by (intro exI [of _ s'] exI [of _ p] exI [of _ K]) (simp add: t)
qed

text \<open>The bitmaps of the frame allocator lie one behind the other from the next page boundary on.\<close>

definition bitmap_bytes :: "pm_state \<Rightarrow> nat" where
  "bitmap_bytes s = (\<Sum>i \<leftarrow> [0..<Suc MAX_ORDER]. length (bitmap (buddy_bitmaps s ! i)))"

lemma init_bitmap_placement:
  assumes "init_bitmap i s = Inr s'"
  shows "placement_address s' = (if i = 0 then ALIGN (placement_address s) PAGE_SIZE else placement_address s) + of_nat (length (bitmap (buddy_bitmaps s' ! i)))"
    "initrd_end s' = initrd_end s" "\<And>j. j \<noteq> i \<Longrightarrow> buddy_bitmaps s' ! j = buddy_bitmaps s ! j"
  using assms by (auto simp: init_bitmap_def placement_alloc_def arr_set_def Let_def split: if_splits)

lemma init_bitmaps_placement:
  assumes "init_bitmaps is s = Inr s'" "distinct is" "0 \<notin> set is"
  shows "placement_address s' = placement_address s + of_nat (\<Sum>i \<leftarrow> is. length (bitmap (buddy_bitmaps s' ! i))) \<and>
    initrd_end s' = initrd_end s \<and> (\<forall>j. j \<notin> set is \<longrightarrow> buddy_bitmaps s' ! j = buddy_bitmaps s ! j)"
  using assms
proof (induction "is" arbitrary: s)
  case (Cons i "is")
  then obtain s1 where s1: "init_bitmap i s = Inr s1" "init_bitmaps is s1 = Inr s'" by (auto elim!: res_bindE)
  then show ?case using init_bitmap_placement [OF s1(1)] Cons.IH [OF s1(2)] Cons.prems(2,3) by simp
qed simp

lemma frame_initialize_placement:
  assumes "frame_initialize s = Inr pm"
  shows "placement_address pm = ALIGN (placement_address s) PAGE_SIZE + of_nat (bitmap_bytes pm)" "initrd_end pm = initrd_end s"
proof -
  have l: "[0..<Suc MAX_ORDER] = 0 # [1..<Suc MAX_ORDER]" by (simp add: upt_conv_Cons)
  let ?s = "s\<lparr>nframes := word_of_int (sint (pm_usable s) sdiv 0x1000)\<rparr>"
  obtain s1 where s1: "init_bitmap 0 ?s = Inr s1" "init_bitmaps [1..<Suc MAX_ORDER] s1 = Inr pm"
    using assms unfolding frame_initialize_def l by (auto elim!: res_bindE)
  note a = init_bitmap_placement [OF s1(1)] and b = init_bitmaps_placement [OF s1(2)]
  show "placement_address pm = ALIGN (placement_address s) PAGE_SIZE + of_nat (bitmap_bytes pm)" "initrd_end pm = initrd_end s"
    using a b unfolding bitmap_bytes_def l by (simp_all del: upt_Suc upt_rec_numeral)
qed

lemma bitmap_bytes_le:
  assumes "pm_wf pm"
  shows "bitmap_bytes pm \<le> 0x40000000"
proof -
  have "length (bitmap (buddy_bitmaps pm ! j)) \<le> 2 ^ 29 div 2 ^ j" if "j < 8" for j
  proof -
    have "unat (nframes pm) div 2 ^ j \<le> 2 ^ 32 div 2 ^ j" by (intro div_le_mono less_imp_le) (use unat_u32_less [of "nframes pm"] in simp)
    also have "\<dots> = 2 ^ (32 - j)" using that by (simp add: power_diff)
    also have "\<dots> = 2 ^ (3 + (29 - j))" using that by (intro arg_cong [of _ _ "power 2"]) simp
    also have "\<dots> = 8 * 2 ^ (29 - j)" unfolding power_add by simp
    finally have "(unat (nframes pm) div 2 ^ j + 7) div 8 \<le> 2 ^ (29 - j)" by simp
    then show ?thesis using assms that by (simp add: pm_wf_def power_diff)
  qed
  note b = this
  have l: "[0..<Suc MAX_ORDER] = [0, 1, 2, 3, 4, 5, 6, 7]" by (simp add: upt_rec)
  show ?thesis unfolding bitmap_bytes_def l using b [of 0] b [of 1] b [of 2] b [of 3] b [of 4] b [of 5] b [of 6] b [of 7] by simp
qed

text \<open>
  C17: \<open>vm_initialize\<close> hands memory out a second time. Let the memory that is handed out at boot start on a page boundary, at or behind the end of
  the RAM disk and at most a page behind it, as \<open>pm_initialize\<close> arranges it for a kernel and a RAM disk at the
  start of memory. The bitmaps of the frame allocator fill the memory from there on, and the kernel directory starts at the next page
  boundary. \<open>vm_initialize\<close> then moves \<open>placement_address\<close> back to one page behind the RAM disk, and \<open>heap_init\<close> puts the heap descriptor there: inside of the
  bitmaps if they reach that far, otherwise over the kernel directory, or into the gap before the directory if it fits.
\<close>

theorem vm_heap_over_directory:
  assumes "kheap s = 0" and "frame_initialize (vm_pm s) = Inr pm" and "enough_memory n pm" and "0 < d"
    and "page_aligned (placement_address (vm_pm s))" "initrd_end (vm_pm s) \<le> placement_address (vm_pm s)"
      "unat (placement_address (vm_pm s)) \<le> unat (initrd_end (vm_pm s)) + 0x1000"
  shows "\<exists>s' hp s''. vm_map_kernel d s = Inr s' \<and>
    heap_init (ikmalloc d) d KHEAP_START (KHEAP_START + KHEAP_INITIAL_SIZE) KHEAP_MAX_SIZE False False s' = Inr (hp, s'') \<and>
    unat hp = unat (initrd_end (vm_pm s)) + 0x1000 \<and>
    unat (placement_address pm) = unat (placement_address (vm_pm s)) + bitmap_bytes pm \<and>
    kernel_pd s' = ALIGN (placement_address pm) PAGE_SIZE \<and>
    (if hp < placement_address pm
     then unat hp \<in> {unat (placement_address (vm_pm s))..<unat (placement_address (vm_pm s)) + bitmap_bytes pm}
     else if unat (kernel_pd s') < unat hp + 20 then range_of hp sizeof_heap \<inter> range_of (kernel_pd s') sizeof_page_directory \<noteq> {}
     else range_of hp sizeof_heap \<subseteq> {unat (placement_address pm)..<unat (kernel_pd s')})"
proof -
  obtain s' p K where r: "vm_map_kernel d s = Inr s'" "kernel_pd s' = ALIGN (placement_address pm) PAGE_SIZE" "pd_below (4096 * K) s' p"
    "placement_address (vm_pm s') = initrd_end pm + PAGE_SIZE"
    using vm_map_kernel_Inr [OF assms(1-4)] by blast
  let ?P0 = "placement_address (vm_pm s)" and ?hp = "initrd_end pm + PAGE_SIZE"
  note fp = frame_initialize_placement [OF assms(2), unfolded ALIGN_aligned [OF assms(5)]]
  have m: "unat (placement_address pm) + 0x908000 \<le> 0xC0000000" "unat (initrd_end pm) + 0x101000 \<le> 0xC0000000" "bitmap_bytes pm \<le> 0x40000000"
    using assms(3) bitmap_bytes_le by (auto simp: enough_memory_def pm_ok_def)
  have P0: "unat (placement_address pm) = unat ?P0 + bitmap_bytes pm"
    using m(2,3) assms(7) fp by (simp add: unat_word_ariths unat_of_nat)
  have P1: "unat (initrd_end pm) \<le> unat ?P0" using assms(6) fp(2) by (simp add: word_le_nat_alt)
  have al: "unat (placement_address pm) \<le> unat (kernel_pd s')" using r(2) m(1) ALIGN_ge [of "placement_address pm"] by (simp add: word_le_nat_alt)
  have u: "unat ?hp = unat (initrd_end pm) + 0x1000" using m(2) by (simp add: unat_word_ariths)
  have "kheap s' = 0" using r(3) by (simp add: pd_below_def)
  moreover have "initrd_end pm + 0x1000 \<noteq> 0" "0x1014 + initrd_end pm \<noteq> 0"
    using m(2) by (auto simp: unat_word_ariths unat_eq_0 [symmetric])
  moreover have "ALIGN KHEAP_START PAGE_SIZE = KHEAP_START" "ALIGN (KHEAP_START + KHEAP_INITIAL_SIZE) PAGE_SIZE = KHEAP_START + KHEAP_INITIAL_SIZE" by code_simp+
  ultimately obtain s'' where h: "heap_init (ikmalloc d) d KHEAP_START (KHEAP_START + KHEAP_INITIAL_SIZE) KHEAP_MAX_SIZE False False s' = Inr (?hp, s'')"
    using assms(4) r(4) by (auto simp: heap_init_def ikmalloc_placement avl_insert_NULL placement_alloc_def create_node_def Let_def)
  have "max (unat ?hp) (unat (kernel_pd s')) \<in> range_of ?hp sizeof_heap \<inter> range_of (kernel_pd s') sizeof_page_directory"
    if "unat (kernel_pd s') < unat ?hp + 20"
    using that u P1 P0 al by (auto simp: range_of_def)
  then have "range_of ?hp sizeof_heap \<inter> range_of (kernel_pd s') sizeof_page_directory \<noteq> {}" if "unat (kernel_pd s') < unat ?hp + 20"
    using that by blast
  moreover have "range_of ?hp sizeof_heap \<subseteq> {unat (placement_address pm)..<unat (kernel_pd s')}"
    if "\<not> ?hp < placement_address pm" "\<not> unat (kernel_pd s') < unat ?hp + 20"
    using that by (auto simp: range_of_def word_less_nat_alt)
  moreover have "unat ?hp \<in> {unat ?P0..<unat ?P0 + bitmap_bytes pm}" if "?hp < placement_address pm"
    using that u P0 assms(7) fp(2) by (auto simp: word_less_nat_alt)
  ultimately show ?thesis using r(1,2) h u P0 fp(2) by (intro exI [of _ s'] exI [of _ ?hp] exI [of _ s'']) (simp del: unat_eq_0)
qed

theorem vm_heap_over_directory_witness:
  "\<exists>s' s''. vm_map_kernel 4 vm_boot = Inr s' \<and> kernel_pd s' = 0x101000 \<and>
    heap_init (ikmalloc 4) 4 KHEAP_START (KHEAP_START + KHEAP_INITIAL_SIZE) KHEAP_MAX_SIZE False False s' = Inr (0x101000, s'')"
proof -
  obtain pm where pm: "frame_initialize (vm_pm vm_boot) = Inr pm" "enough_memory 0x2000 pm"
    "placement_address pm = 0x1007F8" using vm_boot_enough by blast
  have b: "kheap vm_boot = 0" "initrd_end (vm_pm vm_boot) = 0x100000" "placement_address (vm_pm vm_boot) = 0x100000"
    by (simp_all add: vm_boot_def vm_empty_def pm_boot_def)
  have a: "page_aligned 0x100000" "ALIGN 0x1007F8 PAGE_SIZE = 0x101000" by (simp add: page_aligned_def) code_simp
  have c: "page_aligned (placement_address (vm_pm vm_boot))" "initrd_end (vm_pm vm_boot) \<le> placement_address (vm_pm vm_boot)"
    "unat (placement_address (vm_pm vm_boot)) \<le> unat (initrd_end (vm_pm vm_boot)) + 0x1000" "0 < (4 :: nat)"
    using a(1) b by simp_all
  obtain s' hp s'' where r: "vm_map_kernel 4 vm_boot = Inr s'"
    "heap_init (ikmalloc 4) 4 KHEAP_START (KHEAP_START + KHEAP_INITIAL_SIZE) KHEAP_MAX_SIZE False False s' = Inr (hp, s'')"
    "unat hp = unat (initrd_end (vm_pm vm_boot)) + 0x1000" "kernel_pd s' = ALIGN (placement_address pm) PAGE_SIZE"
    using vm_heap_over_directory [OF b(1) pm(1,2) c(4) c(1-3)] by (elim exE conjE) (rule that; assumption)
  have "hp = 0x101000" using r(3) b(2) by (simp add: word_unat_eq_iff)
  moreover have "kernel_pd s' = 0x101000" using r(4) a(2) pm(3) by simp
  ultimately show ?thesis using r(1,2) by blast
qed

end
