(* ===== verification/Clone_Spec.thy ===== *)
theory Clone_Spec
  imports Paging_Spec
begin

text \<open>
  Cloning of address spaces. The copy of a page table is described on the level of frames: which frames are taken from the frame
  allocator, what the new entries hold and what the bytes of every frame are afterwards.
\<close>

section \<open>Frames and their contents\<close>

text \<open>The bytes of frame \<open>f\<close>, and the frame number in a page table entry.\<close>

definition frame_mem :: "vm \<Rightarrow> nat \<Rightarrow> u8 list" where
  "frame_mem s f = map (\<lambda>i. phys_mem s (of_nat (4096 * f + i))) [0..<4096]"

definition pfn_of :: "u32 \<Rightarrow> nat" where
  "pfn_of e = unat (drop_bit 12 e)"

lemma pfn_of_less: "pfn_of e < 2 ^ 20"
  using unat_u32_less [of e] by (simp add: pfn_of_def unat_drop_bit_div div_less_iff_less_mult)

lemma pfn_of_frame: "of_nat (pfn_of e) = drop_bit 12 e"
  by (simp add: pfn_of_def)

lemma frame_mem_cong: "phys_mem s = phys_mem t \<Longrightarrow> frame_mem s = frame_mem t"
  by (simp add: frame_mem_def fun_eq_iff)

lemma frame_address: "h < 2 ^ 20 \<Longrightarrow> i < 4096 \<Longrightarrow> unat (of_nat (4096 * h + i) :: u32) = 4096 * h + i"
  by (simp only: unat_of_nat) simp

lemma frame_offset:
  assumes "g < 2 ^ 20" "h < 2 ^ 20" "i < 4096"
  shows "unat (of_nat (4096 * h + i) - of_nat (4096 * g) :: u32) < 4096 \<longleftrightarrow> h = g"
proof -
  have u: "unat (of_nat (4096 * h + i) :: u32) = 4096 * h + i" "unat (of_nat (4096 * g) :: u32) = 4096 * g"
    using frame_address [OF assms(2,3)] frame_address [OF assms(1), of 0] by simp_all
  show ?thesis
  proof (cases "4096 * g \<le> 4096 * h + i")
    case True
    then have "unat (of_nat (4096 * h + i) - of_nat (4096 * g) :: u32) = 4096 * h + i - 4096 * g"
      using u by (simp only: unat_sub word_le_nat_alt)
    then show ?thesis using True assms(3) by linarith
  next
    case False
    have "unat (of_nat (4096 * h + i) - of_nat (4096 * g) :: u32) = 4096 * h + i + 2 ^ 32 - 4096 * g"
      using False u assms by (subst unat_sub_if_size) (simp only: word_size word_le_nat_alt, simp)
    moreover have "4096 * g + 4096 \<le> 2 ^ 32" using assms by simp
    ultimately have "\<not> unat (of_nat (4096 * h + i) - of_nat (4096 * g) :: u32) < 4096" by linarith
    moreover have "h \<noteq> g" using False by auto
    ultimately show ?thesis by blast
  qed
qed

lemma copy_page:
  assumes "f < 2 ^ 20" "g < 2 ^ 20"
  shows "copy_words 1024 (of_nat (4096 * f)) (of_nat (4096 * g)) m = copied (of_nat (4096 * g)) (of_nat (4096 * f)) 4096 m"
proof (cases "f = g")
  case True
  then show ?thesis by (simp add: copy_words_same copied_def fun_eq_iff)
next
  case False
  have "(of_nat (4096 * f) + of_nat j :: u32) \<noteq> of_nat (4096 * g) + of_nat i" if "i < 4096" "j < 4096" for i j
  proof
    assume "(of_nat (4096 * f) + of_nat j :: u32) = of_nat (4096 * g) + of_nat i"
    then have "unat (of_nat (4096 * f + j) :: u32) = unat (of_nat (4096 * g + i) :: u32)" by (simp only: of_nat_add)
    then have e: "4096 * f + j = 4096 * g + i" using frame_address assms that by simp
    have "(4096 * f + j) div 4096 = f" "(4096 * g + i) div 4096 = g" using that by simp_all
    then show False using False unfolding e by simp
  qed
  then show ?thesis using copy_words_copied [of 1024] by simp
qed

lemma frame_mem_copy:
  assumes "f < 2 ^ 20" "g < 2 ^ 20" "h < 2 ^ 20"
  shows "frame_mem (copy_physical_page (of_nat f * FRAME_SIZE) (of_nat g * FRAME_SIZE) s) h = (if h = g then frame_mem s f else frame_mem s h)"
proof -
  have c: "of_nat f * FRAME_SIZE = of_nat (4096 * f)" "of_nat g * FRAME_SIZE = (of_nat (4096 * g) :: u32)" for f g by simp_all
  have "copied (of_nat (4096 * g)) (of_nat (4096 * f)) 4096 (phys_mem s) (of_nat (4096 * h + i)) =
    phys_mem s (of_nat (4096 * (if h = g then f else h) + i))" if "i < 4096" for i
    unfolding copied_def frame_offset [OF assms(2,3) that] by (simp add: algebra_simps)
  then have "frame_mem (copy_physical_page (of_nat f * FRAME_SIZE) (of_nat g * FRAME_SIZE) s) h = frame_mem s (if h = g then f else h)"
    unfolding frame_mem_def copy_physical_page_def c copy_page [OF assms(1,2)]
    by (intro map_cong refl) (simp del: of_nat_add of_nat_mult split del: if_split)
  then show ?thesis by simp
qed

lemma copy_flag: "(if e AND 2 ^ k \<noteq> 0 then x OR 2 ^ k else x) = x OR (e AND 2 ^ k)" for e :: u32
  by (rule bit_word_eqI) (auto simp: and_exp_eq_0_iff_not_bit bit_simps)

lemma clone_flags_eq: "clone_flags e e' = e' OR (e AND 0x67)"
proof -
  have p: "2 ^ 0 = (1 :: u32)" "2 ^ 1 = (2 :: u32)" "2 ^ 2 = (4 :: u32)" "2 ^ 5 = (0x20 :: u32)" "2 ^ 6 = (0x40 :: u32)" by simp_all
  have "(0x67 :: u32) = 1 OR 2 OR 4 OR 0x20 OR 0x40" by simp
  then have "e AND 0x67 = (e AND 1) OR (e AND 2) OR (e AND 4) OR (e AND 0x20) OR (e AND 0x40)"
    by (simp only: bit.conj_disj_distrib)
  moreover have "clone_flags e e' = ((((e' OR (e AND 1)) OR (e AND 2)) OR (e AND 4)) OR (e AND 0x20)) OR (e AND 0x40)"
    unfolding clone_flags_def Let_def
    by (simp only: copy_flag [of e 0, unfolded p] copy_flag [of e 1, unfolded p] copy_flag [of e 2, unfolded p]
      copy_flag [of e 5, unfolded p] copy_flag [of e 6, unfolded p])
  ultimately show ?thesis by (simp only: or.assoc)
qed

lemma pfn_of_clone: "pfn_of (clone_flags e e') = pfn_of e'"
  by (simp add: pfn_of_def clone_flags_eq)

section \<open>Cloning a table\<close>

text \<open>The frames that the clone of the entries \<open>is\<close> of \<open>es\<close> needs are in use elsewhere, and there are enough free ones.\<close>

definition clone_ready :: "u32 \<Rightarrow> u32 \<Rightarrow> u32 list \<Rightarrow> u32 list \<Rightarrow> vm \<Rightarrow> bool" where
  "clone_ready st dt es ds s \<longleftrightarrow> st \<noteq> 0 \<and> dt \<noteq> 0 \<and> st \<noteq> dt \<and> page_tables s st = Some es \<and> page_tables s dt = Some ds \<and>
     length es = 1024 \<and> length ds = 1024 \<and> pm_ok (vm_pm s) \<and> unat (nframes (vm_pm s)) \<le> 2 ^ 20 \<and>
     (\<forall>i < 1024. pfn_of (es ! i) \<noteq> 0 \<longrightarrow> pfn_of (es ! i) \<notin> free_frames (vm_pm s))"

lemma pfn_of_frame_pte: "f < 2 ^ 20 \<Longrightarrow> pfn_of (frame_pte f) = f"
proof -
  assume "f < 2 ^ 20"
  moreover have "push_bit 12 (of_nat f :: u32) = of_nat (f * 4096)" by (simp add: push_bit_eq_mult)
  ultimately have "unat (drop_bit 12 (push_bit 12 (of_nat f) :: u32)) = f" by (simp only: unat_drop_bit_div unat_of_nat) simp
  then show ?thesis by (simp add: pfn_of_def frame_pte_def)
qed

lemma pfn_of_eq_0: "pfn_of e = 0 \<longleftrightarrow> drop_bit 12 e = 0"
  by (simp add: pfn_of_def unat_eq_0)

lemma clone_entry_empty:
  assumes "clone_ready st dt es ds s" "i < 1024" "pfn_of (es ! i) = 0"
  shows "clone_entry st dt i s = Inr (s\<lparr>page_tables := (page_tables s)(dt \<mapsto> ds[i := PAGE_RW])\<rparr>)"
  using assms by (simp add: clone_ready_def clone_entry_def arr_get_def arr_set_def pfn_of_eq_0)

lemma clone_entry_copy:
  assumes r: "clone_ready st dt es ds s" and i: "i < 1024" "pfn_of (es ! i) \<noteq> 0" "ds ! i = 0" and f: "free_frames (vm_pm s) \<noteq> {}"
  obtains s' f where "clone_entry st dt i s = Inr s'" "f \<in> free_frames (vm_pm s)" "free_frames (vm_pm s') = free_frames (vm_pm s) - {f}"
    "clone_ready st dt es (ds[i := frame_pte f OR (es ! i AND 0x67)]) s'" "page_tables s' = (page_tables s)(dt \<mapsto> ds[i := frame_pte f OR (es ! i AND 0x67)])"
    "\<And>h. h < 2 ^ 20 \<Longrightarrow> frame_mem s' h = (if h = f then frame_mem s (pfn_of (es ! i)) else frame_mem s h)"
    "s' = s\<lparr>vm_pm := (vm_pm s)\<lparr>buddy_bitmaps := buddy_bitmaps (vm_pm s')\<rparr>, page_tables := page_tables s', phys_mem := phys_mem s', cr0 := cr0 s'\<rparr>"
proof -
  let ?f = "Min (free_frames (vm_pm s))"
  have fm: "?f \<in> free_frames (vm_pm s)" using f by simp
  then have "?f < unat (nframes (vm_pm s))" unfolding free_frames_def by blast
  then have f20: "?f < 2 ^ 20" using r unfolding clone_ready_def by linarith
  obtain bms where b: "pmalloc FRAME_SIZE (vm_pm s) = Inr (int ?f, (vm_pm s)\<lparr>buddy_bitmaps := bms\<rparr>)"
    "pm_ok ((vm_pm s)\<lparr>buddy_bitmaps := bms\<rparr>)" "free_frames ((vm_pm s)\<lparr>buddy_bitmaps := bms\<rparr>) = free_frames (vm_pm s) - {?f}"
    using pmalloc_frame_some [of "vm_pm s"] r f by (auto simp: clone_ready_def)
  let ?e = "frame_pte ?f OR (es ! i AND 0x67)"
  let ?t = "s\<lparr>vm_pm := (vm_pm s)\<lparr>buddy_bitmaps := bms\<rparr>, page_tables := (page_tables s)(dt \<mapsto> ds[i := ?e])\<rparr>"
  let ?s' = "copy_physical_page (of_nat (pfn_of (es ! i)) * FRAME_SIZE) (of_nat ?f * FRAME_SIZE) ?t"
  have pe: "drop_bit 12 ?e = of_nat ?f"
    using pfn_of_frame_pte [OF f20] pfn_of_frame [of ?e] pfn_of_clone [of "es ! i" "frame_pte ?f"] by (simp add: clone_flags_eq)
  have es: "drop_bit 12 (es ! i) = of_nat (pfn_of (es ! i))" by (simp add: pfn_of_frame)
  have z: "drop_bit 12 (es ! i) \<noteq> 0" using i(2) by (auto simp: pfn_of_def)
  have c: "clone_entry st dt i s = Inr ?s'"
    using r i(1,3) z b(1) pe unfolding es [symmetric]
    by (simp add: clone_ready_def clone_entry_def alloc_frame_def PTE_TO_PFN_def arr_get_def arr_set_def Let_def clone_flags_eq frame_pte_def)
  have m: "frame_mem ?s' h = (if h = ?f then frame_mem s (pfn_of (es ! i)) else frame_mem s h)" if "h < 2 ^ 20" for h
    using frame_mem_copy [OF pfn_of_less f20 that, of "es ! i" ?t] frame_mem_cong [of ?t s] by simp
  have "clone_ready st dt es (ds[i := ?e]) ?s'" "free_frames (vm_pm ?s') = free_frames (vm_pm s) - {?f}"
    using r b(2,3) by (auto simp: clone_ready_def copy_physical_page_def)
  then show thesis by (intro that [OF c fm _ _ _ m]) (simp_all add: copy_physical_page_def)
qed

text \<open>
  What the loop over the indices \<open>I\<close> does, from \<open>s\<close> to \<open>s'\<close>: entry \<open>i\<close> of the clone gets the frame \<open>g i\<close>, which was free, is used only once, and holds
  the bytes of the original; nothing else changes.
\<close>

definition cloned :: "u32 \<Rightarrow> u32 list \<Rightarrow> nat set \<Rightarrow> u32 list \<Rightarrow> vm \<Rightarrow> u32 list \<Rightarrow> (nat \<Rightarrow> nat) \<Rightarrow> vm \<Rightarrow> bool" where
  "cloned dt es I ds s ds' g s' \<longleftrightarrow> page_tables s' = (page_tables s)(dt \<mapsto> ds') \<and>
    (\<forall>i < 1024. ds' ! i = (if i \<notin> I then ds ! i else if pfn_of (es ! i) = 0 then PAGE_RW else frame_pte (g i) OR (es ! i AND 0x67))) \<and>
    inj_on g {i \<in> I. pfn_of (es ! i) \<noteq> 0} \<and> g ` {i \<in> I. pfn_of (es ! i) \<noteq> 0} = free_frames (vm_pm s) - free_frames (vm_pm s') \<and>
    free_frames (vm_pm s') \<subseteq> free_frames (vm_pm s) \<and> (\<forall>i \<in> I. pfn_of (es ! i) \<noteq> 0 \<longrightarrow> frame_mem s' (g i) = frame_mem s (pfn_of (es ! i))) \<and>
    (\<forall>h < 2 ^ 20. h \<notin> free_frames (vm_pm s) - free_frames (vm_pm s') \<longrightarrow> frame_mem s' h = frame_mem s h) \<and>
    s' = s\<lparr>vm_pm := (vm_pm s)\<lparr>buddy_bitmaps := buddy_bitmaps (vm_pm s')\<rparr>, page_tables := page_tables s', phys_mem := phys_mem s', cr0 := cr0 s'\<rparr>"

lemma cloned_skip:
  assumes "cloned dt es I (ds[i := PAGE_RW]) (s\<lparr>page_tables := (page_tables s)(dt \<mapsto> ds[i := PAGE_RW])\<rparr>) ds' g s'"
    and "pfn_of (es ! i) = 0" "i \<notin> I" "i < 1024" "length ds = 1024"
  shows "cloned dt es (insert i I) ds s ds' g s'"
proof -
  let ?s1 = "s\<lparr>page_tables := (page_tables s)(dt \<mapsto> ds[i := PAGE_RW])\<rparr>"
  have st: "{j \<in> insert i I. pfn_of (es ! j) \<noteq> 0} = {j \<in> I. pfn_of (es ! j) \<noteq> 0}" using assms(2) by auto
  have fm: "frame_mem ?s1 = frame_mem s" by (rule frame_mem_cong) simp
  note h = assms(1) [unfolded cloned_def]
  have "\<forall>j < 1024. ds' ! j = (if j \<notin> insert i I then ds ! j else if pfn_of (es ! j) = 0 then PAGE_RW else frame_pte (g j) OR (es ! j AND 0x67))"
    using h assms(2-5) by auto
  moreover have "s' = s\<lparr>vm_pm := (vm_pm s)\<lparr>buddy_bitmaps := buddy_bitmaps (vm_pm s')\<rparr>, page_tables := page_tables s', phys_mem := phys_mem s', cr0 := cr0 s'\<rparr>"
    by (rule trans [OF h [THEN conjunct2, THEN conjunct2, THEN conjunct2, THEN conjunct2, THEN conjunct2, THEN conjunct2, THEN conjunct2]]) simp
  moreover have "\<forall>j \<in> insert i I. pfn_of (es ! j) \<noteq> 0 \<longrightarrow> frame_mem s' (g j) = frame_mem s (pfn_of (es ! j))" using h assms(2) by (simp add: fm)
  ultimately show ?thesis using h unfolding cloned_def st fm by simp
qed

lemma cloned_copy:
  assumes "cloned dt es I (ds[i := frame_pte f OR (es ! i AND 0x67)]) s1 ds' g s'" and P: "pfn_of (es ! i) \<noteq> 0"
    and I: "i \<notin> I" "i < 1024" "I \<subseteq> {..<1024}" "length ds = 1024"
    and f: "f \<in> free_frames (vm_pm s)" "f < 2 ^ 20" "free_frames (vm_pm s1) = free_frames (vm_pm s) - {f}"
    and src: "\<And>j. j < 1024 \<Longrightarrow> pfn_of (es ! j) \<noteq> 0 \<Longrightarrow> pfn_of (es ! j) \<noteq> f"
    and pt: "page_tables s1 = (page_tables s)(dt \<mapsto> ds[i := frame_pte f OR (es ! i AND 0x67)])"
    and m: "\<And>h. h < 2 ^ 20 \<Longrightarrow> frame_mem s1 h = (if h = f then frame_mem s (pfn_of (es ! i)) else frame_mem s h)"
    and s1: "s1 = s\<lparr>vm_pm := (vm_pm s)\<lparr>buddy_bitmaps := buddy_bitmaps (vm_pm s1)\<rparr>, page_tables := page_tables s1, phys_mem := phys_mem s1, cr0 := cr0 s1\<rparr>"
  shows "cloned dt es (insert i I) ds s ds' (g(i := f)) s'"
proof -
  let ?P = "\<lambda>i. pfn_of (es ! i) \<noteq> 0" and ?g = "g(i := f)"
  from assms(1) have h: "page_tables s' = (page_tables s1)(dt \<mapsto> ds')"
      "\<forall>j < 1024. ds' ! j = (if j \<notin> I then ds[i := frame_pte f OR (es ! i AND 0x67)] ! j else if pfn_of (es ! j) = 0 then PAGE_RW else frame_pte (g j) OR (es ! j AND 0x67))"
      "inj_on g {j \<in> I. ?P j}" "g ` {j \<in> I. ?P j} = free_frames (vm_pm s1) - free_frames (vm_pm s')"
      "free_frames (vm_pm s') \<subseteq> free_frames (vm_pm s1)" "\<forall>j \<in> I. ?P j \<longrightarrow> frame_mem s' (g j) = frame_mem s1 (pfn_of (es ! j))"
      "\<forall>h < 2 ^ 20. h \<notin> free_frames (vm_pm s1) - free_frames (vm_pm s') \<longrightarrow> frame_mem s' h = frame_mem s1 h"
    and s': "s' = s1\<lparr>vm_pm := (vm_pm s1)\<lparr>buddy_bitmaps := buddy_bitmaps (vm_pm s')\<rparr>, page_tables := page_tables s', phys_mem := phys_mem s', cr0 := cr0 s'\<rparr>"
    unfolding cloned_def by blast+
  have st: "{j \<in> insert i I. ?P j} = insert i {j \<in> I. ?P j}" using P by auto
  have f': "f \<notin> free_frames (vm_pm s')" "f \<notin> free_frames (vm_pm s1)" using h(5) f(3) by auto
  have used: "free_frames (vm_pm s) - free_frames (vm_pm s') = insert f (free_frames (vm_pm s1) - free_frames (vm_pm s'))" using f(1,3) f' by auto
  have img: "g ` {j \<in> I. ?P j} = ?g ` {j \<in> I. ?P j}" using I(1) by (intro image_cong) auto
  have u: "(vm_pm s1)\<lparr>buddy_bitmaps := x\<rparr> = (vm_pm s)\<lparr>buddy_bitmaps := x\<rparr>"
    "s1\<lparr>vm_pm := y, page_tables := t, phys_mem := z, cr0 := c\<rparr> = s\<lparr>vm_pm := y, page_tables := t, phys_mem := z, cr0 := c\<rparr>" for x y t z c
    by (subst s1, simp)+
  show ?thesis unfolding cloned_def
  proof (intro conjI)
    show "page_tables s' = (page_tables s)(dt \<mapsto> ds')" using h(1) pt by simp
    show "\<forall>j < 1024. ds' ! j = (if j \<notin> insert i I then ds ! j else if pfn_of (es ! j) = 0 then PAGE_RW else frame_pte (?g j) OR (es ! j AND 0x67))"
      using h(2) P I by auto
    show "?g ` {j \<in> insert i I. ?P j} = free_frames (vm_pm s) - free_frames (vm_pm s')" unfolding used st by (simp only: image_insert fun_upd_same img [symmetric] h(4))
    show "inj_on ?g {j \<in> insert i I. ?P j}" using h(3,4) f'(2) img I(1) unfolding st by (auto simp: inj_on_def)
    show "free_frames (vm_pm s') \<subseteq> free_frames (vm_pm s)" using h(5) f(3) by auto
    show "\<forall>j \<in> insert i I. ?P j \<longrightarrow> frame_mem s' (?g j) = frame_mem s (pfn_of (es ! j))"
      using h(6,7) f(2) f' m [OF f(2)] m [OF pfn_of_less] src I(1,3) by (auto simp: subset_iff)
    show "\<forall>x < 2 ^ 20. x \<notin> free_frames (vm_pm s) - free_frames (vm_pm s') \<longrightarrow> frame_mem s' x = frame_mem s x" using h(7) m unfolding used by auto
    show "s' = s\<lparr>vm_pm := (vm_pm s)\<lparr>buddy_bitmaps := buddy_bitmaps (vm_pm s')\<rparr>, page_tables := page_tables s', phys_mem := phys_mem s', cr0 := cr0 s'\<rparr>"
      by (rule trans [OF s']) (simp only: u)
  qed
qed

lemma clone_entries_Inr:
  assumes "clone_ready st dt es ds s" "distinct is" "set is \<subseteq> {..<1024}" "\<forall>i \<in> set is. ds ! i = 0"
    "card {i \<in> set is. pfn_of (es ! i) \<noteq> 0} \<le> card (free_frames (vm_pm s))"
  shows "\<exists>s' ds' g. clone_entries st dt is s = Inr s' \<and> clone_ready st dt es ds' s' \<and> cloned dt es (set is) ds s ds' g s'"
  using assms
proof (induction "is" arbitrary: s ds)
  case Nil
  then have "page_tables s = (page_tables s)(dt \<mapsto> ds)" by (auto simp: clone_ready_def)
  with Nil show ?case by (intro exI [of _ s] exI [of _ ds]) (auto simp: cloned_def)
next
  case (Cons i "is")
  let ?P = "\<lambda>i. pfn_of (es ! i) \<noteq> 0"
  have i: "i < 1024" "i \<notin> set is" "distinct is" "set is \<subseteq> {..<1024}" "ds ! i = 0" "\<forall>j \<in> set is. ds ! j = 0" using Cons.prems by auto
  have z: "\<forall>j \<in> set is. ds[i := x] ! j = 0" for x using i by (metis nth_list_update_neq)
  have len: "length ds = 1024" using Cons.prems(1) by (simp add: clone_ready_def)
  show ?case
  proof (cases "?P i")
    case False
    let ?s1 = "s\<lparr>page_tables := (page_tables s)(dt \<mapsto> ds[i := PAGE_RW])\<rparr>"
    have e: "clone_entry st dt i s = Inr ?s1" using Cons.prems(1) i(1) False by (intro clone_entry_empty) auto
    have r1: "clone_ready st dt es (ds[i := PAGE_RW]) ?s1" using Cons.prems(1) by (simp add: clone_ready_def)
    have "{j \<in> set (i # is). ?P j} = {j \<in> set is. ?P j}" using False by auto
    then have "card {j \<in> set is. ?P j} \<le> card (free_frames (vm_pm ?s1))" using Cons.prems(5) by simp
    from Cons.IH [OF r1 i(3,4) z this] obtain s' ds' g where h: "clone_entries st dt is ?s1 = Inr s'" "clone_ready st dt es ds' s'"
      "cloned dt es (set is) (ds[i := PAGE_RW]) ?s1 ds' g s'" by blast
    have "cloned dt es (insert i (set is)) ds s ds' g s'" using cloned_skip [OF h(3) _ i(2,1) len] False by blast
    then show ?thesis using e h(1,2) by auto
  next
    case True
    have "{j \<in> set (i # is). ?P j} = insert i {j \<in> set is. ?P j}" using True by auto
    then have cd: "Suc (card {j \<in> set is. ?P j}) \<le> card (free_frames (vm_pm s))" using Cons.prems(5) i(2) by simp
    then have ne: "free_frames (vm_pm s) \<noteq> {}" by auto
    obtain s1 f where c: "clone_entry st dt i s = Inr s1" "f \<in> free_frames (vm_pm s)" "free_frames (vm_pm s1) = free_frames (vm_pm s) - {f}"
      "clone_ready st dt es (ds[i := frame_pte f OR (es ! i AND 0x67)]) s1" "page_tables s1 = (page_tables s)(dt \<mapsto> ds[i := frame_pte f OR (es ! i AND 0x67)])"
      "\<And>h. h < 2 ^ 20 \<Longrightarrow> frame_mem s1 h = (if h = f then frame_mem s (pfn_of (es ! i)) else frame_mem s h)"
      "s1 = s\<lparr>vm_pm := (vm_pm s)\<lparr>buddy_bitmaps := buddy_bitmaps (vm_pm s1)\<rparr>, page_tables := page_tables s1, phys_mem := phys_mem s1, cr0 := cr0 s1\<rparr>"
      by (rule clone_entry_copy [OF Cons.prems(1) i(1) True i(5) ne]) blast
    have "card {j \<in> set is. ?P j} \<le> card (free_frames (vm_pm s1))" using cd c(2,3) by simp
    from Cons.IH [OF c(4) i(3,4) z this] obtain s' ds' g where h: "clone_entries st dt is s1 = Inr s'" "clone_ready st dt es ds' s'"
      "cloned dt es (set is) (ds[i := frame_pte f OR (es ! i AND 0x67)]) s1 ds' g s'" by blast
    have f20: "f < 2 ^ 20" using c(2) Cons.prems(1) by (auto simp: clone_ready_def free_frames_def)
    have src: "pfn_of (es ! j) \<noteq> f" if "j < 1024" "?P j" for j using Cons.prems(1) c(2) that by (auto simp: clone_ready_def)
    have "cloned dt es (set (i # is)) ds s ds' (g(i := f)) s'"
      using cloned_copy [OF h(3) True i(2,1,4) len c(2) f20 c(3) src c(5,6,7)] by simp
    moreover have "clone_entries st dt (i # is) s = Inr s'" using c(1) h(1) by simp
    ultimately show ?thesis using h(2) by blast
  qed
qed

section \<open>Cloning a directory\<close>

lemma clone_slots_kernel:
  assumes "kernel_pd s \<noteq> 0" "page_dirs s (kernel_pd s) = Some p" "length (tables p) = 1024" "length (entries p) = 1024"
    "dest \<noteq> 0" "dest \<noteq> kernel_pd s" "page_dirs s dest = Some q" "length (tables q) = 1024" "length (entries q) = 1024"
    "set is \<subseteq> {..<1024}" "\<forall>i \<in> set is. tables q ! i = 0 \<or> tables q ! i = tables p ! i"
  shows "\<exists>q'. clone_slots malloc (kernel_pd s) dest is s = Inr (s\<lparr>page_dirs := (page_dirs s)(dest \<mapsto> q')\<rparr>) \<and>
    length (tables q') = 1024 \<and> length (entries q') = 1024 \<and> paddr_pde q' = paddr_pde q \<and>
    (\<forall>j < 1024. tables q' ! j = (if j \<in> set is \<and> tables p ! j \<noteq> 0 then tables p ! j else tables q ! j) \<and>
      entries q' ! j = (if j \<notin> set is then entries q ! j else if tables p ! j = 0 then TABLE_RW else entries p ! j))"
  using assms
proof (induction "is" arbitrary: s q)
  case Nil
  then have "(page_dirs s)(dest \<mapsto> q) = page_dirs s" by auto
  with Nil show ?case by (intro exI [of _ q]) auto
next
  case (Cons i "is")
  let ?q1 = "q\<lparr>tables := (tables q)[i := (if tables p ! i = 0 then tables q ! i else tables p ! i)],
    entries := (entries q)[i := (if tables p ! i = 0 then TABLE_RW else entries p ! i)]\<rparr>"
  let ?s1 = "s\<lparr>page_dirs := (page_dirs s)(dest \<mapsto> ?q1)\<rparr>"
  have i: "i < 1024" "set is \<subseteq> {..<1024}" using Cons.prems by auto
  have c: "clone_slot malloc (kernel_pd s) dest i s = Inr ?s1"
    using Cons.prems i by (simp add: clone_slot_def set_table_def arr_get_def arr_set_def)
  have "\<forall>j \<in> set is. tables ?q1 ! j = 0 \<or> tables ?q1 ! j = tables p ! j" using Cons.prems(8,11) i by (auto simp: nth_list_update)
  then have "\<exists>q'. clone_slots malloc (kernel_pd ?s1) dest is ?s1 = Inr (?s1\<lparr>page_dirs := (page_dirs ?s1)(dest \<mapsto> q')\<rparr>) \<and>
    length (tables q') = 1024 \<and> length (entries q') = 1024 \<and> paddr_pde q' = paddr_pde ?q1 \<and>
    (\<forall>j < 1024. tables q' ! j = (if j \<in> set is \<and> tables p ! j \<noteq> 0 then tables p ! j else tables ?q1 ! j) \<and>
      entries q' ! j = (if j \<notin> set is then entries ?q1 ! j else if tables p ! j = 0 then TABLE_RW else entries p ! j))"
    using Cons.prems i(2) by (intro Cons.IH) auto
  then obtain q' where q': "clone_slots malloc (kernel_pd s) dest is ?s1 = Inr (s\<lparr>page_dirs := (page_dirs s)(dest \<mapsto> q')\<rparr>)"
    "length (tables q') = 1024" "length (entries q') = 1024" "paddr_pde q' = paddr_pde q"
    "\<And>j. j < 1024 \<Longrightarrow> tables q' ! j = (if j \<in> set is \<and> tables p ! j \<noteq> 0 then tables p ! j else tables ?q1 ! j)"
    "\<And>j. j < 1024 \<Longrightarrow> entries q' ! j = (if j \<notin> set is then entries ?q1 ! j else if tables p ! j = 0 then TABLE_RW else entries p ! j)"
    by auto
  have "tables q' ! j = (if j \<in> set (i # is) \<and> tables p ! j \<noteq> 0 then tables p ! j else tables q ! j)" if "j < 1024" for j
    using q'(5) [OF that] Cons.prems(8) i(1) by (cases "j = i") auto
  moreover have "entries q' ! j = (if j \<notin> set (i # is) then entries q ! j else if tables p ! j = 0 then TABLE_RW else entries p ! j)" if "j < 1024" for j
    using q'(6) [OF that] Cons.prems(9) i(1) by (cases "j = i") auto
  moreover have "clone_slots malloc (kernel_pd s) dest (i # is) s = Inr (s\<lparr>page_dirs := (page_dirs s)(dest \<mapsto> q')\<rparr>)" unfolding clone_slots.simps c using q'(1) by simp
  ultimately show ?case using q'(2-4) by blast
qed

lemma clone_pd_kernel:
  assumes "malloc sizeof_page_directory True True s = Inr (a, Some pa, s1)" and "a \<noteq> 0" and "a \<noteq> kernel_pd s1" and "kernel_pd s1 \<noteq> 0"
    and "page_dirs s1 (kernel_pd s1) = Some p" and "length (tables p) = 1024" and "length (entries p) = 1024"
  shows "\<exists>q s2 s3. clone_page_directory malloc (kernel_pd s1) s = Inr (a, s2) \<and> s2 = s1\<lparr>page_dirs := (page_dirs s1)(a \<mapsto> q)\<rparr> \<and> paddr_pde q = pa \<and>
    tables q = tables p \<and> (\<forall>i < 1024. entries q ! i = (if tables p ! i = 0 then TABLE_RW else entries p ! i)) \<and>
    switch_page_directory a s2 = Inr s3 \<and> current_pd s3 = a \<and> cr3 s3 = pa \<and> bit (cr0 s3) 31 \<and> page_dirs s3 = page_dirs s2"
proof -
  let ?s = "s1\<lparr>page_dirs := (page_dirs s1)(a \<mapsto> zero_pd\<lparr>paddr_pde := pa\<rparr>)\<rparr>"
  have "\<exists>q. clone_slots malloc (kernel_pd ?s) a [0..<1024] ?s = Inr (?s\<lparr>page_dirs := (page_dirs ?s)(a \<mapsto> q)\<rparr>) \<and>
    length (tables q) = 1024 \<and> length (entries q) = 1024 \<and> paddr_pde q = paddr_pde (zero_pd\<lparr>paddr_pde := pa\<rparr>) \<and>
    (\<forall>j < 1024. tables q ! j = (if j \<in> set [0..<1024] \<and> tables p ! j \<noteq> 0 then tables p ! j else tables (zero_pd\<lparr>paddr_pde := pa\<rparr>) ! j) \<and>
      entries q ! j = (if j \<notin> set [0..<1024] then entries (zero_pd\<lparr>paddr_pde := pa\<rparr>) ! j else if tables p ! j = 0 then TABLE_RW else entries p ! j))"
    using assms by (intro clone_slots_kernel) auto
  then obtain q where q: "clone_slots malloc (kernel_pd s1) a [0..<1024] ?s = Inr (s1\<lparr>page_dirs := (page_dirs s1)(a \<mapsto> q)\<rparr>)"
    "length (tables q) = 1024" "paddr_pde q = pa" "\<forall>j < 1024. tables q ! j = (if tables p ! j \<noteq> 0 then tables p ! j else 0)"
    "\<forall>i < 1024. entries q ! i = (if tables p ! i = 0 then TABLE_RW else entries p ! i)" by auto
  have "tables q = tables p" using q(2,4) assms(6) by (intro nth_equalityI) auto
  moreover have "clone_page_directory malloc (kernel_pd s1) s = Inr (a, s1\<lparr>page_dirs := (page_dirs s1)(a \<mapsto> q)\<rparr>)"
    using assms(1,2) q(1) by (simp add: clone_page_directory_def)
  moreover have "bit (x OR 0x80000000) 31" for x :: u32
    using bit_or_iff [of x "0x80000000" 31] bit_exp_iff [of 31 31, where 'a = u32] by simp
  ultimately show ?thesis using q(3,5) assms(2)
    by (rule_tac x = q in exI, rule_tac x = "s1\<lparr>page_dirs := (page_dirs s1)(a \<mapsto> q)\<rparr>" in exI) (simp add: switch_page_directory_def)
qed

section \<open>Properties\<close>

text \<open>
  C15: \<open>clone_page_table\<close> gives the clone its own copy of every page. If the frames of the table are in use and there are as many free
  frames as it has pages, the call returns; every page gets a frame of its own that was free, with the bytes of the original page and
  the flags of its entry; pages without a frame stay without; every frame that was not taken keeps its bytes, and the original table is unchanged.
\<close>

theorem clone_page_table_copies:
  assumes "malloc sizeof_page_table True True s = Inr (dt, paddr, s1)"
    and "clone_ready st dt es (replicate 1024 0) (s1\<lparr>page_tables := (page_tables s1)(dt \<mapsto> replicate 1024 0)\<rparr>)"
    and "card {i. i < 1024 \<and> pfn_of (es ! i) \<noteq> 0} \<le> card (free_frames (vm_pm s1))"
  shows "\<exists>s' ds g. clone_page_table malloc st s = Inr (dt, paddr, s') \<and> page_tables s' = (page_tables s1)(dt \<mapsto> ds) \<and>
    (\<forall>i < 1024. ds ! i = (if pfn_of (es ! i) = 0 then PAGE_RW else frame_pte (g i) OR (es ! i AND 0x67))) \<and>
    inj_on g {i. i < 1024 \<and> pfn_of (es ! i) \<noteq> 0} \<and>
    g ` {i. i < 1024 \<and> pfn_of (es ! i) \<noteq> 0} = free_frames (vm_pm s1) - free_frames (vm_pm s') \<and>
    (\<forall>i < 1024. pfn_of (es ! i) \<noteq> 0 \<longrightarrow> frame_mem s' (g i) = frame_mem s1 (pfn_of (es ! i))) \<and>
    (\<forall>h < 2 ^ 20. h \<notin> free_frames (vm_pm s1) - free_frames (vm_pm s') \<longrightarrow> frame_mem s' h = frame_mem s1 h)"
proof -
  let ?s = "s1\<lparr>page_tables := (page_tables s1)(dt \<mapsto> replicate 1024 0)\<rparr>"
  have st: "{i \<in> set [0..<1024]. pfn_of (es ! i) \<noteq> 0} = {i. i < 1024 \<and> pfn_of (es ! i) \<noteq> 0}" by auto
  have "distinct [0..<1024]" "set [0..<1024] \<subseteq> {..<1024}" "\<forall>i \<in> set [0..<1024]. replicate 1024 (0 :: u32) ! i = 0"
    "card {i \<in> set [0..<1024]. pfn_of (es ! i) \<noteq> 0} \<le> card (free_frames (vm_pm ?s))" unfolding st using assms(3) by auto
  from clone_entries_Inr [OF assms(2) this, unfolded cloned_def] obtain s' ds g where h: "clone_entries st dt [0..<1024] ?s = Inr s'"
    "page_tables s' = (page_tables ?s)(dt \<mapsto> ds)"
    "\<forall>i < 1024. ds ! i = (if i \<notin> set [0..<1024] then replicate 1024 0 ! i else if pfn_of (es ! i) = 0 then PAGE_RW else frame_pte (g i) OR (es ! i AND 0x67))"
    "inj_on g {i \<in> set [0..<1024]. pfn_of (es ! i) \<noteq> 0}"
    "g ` {i \<in> set [0..<1024]. pfn_of (es ! i) \<noteq> 0} = free_frames (vm_pm ?s) - free_frames (vm_pm s')"
    "\<forall>i \<in> set [0..<1024]. pfn_of (es ! i) \<noteq> 0 \<longrightarrow> frame_mem s' (g i) = frame_mem ?s (pfn_of (es ! i))"
    "\<forall>h < 2 ^ 20. h \<notin> free_frames (vm_pm ?s) - free_frames (vm_pm s') \<longrightarrow> frame_mem s' h = frame_mem ?s h" by blast
  have fm: "frame_mem ?s = frame_mem s1" by (rule frame_mem_cong) simp
  have "clone_page_table malloc st s = Inr (dt, paddr, s')"
    using assms(1,2) h(1) by (simp add: clone_page_table_def clone_ready_def)
  then show ?thesis using h unfolding st fm by (intro exI [of _ s'] exI [of _ ds] exI [of _ g]) simp
qed

text \<open>One mapped page, in a frame outside the allocator's range, and a table allocator that returns address 0x5000.\<close>

definition clone_src :: vm where
  "clone_src = vm_empty\<lparr>vm_pm := pm_fresh 128, page_tables := [0x4000 \<mapsto> 0x1F4003 # replicate 1023 0]\<rparr>"

abbreviation malloc_5000 :: malloc_fn where
  "malloc_5000 \<equiv> (\<lambda>sz al w s. Inr (0x5000, Some 0x5000, s))"

theorem clone_page_table_copies_witness:
  "\<exists>s' ds f. clone_page_table malloc_5000 0x4000 clone_src = Inr (0x5000, Some 0x5000, s') \<and> page_tables s' 0x5000 = Some ds \<and>
    f \<in> free_frames (pm_fresh 128) \<and> ds ! 0 = frame_pte f OR 3 \<and> frame_mem s' f = frame_mem clone_src 500"
proof -
  let ?es = "0x1F4003 # replicate 1023 (0 :: u32)"
  have u: "0x1F4003 AND 0x67 = (3 :: u32)" by code_simp
  have p0: "pfn_of (?es ! i) = (if i = 0 then 500 else 0)" if "i < 1024" for i
    using that by (cases i) (simp_all add: pfn_of_def)
  have used: "free_frames (pm_fresh 128) = {..<128}" using pm_fresh_128 by simp
  have one: "{i. i < 1024 \<and> pfn_of (?es ! i) \<noteq> 0} = {0}" using p0 by (auto simp del: nth_Cons_0 split: if_splits)
  have "clone_ready 0x4000 0x5000 ?es (replicate 1024 0) (clone_src\<lparr>page_tables := (page_tables clone_src)(0x5000 \<mapsto> replicate 1024 0)\<rparr>)"
    using pm_fresh_128(1,4) p0 used by (auto simp: clone_ready_def clone_src_def)
  moreover have "card {i. i < 1024 \<and> pfn_of (?es ! i) \<noteq> 0} \<le> card (free_frames (vm_pm clone_src))"
    unfolding one by (simp add: clone_src_def used)
  ultimately obtain s' ds g where r: "clone_page_table malloc_5000 0x4000 clone_src = Inr (0x5000, Some 0x5000, s')"
    "page_tables s' = (page_tables clone_src)(0x5000 \<mapsto> ds)"
    "\<forall>i < 1024. ds ! i = (if pfn_of (?es ! i) = 0 then PAGE_RW else frame_pte (g i) OR (?es ! i AND 0x67))"
    "g ` {i. i < 1024 \<and> pfn_of (?es ! i) \<noteq> 0} = free_frames (vm_pm clone_src) - free_frames (vm_pm s')"
    "\<forall>i < 1024. pfn_of (?es ! i) \<noteq> 0 \<longrightarrow> frame_mem s' (g i) = frame_mem clone_src (pfn_of (?es ! i))"
    using clone_page_table_copies [where malloc = malloc_5000 and s = clone_src and st = "0x4000" and es = ?es] by blast
  have "g 0 \<in> free_frames (pm_fresh 128)" using r(4) unfolding one by (auto simp: clone_src_def)
  then show ?thesis using r(1,2) r(3) [rule_format, of 0] r(5) [rule_format, of 0] p0 [of 0] u by (intro exI [of _ s'] exI [of _ ds] exI [of _ "g 0"]) simp
qed

text \<open>
  C16: a new address space shares the kernel. The clone of the kernel directory has the kernel's tables and entries in every slot in
  which the kernel has a table, an empty slot everywhere else, and its own physical address; nothing but the new directory changes.
  After \<open>switch_page_directory\<close> it is the current directory, CR3 holds its physical address and the paging bit is set.
\<close>

theorem clone_kernel_directory:
  assumes "malloc sizeof_page_directory True True s = Inr (a, Some pa, s1)" and "a \<noteq> 0" and "a \<noteq> kernel_pd s1" and "kernel_pd s1 \<noteq> 0"
    and "page_dirs s1 (kernel_pd s1) = Some p" and "length (tables p) = 1024" and "length (entries p) = 1024"
  shows "\<exists>q s2 s3. clone_page_directory malloc (kernel_pd s1) s = Inr (a, s2) \<and> s2 = s1\<lparr>page_dirs := (page_dirs s1)(a \<mapsto> q)\<rparr> \<and> paddr_pde q = pa \<and>
    tables q = tables p \<and> (\<forall>i < 1024. entries q ! i = (if tables p ! i = 0 then TABLE_RW else entries p ! i)) \<and>
    switch_page_directory a s2 = Inr s3 \<and> current_pd s3 = a \<and> cr3 s3 = pa \<and> bit (cr0 s3) 31 \<and> page_dirs s3 = page_dirs s2"
  using assms by (rule clone_pd_kernel)

theorem clone_kernel_directory_witness:
  "\<exists>q s2. clone_page_directory malloc_5000 0x4000 (vm_empty\<lparr>kernel_pd := 0x4000, page_dirs := [0x4000 \<mapsto> zero_pd]\<rparr>) = Inr (0x5000, s2) \<and>
    page_dirs s2 0x5000 = Some q \<and> tables q = replicate 1024 0 \<and> paddr_pde q = 0x5000"
  using clone_kernel_directory [where malloc = malloc_5000 and s = "vm_empty\<lparr>kernel_pd := 0x4000, page_dirs := [0x4000 \<mapsto> zero_pd]\<rparr>" and p = zero_pd]
  by auto

end
