(* ===== verification/Proc_Spec.thy ===== *)
theory Proc_Spec
  imports Proc Clone_Spec
begin

text \<open>
  Properties of processes and of the timer: the queue of processes as a list of addresses, what \<open>fork\<close> and \<open>switch_proc\<close> do
  to it, the relocation of the stack, and the bounds on the uptime.
\<close>

section \<open>The queue of processes\<close>

text \<open>The processes at the addresses \<open>as\<close> are linked in this order from \<open>p\<close> on, the last one to \<open>NULL\<close>.\<close>

fun proc_list :: "(u32 \<Rightarrow> proc option) \<Rightarrow> u32 \<Rightarrow> u32 list \<Rightarrow> bool" where
  "proc_list ps p [] \<longleftrightarrow> p = 0"
| "proc_list ps p (a # as) \<longleftrightarrow> p = a \<and> a \<noteq> 0 \<and> (\<exists>x. ps a = Some x \<and> proc_list ps (p_next x) as)"

text \<open>
  The invariant of the scheduler: the queue is such a list without repetition, the running process is on it, and the identifiers
  are different numbers below \<open>next_pid\<close>.
\<close>

definition pid_of :: "(u32 \<Rightarrow> proc option) \<Rightarrow> u32 \<Rightarrow> nat" where
  "pid_of ps a = (case ps a of None \<Rightarrow> 0 | Some x \<Rightarrow> unat (p_id x))"

definition proc_inv :: "u32 list \<Rightarrow> os \<Rightarrow> bool" where
  "proc_inv qs s \<longleftrightarrow> proc_list (procs s) (ready_queue s) qs \<and> distinct qs \<and> current_proc s \<in> set qs \<and>
     distinct (map (pid_of (procs s)) qs) \<and> (\<forall>a \<in> set qs. 0 < pid_of (procs s) a \<and> pid_of (procs s) a < unat (next_pid s)) \<and>
     length qs < unat (next_pid s)"

lemma proc_list_mem: "proc_list ps p as \<Longrightarrow> a \<in> set as \<Longrightarrow> a \<noteq> 0 \<and> (\<exists>x. ps a = Some x)"
  by (induction as arbitrary: p) auto

lemma proc_list_cong:
  "proc_list ps p as \<Longrightarrow> (\<And>a x. a \<in> set as \<Longrightarrow> ps a = Some x \<Longrightarrow> \<exists>y. qs a = Some y \<and> p_next y = p_next x) \<Longrightarrow> proc_list qs p as"
  by (induction as arbitrary: p) force+

lemma proc_list_append:
  "proc_list ps p (as @ b # bs) \<Longrightarrow> \<exists>x. ps b = Some x \<and> b \<noteq> 0 \<and> p_next x = (case bs of [] \<Rightarrow> 0 | c # _ \<Rightarrow> c)"
proof (induction as arbitrary: p)
  case Nil
  then show ?case by (cases bs) auto
qed auto

lemma proc_list_snoc:
  assumes "proc_list ps p (as @ [b])" "ps b = Some x" "c \<noteq> 0" "c \<notin> set (as @ [b])" "distinct (as @ [b])" "ps c = Some y" "p_next y = 0"
  shows "proc_list (ps(b \<mapsto> x\<lparr>p_next := c\<rparr>)) p (as @ [b, c])"
  using assms
proof (induction as arbitrary: p)
  case (Cons a as)
  then obtain z where z: "p = a" "a \<noteq> 0" "ps a = Some z" "proc_list ps (p_next z) (as @ [b])" by auto
  have "proc_list (ps(b \<mapsto> x\<lparr>p_next := c\<rparr>)) (p_next z) (as @ [b, c])" using Cons.prems z(4) by (intro Cons.IH) auto
  moreover have "(ps(b \<mapsto> x\<lparr>p_next := c\<rparr>)) a = Some z" using z(3) Cons.prems(5) by simp
  ultimately show ?case using z(1,2) by (simp del: fun_upd_apply)
qed auto

lemma queue_end_list: "proc_list ps p (as @ [b]) \<Longrightarrow> length as < n \<Longrightarrow> queue_end n ps p = Inr b"
proof (induction as arbitrary: p n)
  case (Cons a as)
  then obtain k where k: "n = Suc k" "length as < k" by (cases n) auto
  obtain z where z: "p = a" "a \<noteq> 0" "ps a = Some z" "proc_list ps (p_next z) (as @ [b])" using Cons.prems by auto
  then have "p_next z \<noteq> 0" by (cases as) auto
  then show ?case using k z Cons.IH [OF z(4) k(2)] by simp
qed (auto simp: gr0_conv_Suc)

section \<open>Switching\<close>

lemma switch_proc_step:
  assumes "proc_inv (as @ c # bs) s" and "current_proc s = c" and "ip \<noteq> 0xDEAD"
    and "\<forall>b \<in> set bs. \<exists>x pd. procs s b = Some x \<and> p_pd x \<noteq> 0 \<and> page_dirs (os_vm s) (p_pd x) = Some pd"
  shows "case bs of
      [] \<Rightarrow> switch_proc ip s = Inr (False, s)
    | b # _ \<Rightarrow> \<exists>s' x pd. switch_proc ip s = Inr (True, s') \<and> current_proc s' = b \<and> proc_inv (as @ c # bs) s' \<and>
        procs s b = Some x \<and> procs s' b = Some x \<and> esp s' = p_esp x \<and> ebp s' = p_ebp x \<and> eip s' = p_eip x \<and> eax s' = 0xDEAD \<and>
        page_dirs (os_vm s) (p_pd x) = Some pd \<and> current_pd (os_vm s') = p_pd x \<and> cr3 (os_vm s') = paddr_pde pd \<and>
        page_dirs (os_vm s') = page_dirs (os_vm s) \<and>
        procs s' = (procs s)(c \<mapsto> the (procs s c)\<lparr>p_eip := ip, p_esp := esp s, p_ebp := ebp s\<rparr>)"
proof -
  have i: "proc_list (procs s) (ready_queue s) (as @ c # bs)" "distinct (as @ c # bs)" using assms(1) by (auto simp: proc_inv_def)
  obtain y where y: "procs s c = Some y" "c \<noteq> 0" "p_next y = (case bs of [] \<Rightarrow> 0 | b # _ \<Rightarrow> b)" using proc_list_append [OF i(1)] by blast
  show ?thesis
  proof (cases bs)
    case Nil
    then show ?thesis using y assms(2) by (simp add: switch_proc_def)
  next
    case (Cons b cs)
    obtain x pd where x: "procs s b = Some x" "p_pd x \<noteq> 0" "page_dirs (os_vm s) (p_pd x) = Some pd" using assms(4) Cons by auto
    have b: "b \<noteq> 0" "b \<noteq> c" using proc_list_mem [OF i(1), of b] i(2) Cons by auto
    let ?ps = "(procs s)(c \<mapsto> y\<lparr>p_eip := ip, p_esp := esp s, p_ebp := ebp s\<rparr>)"
    have l: "proc_list ?ps (ready_queue s) (as @ c # bs)" by (rule proc_list_cong [OF i(1)]) (use y in auto)
    have p: "pid_of ?ps = pid_of (procs s)" using y(1) by (auto simp: pid_of_def fun_eq_iff)
    let ?s' = "switch_physical_proc (p_eip x) (paddr_pde pd) (p_ebp x) (p_esp x)
      (s\<lparr>procs := ?ps, current_proc := b, os_vm := (os_vm s)\<lparr>current_pd := p_pd x\<rparr>\<rparr>)"
    have "switch_proc ip s = Inr (True, ?s')" using y x b assms(2,3) Cons by (simp add: switch_proc_def Let_def)
    moreover have "proc_inv (as @ c # bs) ?s'" using assms(1) l p Cons unfolding proc_inv_def switch_physical_proc_def by (simp del: fun_upd_apply)
    ultimately show ?thesis using x y(1) b(2) Cons by (simp add: switch_physical_proc_def)
  qed
qed

text \<open>One switch per timer interrupt, with the values that \<open>get_eip\<close> returns.\<close>

fun run_switches :: "u32 list \<Rightarrow> os \<Rightarrow> os res" where
  "run_switches [] s = Inr s"
| "run_switches (ip # ips) s = res_bind (switch_proc ip s) (\<lambda>(_, s). run_switches ips s)"

definition dirs_ok :: "u32 list \<Rightarrow> os \<Rightarrow> bool" where
  "dirs_ok qs s \<longleftrightarrow> (\<forall>b \<in> set qs. \<exists>x pd. procs s b = Some x \<and> p_pd x \<noteq> 0 \<and> page_dirs (os_vm s) (p_pd x) = Some pd)"

lemma switch_proc_at:
  assumes inv: "proc_inv qs s" "dirs_ok qs s" and k: "k < length qs" "current_proc s = qs ! k" and ip: "ip \<noteq> 0xDEAD"
  shows "\<exists>b s'. switch_proc ip s = Inr (b, s') \<and> proc_inv qs s' \<and> dirs_ok qs s' \<and> current_proc s' = qs ! min (Suc k) (length qs - 1)"
proof -
  have qs: "qs = take k qs @ qs ! k # drop (Suc k) qs" using k(1) by (rule id_take_nth_drop)
  have i: "proc_inv (take k qs @ qs ! k # drop (Suc k) qs) s" using inv(1) qs by simp
  have d: "\<forall>b \<in> set (drop (Suc k) qs). \<exists>x pd. procs s b = Some x \<and> p_pd x \<noteq> 0 \<and> page_dirs (os_vm s) (p_pd x) = Some pd"
    using inv(2) unfolding dirs_ok_def by (meson in_set_dropD)
  note r = switch_proc_step [OF i k(2) ip d]
  show ?thesis
  proof (cases "Suc k < length qs")
    case False
    then have "k = length qs - 1" using k(1) by simp
    then show ?thesis using r inv k by (auto simp: min_def)
  next
    case True
    then have e: "drop (Suc k) qs = qs ! Suc k # drop (Suc (Suc k)) qs" by (rule Cons_nth_drop_Suc [symmetric])
    obtain y where y: "procs s (qs ! k) = Some y" "p_pd y \<noteq> 0" "\<exists>pd. page_dirs (os_vm s) (p_pd y) = Some pd" using inv(2) k(1) unfolding dirs_ok_def by force
    from r e obtain s' where s': "switch_proc ip s = Inr (True, s')" "current_proc s' = qs ! Suc k" "proc_inv qs s'"
      "page_dirs (os_vm s') = page_dirs (os_vm s)" "procs s' = (procs s)(qs ! k \<mapsto> the (procs s (qs ! k))\<lparr>p_eip := ip, p_esp := esp s, p_ebp := ebp s\<rparr>)"
      using qs by auto
    have "dirs_ok qs s'" using inv(2) y unfolding dirs_ok_def s'(4,5) by auto
    moreover have "min (Suc k) (length qs - 1) = Suc k" using True by simp
    ultimately show ?thesis using s' by metis
  qed
qed

section \<open>The stack\<close>

definition relocate :: "u32 \<Rightarrow> u32 \<Rightarrow> u32 \<Rightarrow> u32 \<Rightarrow> u32" where
  "relocate lo hi offset w = (if lo < w \<and> w < hi then w + offset else w)"

abbreviation stack_word :: "u32 \<Rightarrow> nat \<Rightarrow> u32" where
  "stack_word start i \<equiv> start - of_nat (4 * i)"

lemma unat_stack_word:
  assumes "4 * i \<le> unat start"
  shows "unat (stack_word start i) = unat start - 4 * i"
proof -
  have "unat (of_nat (4 * i) :: u32) = 4 * i" using order_le_less_trans [OF assms unat_u32_less] by (simp only: unat_of_nat) simp
  then show ?thesis using assms by (simp add: unat_sub_u32 del: of_nat_mult)
qed

lemma stack_words_apart:
  assumes "4 * i < unat start" "4 * j < unat start" "i \<le> 2 ^ 28" "j \<le> 2 ^ 28" "unat start + 4 \<le> 2 ^ 32" "i \<noteq> j"
  shows "4 \<le> unat (stack_word start i - stack_word start j) \<and> unat (stack_word start i - stack_word start j) \<le> 2 ^ 32 - 4"
  using unat_stack_word [of i start] unat_stack_word [of j start] assms unfolding unat_sub_u32 [of "stack_word start i"] by auto

text \<open>The invariant of the loop: the first \<open>j\<close> of the \<open>N\<close> words are relocated, the rest of them and the memory below are as before.\<close>

definition patched :: "u32 \<Rightarrow> u32 \<Rightarrow> u32 \<Rightarrow> u32 \<Rightarrow> nat \<Rightarrow> mem \<Rightarrow> nat \<Rightarrow> mem \<Rightarrow> bool" where
  "patched lo hi offset start N m j m' \<longleftrightarrow>
     (\<forall>i < N. load32 m' (stack_word start i) =
        (if i < j then relocate lo hi offset (load32 m (stack_word start i)) else load32 m (stack_word start i))) \<and>
     (\<forall>a. unat a \<le> unat start - 4 * N \<longrightarrow> m' a = m a)"

lemma patched_step:
  assumes n: "4 * N \<le> unat start" "unat start + 4 \<le> 2 ^ 32" "N \<le> 2 ^ 28" and p: "patched lo hi offset start N m j m'" and j: "j < N"
    and v: "v = load32 m' (stack_word start j)"
  shows "patched lo hi offset start N m (Suc j) (if lo < v \<and> v < hi then store32 (stack_word start j) (v + offset) m' else m')"
    (is "patched _ _ _ _ _ _ _ ?m")
proof -
  have "load32 ?m (stack_word start i) = (if i < Suc j then relocate lo hi offset (load32 m (stack_word start i)) else load32 m (stack_word start i))"
    if "i < N" for i
  proof (cases "i = j")
    case True
    then show ?thesis using p that v by (simp add: patched_def relocate_def load32_store32)
  next
    case False
    have "4 * i < unat start" "4 * j < unat start" "i \<le> 2 ^ 28" "j \<le> 2 ^ 28" using that j n by linarith+
    then have "load32 ?m (stack_word start i) = load32 m' (stack_word start i)"
      using stack_words_apart [of i start j] n(2) False by (simp add: load32_store32_other)
    then show ?thesis using p that False by (simp add: patched_def less_Suc_eq)
  qed
  moreover have "?m a = m a" if a: "unat a \<le> unat start - 4 * N" for a
  proof -
    have "4 \<le> unat (a - stack_word start j)" using a j n(1,2) unat_stack_word [of j start] unfolding unat_sub_u32 [of a] by auto
    then show ?thesis using p a by (simp add: patched_def store32_other)
  qed
  ultimately show ?thesis unfolding patched_def by blast
qed

lemma patch_stack_words:
  assumes n: "4 * N \<le> unat start" "unat start + 4 \<le> 2 ^ 32" "N \<le> 2 ^ 28"
  shows "\<exists>p m'. patch_stack lo hi offset (stack_word start N) (start, m) = Inr (p, m') \<and>
    (\<forall>i < N. load32 m' (stack_word start i) = relocate lo hi offset (load32 m (stack_word start i))) \<and>
    (\<forall>a. unat a \<le> unat start - 4 * N \<longrightarrow> m' a = m a)"
proof -
  let ?w = "stack_word start" and ?P = "patched lo hi offset start N m"
  have w: "unat (?w i) = unat start - 4 * i" if "i \<le> N" for i using that n(1) by (intro unat_stack_word) linarith
  let ?I = "\<lambda>(p, m'). \<exists>j \<le> N. p = ?w j \<and> ?P j m'" and ?f = "\<lambda>(p, m' :: mem). (unat p - unat (?w N)) div 4"
  have "\<exists>r. patch_stack lo hi offset (?w N) (start, m) = Inr r \<and> ?I r \<and> \<not> (case r of (p, m') \<Rightarrow> ?w N < p)"
    unfolding patch_stack_def
  proof (rule while_res_total [where f = ?f])
    show "?I (start, m)" by (auto simp: patched_def intro!: exI [of _ 0])
    show "?f (start, m) \<le> stack_rounds" using n w [of N] by simp
  next
    fix r :: "u32 \<times> mem"
    assume r: "?I r" "case r of (p, m') \<Rightarrow> ?w N < p"
    obtain p m' j where pm: "r = (p, m')" "j \<le> N" "p = ?w j" "?P j m'" using r(1) by (cases r) auto
    have j: "j < N" using r(2) pm(1-3) w [of j] w [of N] n(1) by (simp add: word_less_nat_alt)
    let ?m = "if lo < load32 m' p \<and> load32 m' p < hi then store32 p (load32 m' p + offset) m' else m'"
    have p4: "p - 4 = ?w (Suc j)" using pm(3) by simp
    have "?I (p - 4, ?m)" using patched_step [OF n pm(4) j refl] p4 pm(3) j by (auto intro!: exI [of _ "Suc j"])
    moreover have "unat p = unat start - 4 * j" "unat (p - 4) = unat start - 4 * Suc j" "unat (?w N) = unat start - 4 * N"
      unfolding p4 unfolding pm(3) using w [of j] w [of "Suc j"] w [of N] j by simp_all
    then have "?f (p - 4, ?m) < ?f (p, m')" using j n(1) by simp
    ultimately show "\<exists>s'. (case r of (p, m) \<Rightarrow> Inr (p - 4, if lo < load32 m p \<and> load32 m p < hi then store32 p (load32 m p + offset) m else m)) = Inr s' \<and> ?I s' \<and> ?f s' < ?f r"
      unfolding pm(1) by (intro exI [of _ "(p - 4, ?m)"]) simp
  qed
  then obtain p m' j where r: "patch_stack lo hi offset (?w N) (start, m) = Inr (p, m')" "j \<le> N" "p = ?w j" "\<not> ?w N < p" "?P j m'" by auto
  have "j = N" using r(2-4) w [of j] w [of N] n(1) by (auto simp: word_less_nat_alt)
  then show ?thesis using r(1,5) by (intro exI [of _ p] exI [of _ m']) (simp add: patched_def)
qed

text \<open>The pages \<open>lo\<close> to \<open>hi\<close> have a page table in the current directory, and there is a free frame for each.\<close>

definition stack_ready :: "page_directory \<Rightarrow> nat \<Rightarrow> nat \<Rightarrow> nat \<Rightarrow> vm \<Rightarrow> bool" where
  "stack_ready p lo hi n v \<longleftrightarrow> current_pd v \<noteq> 0 \<and> page_dirs v (current_pd v) = Some p \<and> length (tables p) = 1024 \<and> hi < 2 ^ 20 \<and>
     (\<forall>q. lo \<le> q \<and> q \<le> hi \<longrightarrow> tables p ! (q div 1024) \<noteq> 0 \<and> (\<exists>es. page_tables v (tables p ! (q div 1024)) = Some es \<and> length es = 1024)) \<and>
     pm_ok (vm_pm v) \<and> n \<le> card (free_frames (vm_pm v))"

lemma map_stack_page:
  assumes r: "stack_ready p lo hi (Suc n) v" and q: "lo \<le> q" "q \<le> hi" "unat i = 4096 * q"
  obtains v' where "res_bind (get_page (ikmalloc d) i (current_pd v) True v) (\<lambda>(page, s). alloc_frame page False True s) = Inr v'"
    "stack_ready p lo hi n v'" "current_pd v' = current_pd v"
proof -
  let ?t = "tables p ! (q div 1024)"
  obtain es where es: "?t \<noteq> 0" "page_tables v ?t = Some es" "length es = 1024" using r q by (auto simp: stack_ready_def)
  have "q < 2 ^ 20" using r q(2) unfolding stack_ready_def by linarith
  then have "q div 1024 < 1024" by simp
  then have g: "get_page (ikmalloc d) i (current_pd v) True v = Inr (Some (?t, q mod 1024), v)"
    using r es(1) page_index [OF q(3)] by (simp add: stack_ready_def get_page_def)
  show thesis
  proof (cases "PTE_TO_PFN (es ! (q mod 1024)) = 0")
    case False
    have "alloc_frame (Some (?t, q mod 1024)) False True v = Inr v" using es False by (simp add: alloc_frame_def arr_get_def)
    then show thesis using g r by (intro that [of v]) (auto simp: stack_ready_def)
  next
    case True
    have ok: "pm_ok (vm_pm v)" and ne: "free_frames (vm_pm v) \<noteq> {}" using r by (auto simp: stack_ready_def)
    define f where "f = Min (free_frames (vm_pm v))"
    have f: "f \<in> free_frames (vm_pm v)" unfolding f_def using ne by simp
    obtain bms where b: "pmalloc FRAME_SIZE (vm_pm v) = Inr (int f, (vm_pm v)\<lparr>buddy_bitmaps := bms\<rparr>)"
      "pm_ok ((vm_pm v)\<lparr>buddy_bitmaps := bms\<rparr>)" "free_frames ((vm_pm v)\<lparr>buddy_bitmaps := bms\<rparr>) = free_frames (vm_pm v) - {f}"
      using pmalloc_frame_some [OF ok ne] unfolding f_def by blast
    let ?e = "(push_bit 12 (of_nat f) OR PAGE_PRESENT) OR PAGE_USER OR PAGE_RW"
    let ?v = "v\<lparr>vm_pm := (vm_pm v)\<lparr>buddy_bitmaps := bms\<rparr>, page_tables := (page_tables v)(?t \<mapsto> es[q mod 1024 := ?e])\<rparr>"
    have "alloc_frame (Some (?t, q mod 1024)) False True v = Inr ?v"
      using es True b(1) by (simp add: alloc_frame_def arr_get_def arr_set_def Let_def or.assoc)
    moreover have "card (free_frames (vm_pm v) - {f}) = card (free_frames (vm_pm v)) - 1" using f by simp
    then have "stack_ready p lo hi n ?v" using r b(2,3) es unfolding stack_ready_def by auto
    ultimately show thesis using g by (intro that [of ?v]) simp_all
  qed
qed

lemma map_stack_Inr:
  assumes r: "stack_ready p lo hi (Suc hi - lo) v" and lo: "0 < lo" "lo \<le> hi" and i: "unat start = 4096 * hi" "unat limit = 4096 * lo"
  shows "\<exists>i' v'. map_stack d limit (start, v) = Inr (i', v')"
proof -
  let ?I = "\<lambda>(i, w). \<exists>k. k \<le> Suc hi - lo \<and> unat i = 4096 * (hi - k) \<and> stack_ready p lo hi (Suc hi - lo - k) w"
  have h: "hi < 2 ^ 20" using r by (simp add: stack_ready_def)
  have "\<exists>x. map_stack d limit (start, v) = Inr x \<and> ?I x \<and> \<not> (case x of (i, s) \<Rightarrow> limit \<le> i)"
    unfolding map_stack_def
  proof (rule while_res_total [where f = "\<lambda>(i, w). unat i div 4096"])
    show "?I (start, v)" using r i by (auto intro!: exI [of _ 0])
    show "(case (start, v) of (i, w) \<Rightarrow> unat i div 4096) \<le> page_rounds" using i h by simp
  next
    fix x :: "u32 \<times> vm"
    assume x: "?I x" "case x of (i, s) \<Rightarrow> limit \<le> i"
    obtain j w k where jw: "x = (j, w)" "unat j = 4096 * (hi - k)" "stack_ready p lo hi (Suc hi - lo - k) w" using x(1) by (cases x) auto
    have k: "lo \<le> hi - k" using x(2) jw(1,2) i(2) by (simp add: word_le_nat_alt)
    then have "Suc hi - lo - k = Suc (Suc hi - lo - Suc k)" using lo by simp
    then obtain w' where w': "res_bind (get_page (ikmalloc d) j (current_pd w) True w) (\<lambda>(page, s). alloc_frame page False True s) = Inr w'"
      "stack_ready p lo hi (Suc hi - lo - Suc k) w'" using map_stack_page [of p lo hi _ w "hi - k" j d] jw(2,3) k by (metis diff_le_self)
    have u: "unat (j - PAGE_SIZE) = 4096 * (hi - Suc k)" 
    proof -
      obtain c where c: "hi - k = Suc c" using k lo by (cases "hi - k") auto
      then have "hi - Suc k = c" by simp
      then show ?thesis using jw(2) unfolding c by (simp add: unat_sub_u32)
    qed
    have "?I (j - PAGE_SIZE, w')" using u w'(2) k lo by (intro case_prodI exI [of _ "Suc k"]) auto
    moreover have "hi - Suc k < hi - k" using k lo by linarith
    moreover from w'(1) obtain pg w1 where "get_page (ikmalloc d) j (current_pd w) True w = Inr (pg, w1)" "alloc_frame pg False True w1 = Inr w'"
      by (auto elim!: res_bindE)
    ultimately show "\<exists>s'. (case x of (i, s) \<Rightarrow> res_bind (get_page (ikmalloc d) i (current_pd s) True s) (\<lambda>(page, s).
        res_bind (alloc_frame page False True s) (\<lambda>s. Inr (i - PAGE_SIZE, s)))) = Inr s' \<and> ?I s' \<and>
      (case s' of (i, w) \<Rightarrow> unat i div 4096) < (case x of (i, w) \<Rightarrow> unat i div 4096)"
      using jw(1,2) u by (intro exI [of _ "(j - PAGE_SIZE, w')"]) simp
  qed
  then show ?thesis by auto
qed

section \<open>Properties\<close>

text \<open>
  C18: \<open>fork\<close> puts one new process at the end of the queue. If the clone of the address space and the allocation succeed, the parent
  gets the next process identifier and goes on with interrupts enabled; the child has the cloned directory, the stack and base pointer of the
  parent and the instruction pointer behind \<open>get_eip\<close>; all other processes keep their registers. When the child is switched to,
  the same call of \<open>fork\<close> returns 0. The invariant of the queue is kept.
\<close>

theorem fork_appends:
  assumes inv: "proc_inv qs s" and cur: "procs s (current_proc s) = Some cur"
    and cl: "clone_page_directory (ikmalloc d) (p_pd cur) (os_vm s) = Inr (pd, v1)"
    and km: "kmalloc d sizeof_proc v1 = Inr (a, v2)" and a: "a \<noteq> 0" "a \<notin> set qs" and pid: "unat (next_pid s) < 2 ^ 32 - 1"
  shows "\<exists>s'. fork d ip s = Inr (next_pid s, s') \<and> proc_inv (qs @ [a]) s' \<and> current_proc s' = current_proc s \<and> os_vm s' = v2 \<and> if_flag s' \<and>
    next_pid s' = next_pid s + 1 \<and>
    procs s' a = Some \<lparr>p_id = next_pid s, p_esp = esp s, p_ebp = ebp s, p_eip = ip, p_pd = pd, p_next = 0\<rparr> \<and>
    (\<forall>b \<in> set qs. \<exists>x y. procs s b = Some x \<and> procs s' b = Some y \<and> y\<lparr>p_next := p_next x\<rparr> = x) \<and>
    (\<forall>t ip'. current_proc t = a \<longrightarrow> fork_return (current_proc s) a ip' t = Inr (0, t))"
proof -
  have i: "proc_list (procs s) (ready_queue s) qs" "distinct qs" "current_proc s \<in> set qs" "distinct (map (pid_of (procs s)) qs)"
    "\<forall>b \<in> set qs. 0 < pid_of (procs s) b \<and> pid_of (procs s) b < unat (next_pid s)" "length qs < unat (next_pid s)"
    using inv by (auto simp: proc_inv_def)
  obtain as b where qs: "qs = as @ [b]" using i(3) by (cases qs rule: rev_cases) auto
  obtain x where x: "procs s b = Some x" "b \<noteq> 0" "p_next x = 0" using proc_list_append [of "procs s" "ready_queue s" as b "[]"] i(1) qs by auto
  let ?new = "\<lparr>p_id = next_pid s, p_esp = 0, p_ebp = 0, p_eip = 0, p_pd = pd, p_next = 0\<rparr>"
  let ?new' = "\<lparr>p_id = next_pid s, p_esp = esp s, p_ebp = ebp s, p_eip = ip, p_pd = pd, p_next = 0\<rparr>"
  let ?ps = "(procs s)(a \<mapsto> ?new)"
  let ?ps' = "(?ps(b \<mapsto> x\<lparr>p_next := a\<rparr>))(a \<mapsto> ?new')"
  let ?s' = "s\<lparr>if_flag := True, os_vm := v2, next_pid := next_pid s + 1, procs := ?ps'\<rparr>"
  have n: "unat (next_pid s + 1) = unat (next_pid s) + 1" using pid by (simp add: unat_word_ariths)
  have ab: "a \<noteq> b" "current_proc s \<noteq> a" "current_proc s \<noteq> 0" using a qs i(3) proc_list_mem [OF i(1)] by auto
  have l1: "proc_list ?ps (ready_queue s) (as @ [b])" by (rule proc_list_cong [OF i(1) [unfolded qs]]) (use a qs in auto)
  have e: "queue_end (unat (next_pid s) + 1) ?ps (ready_queue s) = Inr b" by (rule queue_end_list [OF l1]) (use i(6) qs in simp)
  have f: "fork d ip s = Inr (next_pid s, ?s')"
    using cur cl km a(1) ab x e n by (simp add: fork_def fork_return_def Let_def)
  have "proc_list (?ps(b \<mapsto> x\<lparr>p_next := a\<rparr>)) (ready_queue s) (as @ [b, a])"
    using l1 x a ab qs i(2) by (intro proc_list_snoc [where ps = ?ps and x = x and y = ?new]) auto
  then have "proc_list ?ps' (ready_queue s) (as @ [b, a])" by (rule proc_list_cong) (use ab in auto)
  then have l2: "proc_list ?ps' (ready_queue s) (qs @ [a])" unfolding qs by (simp del: fun_upd_apply)
  have p: "pid_of ?ps' c = pid_of (procs s) c" if "c \<in> set qs" for c using that a x by (auto simp: pid_of_def)
  then have mp: "map (pid_of ?ps') qs = map (pid_of (procs s)) qs" by simp
  have pa: "pid_of ?ps' a = unat (next_pid s)" by (simp add: pid_of_def)
  have "unat (next_pid s) \<notin> pid_of (procs s) ` set qs" using i(5) by force
  then have dm: "distinct (map (pid_of ?ps') (qs @ [a]))" unfolding map_append mp using i(4) pa by (simp del: fun_upd_apply)
  have "0 < pid_of ?ps' c \<and> pid_of ?ps' c < unat (next_pid s + 1)" if "c \<in> set (qs @ [a])" for c
    using that i(5,6) p [of c] pa n by (cases "c = a") (simp_all del: fun_upd_apply add: less_SucI)
  then have "proc_inv (qs @ [a]) ?s'"
    unfolding proc_inv_def using l2 i(2,3,6) a(2) dm n by (simp del: fun_upd_apply map_append)
  moreover have "\<exists>x y. procs s c = Some x \<and> ?ps' c = Some y \<and> y\<lparr>p_next := p_next x\<rparr> = x" if "c \<in> set qs" for c
    using proc_list_mem [OF i(1) that] x that a(2) by (cases "c = b") auto
  ultimately show ?thesis using f ab by (intro exI [of _ ?s']) (auto simp: fork_return_def)
qed

text \<open>One process with identifier 1, before the heap exists, so that allocations come from the placement allocator.\<close>

definition proc_s0 :: os where
  "proc_s0 = \<lparr>os_vm = vm_empty\<lparr>kernel_pd := 0x4000, current_pd := 0x4000, page_dirs := [0x4000 \<mapsto> zero_pd]\<rparr>,
     procs = [0x6000 \<mapsto> \<lparr>p_id = 1, p_esp = 0, p_ebp = 0, p_eip = 0, p_pd = 0x4000, p_next = 0\<rparr>],
     current_proc = 0x6000, ready_queue = 0x6000, next_pid = 2, initial_esp = 0x9000, esp = 0x8F00, ebp = 0x8F80, eip = 0, eax = 0,
     if_flag = True, vmem = (\<lambda>_. 0)\<rparr>"

lemma proc_s0_clone:
  "\<exists>v1. clone_page_directory (ikmalloc 4) 0x4000 (os_vm proc_s0) = Inr (0x100000, v1) \<and> kheap v1 = 0 \<and> placement_address (vm_pm v1) = 0x102004 \<and>
     page_dirs v1 0x4000 = Some zero_pd"
proof -
  have m: "ikmalloc 4 sizeof_page_directory True True (os_vm proc_s0) =
    Inr (0x100000, Some 0x100000, (os_vm proc_s0)\<lparr>vm_pm := (pm_boot 0x2000)\<lparr>placement_address := 0x102004\<rparr>\<rparr>)"
    by (simp add: ikmalloc_placement placement_alloc_def proc_s0_def vm_empty_def pm_boot_def ALIGN_def)
  show ?thesis using clone_pd_kernel [where malloc = "ikmalloc 4" and p = zero_pd, OF m] by (auto simp: proc_s0_def vm_empty_def)
qed

theorem fork_appends_witness:
  "\<exists>s'. fork 4 0x1234 proc_s0 = Inr (2, s') \<and> proc_inv [0x6000, 0x102004] s' \<and>
    (\<exists>x. procs s' 0x102004 = Some x \<and> p_esp x = 0x8F00 \<and> p_eip x = 0x1234 \<and> p_pd x = 0x100000)"
proof -
  obtain v1 where v1: "clone_page_directory (ikmalloc 4) 0x4000 (os_vm proc_s0) = Inr (0x100000, v1)" "kheap v1 = 0"
    "placement_address (vm_pm v1) = 0x102004" using proc_s0_clone by blast
  have k: "kmalloc 4 sizeof_proc v1 = Inr (0x102004, v1\<lparr>vm_pm := (vm_pm v1)\<lparr>placement_address := 0x10201C\<rparr>\<rparr>)"
    using v1(2,3) by (simp add: kmalloc_def ikmalloc_placement placement_alloc_def)
  have i: "proc_inv [0x6000] proc_s0" by (simp add: proc_inv_def proc_s0_def pid_of_def)
  have c: "procs proc_s0 (current_proc proc_s0) = Some \<lparr>p_id = 1, p_esp = 0, p_ebp = 0, p_eip = 0, p_pd = 0x4000, p_next = 0\<rparr>" by (simp add: proc_s0_def)
  have n: "next_pid proc_s0 = 2" "esp proc_s0 = 0x8F00" by (simp_all add: proc_s0_def)
  show ?thesis using fork_appends [where ip = "0x1234", OF i c _ k] v1(1) n by auto
qed

text \<open>
  C19: a switch saves the running process and resumes the next one of the queue; at the end of the queue nothing happens.
  The comment in the code promises to start again from the beginning there, but the test for a next process comes first.
\<close>

theorem switch_proc_next:
  assumes "proc_inv (as @ c # bs) s" and "current_proc s = c" and "ip \<noteq> 0xDEAD"
    and "\<forall>b \<in> set bs. \<exists>x pd. procs s b = Some x \<and> p_pd x \<noteq> 0 \<and> page_dirs (os_vm s) (p_pd x) = Some pd"
  shows "case bs of
      [] \<Rightarrow> switch_proc ip s = Inr (False, s)
    | b # _ \<Rightarrow> \<exists>s' x pd. switch_proc ip s = Inr (True, s') \<and> current_proc s' = b \<and> proc_inv (as @ c # bs) s' \<and>
        procs s b = Some x \<and> procs s' b = Some x \<and> esp s' = p_esp x \<and> ebp s' = p_ebp x \<and> eip s' = p_eip x \<and> eax s' = 0xDEAD \<and>
        page_dirs (os_vm s) (p_pd x) = Some pd \<and> current_pd (os_vm s') = p_pd x \<and> cr3 (os_vm s') = paddr_pde pd \<and>
        page_dirs (os_vm s') = page_dirs (os_vm s) \<and>
        procs s' = (procs s)(c \<mapsto> the (procs s c)\<lparr>p_eip := ip, p_esp := esp s, p_ebp := ebp s\<rparr>)"
  using assms by (rule switch_proc_step)

text \<open>Two processes; the first one runs.\<close>

definition proc_s1 :: os where
  "proc_s1 = proc_s0\<lparr>procs := [0x6000 \<mapsto> \<lparr>p_id = 1, p_esp = 0, p_ebp = 0, p_eip = 0, p_pd = 0x4000, p_next = 0x7000\<rparr>,
     0x7000 \<mapsto> \<lparr>p_id = 2, p_esp = 0x8000, p_ebp = 0x8010, p_eip = 0x1234, p_pd = 0x4000, p_next = 0\<rparr>], next_pid := 3\<rparr>"

lemma proc_s1_inv: "proc_inv [0x6000, 0x7000] proc_s1" "dirs_ok [0x6000, 0x7000] proc_s1" "current_proc proc_s1 = 0x6000"
  by (simp_all add: proc_inv_def dirs_ok_def proc_s1_def proc_s0_def pid_of_def)

theorem switch_proc_next_witness:
  "\<exists>s'. switch_proc 0x5555 proc_s1 = Inr (True, s') \<and> current_proc s' = 0x7000 \<and> esp s' = 0x8000 \<and> eip s' = 0x1234"
proof -
  have i: "proc_inv ([] @ 0x6000 # [0x7000]) proc_s1" using proc_s1_inv(1) by simp
  have d: "\<forall>b \<in> set [0x7000]. \<exists>x pd. procs proc_s1 b = Some x \<and> p_pd x \<noteq> 0 \<and> page_dirs (os_vm proc_s1) (p_pd x) = Some pd"
    using proc_s1_inv(2) by (simp add: dirs_ok_def)
  have "procs proc_s1 0x7000 = Some \<lparr>p_id = 2, p_esp = 0x8000, p_ebp = 0x8010, p_eip = 0x1234, p_pd = 0x4000, p_next = 0\<rparr>" by (simp add: proc_s1_def)
  then show ?thesis using switch_proc_next [OF i proc_s1_inv(3) _ d, of "0x5555"] by auto
qed

text \<open>
  C20: the last process of the queue keeps the processor. However many timer interrupts follow, the running process moves one
  place to the right per interrupt until it is the last one, and then never changes again: every process before it gets at most one turn.
\<close>

theorem last_process_starves_others:
  assumes "proc_inv qs s" and "dirs_ok qs s" and "k < length qs" and "current_proc s = qs ! k" and "0xDEAD \<notin> set ips"
  shows "\<exists>s'. run_switches ips s = Inr s' \<and> proc_inv qs s' \<and> current_proc s' = qs ! min (k + length ips) (length qs - 1)"
  using assms
proof (induction ips arbitrary: s k)
  case Nil
  then show ?case by (auto simp: min_def)
next
  case (Cons ip ips)
  have "ip \<noteq> 0xDEAD" using Cons.prems(5) by auto
  then obtain b s1 where s1: "switch_proc ip s = Inr (b, s1)" "proc_inv qs s1" "dirs_ok qs s1" "current_proc s1 = qs ! min (Suc k) (length qs - 1)"
    using switch_proc_at [OF Cons.prems(1-4), of ip] by blast
  have "min (Suc k) (length qs - 1) < length qs" using Cons.prems(3) by simp
  moreover have "min (min (Suc k) (length qs - 1) + length ips) (length qs - 1) = min (k + length (ip # ips)) (length qs - 1)" by simp
  ultimately show ?case using Cons.IH [OF s1(2,3) _ s1(4)] Cons.prems(5) s1(1) by auto
qed

theorem last_process_starves_others_witness:
  "\<exists>s'. run_switches (replicate 1000 0x5555) proc_s1 = Inr s' \<and> current_proc s' = 0x7000"
  using last_process_starves_others [OF proc_s1_inv(1,2), of 0 "replicate 1000 0x5555"] proc_s1_inv(3) by auto

definition uptime_ok :: "timer \<Rightarrow> bool" where
  "uptime_ok t \<longleftrightarrow> 18222 * (seconds_passed t - 1) \<le> 1000 * uint (timer_ticks t) \<and> 1000 * uint (timer_ticks t) \<le> 18222 * seconds_passed t \<and>
     0 \<le> seconds_passed t \<and> seconds_passed t < 2 ^ 28"

text \<open>
  C22: the uptime is right. While one process runs, the seconds counted by \<open>timer_handler\<close> and the time that the ticks stand for differ by
  less than a second, and the counter stays far below the largest \<open>int\<close>, until the tick counter wraps around after more than seven years.
\<close>

theorem uptime_bounds:
  assumes "fp_gt_ok fp_gt" and "uptime_ok t" and "uint (timer_ticks t) < 2 ^ 32 - 1" and "proc_inv [c] s"
  shows "\<exists>t'. timer_handler fp_gt ip (t, s) = Inr (t', s) \<and> uptime_ok t' \<and> timer_ticks t' = timer_ticks t + 1"
proof -
  have "proc_list (procs s) (ready_queue s) [c]" "current_proc s = c" using assms(4) by (auto simp: proc_inv_def)
  then have sw: "switch_proc ip s = Inr (False, s)" by (auto simp: switch_proc_def)
  let ?t = "timer_ticks t + 1" and ?n = "seconds_passed t"
  have u: "uint ?t = uint (timer_ticks t) + 1" using assms(3) by (simp add: uint_word_ariths)
  have n: "0 \<le> ?n" "?n < 2 ^ 28" "18222 * (?n - 1) \<le> 1000 * uint (timer_ticks t)" "1000 * uint (timer_ticks t) \<le> 18222 * ?n"
    using assms(2) by (auto simp: uptime_ok_def)
  have g: "18222 * ?n < 1000 * uint ?t \<Longrightarrow> fp_gt ?t ?n" "1000 * uint ?t < 18222 * ?n \<Longrightarrow> \<not> fp_gt ?t ?n" using assms(1) n(1) by (auto simp: fp_gt_ok_def)
  let ?t' = "if fp_gt ?t ?n then \<lparr>timer_ticks = ?t, seconds_passed = ?n + 1\<rparr> else \<lparr>timer_ticks = ?t, seconds_passed = ?n\<rparr>"
  have "timer_handler fp_gt ip (t, s) = Inr (?t', s)" using sw by (cases t) (simp add: timer_handler_def Let_def)
  moreover have "uptime_ok ?t'"
  proof (cases "fp_gt ?t ?n")
    case True
    then have "18222 * ?n \<le> 1000 * uint ?t" using g(2) by linarith
    moreover have "1000 * uint ?t \<le> 18222 * (?n + 1)" unfolding u distrib_left using n(4) by linarith
    moreover have "?n + 1 < 2 ^ 28" using \<open>18222 * ?n \<le> 1000 * uint ?t\<close> assms(3) unfolding u distrib_left by simp
    ultimately show ?thesis using True n by (simp add: uptime_ok_def)
  next
    case False
    then have "1000 * uint ?t \<le> 18222 * ?n" using g(1) by linarith
    then show ?thesis using False n u by (simp add: uptime_ok_def)
  qed
  ultimately show ?thesis by (intro exI [of _ ?t']) simp
qed

theorem uptime_bounds_witness:
  "\<exists>t'. timer_handler (\<lambda>t s. 18222 * s < 1000 * uint t) 0x5555 (\<lparr>timer_ticks = 18, seconds_passed = 1\<rparr>, proc_s0) = Inr (t', proc_s0) \<and>
     uptime_ok t' \<and> timer_ticks t' = 19"
proof -
  have "proc_inv [0x6000] proc_s0" by (simp add: proc_inv_def proc_s0_def pid_of_def)
  then show ?thesis using uptime_bounds [of "\<lambda>t s. 18222 * s < 1000 * uint t" "\<lparr>timer_ticks = 18, seconds_passed = 1\<rparr>" "0x6000" proc_s0 "0x5555"]
    by (simp add: fp_gt_ok_def uptime_ok_def)
qed

text \<open>
  C23: \<open>timer_wait\<close> returns. If the target tick does not wrap around and one process runs, the wait ends after exactly the given
  number of timer interrupts, however many arrive later; with fewer interrupts it does not return.
\<close>

theorem timer_wait_returns:
  assumes "proc_inv [c] s" and "unat (timer_ticks t) + unat ticks < 2 ^ 32"
  shows "if unat ticks \<le> length irqs
    then \<exists>t'. timer_wait fp_gt ticks irqs (t, s) = Inr (t', s) \<and> timer_ticks t' = timer_ticks t + ticks
    else timer_wait fp_gt ticks irqs (t, s) = Inl Blocked"
proof -
  have "proc_list (procs s) (ready_queue s) [c]" "current_proc s = c" using assms(1) by (auto simp: proc_inv_def)
  then have sw: "switch_proc ip s = Inr (False, s)" for ip by (auto simp: switch_proc_def)
  have d: "unat (timer_ticks t + ticks) - unat (timer_ticks t) = unat ticks" and m: "max (timer_ticks t + ticks) (timer_ticks t) = timer_ticks t + ticks"
    using assms(2) by (simp_all add: unat_word_ariths max_def word_le_nat_alt unat_eq_0)
  have "if unat e - unat (timer_ticks t) \<le> length irqs
    then \<exists>t'. wait_ticks fp_gt e irqs (t, s) = Inr (t', s) \<and> timer_ticks t' = max e (timer_ticks t)
    else wait_ticks fp_gt e irqs (t, s) = Inl Blocked" for e
  proof (induction irqs arbitrary: t)
    case Nil
    then show ?case by (auto simp: word_less_nat_alt word_le_nat_alt max_def)
  next
    case (Cons ip irqs)
    show ?case
    proof (cases "timer_ticks t < e")
      case False
      then show ?thesis by (auto simp: word_less_nat_alt word_le_nat_alt max_def)
    next
      case True
      let ?t = "t\<lparr>timer_ticks := timer_ticks t + 1\<rparr>"
      have "Suc (unat (timer_ticks t)) \<le> unat e" using True by (simp add: word_less_nat_alt)
      from order_le_less_trans [OF this unat_u32_less] have "Suc (unat (timer_ticks t)) < 2 ^ 32" by simp
      then have u: "unat (timer_ticks t + 1) = Suc (unat (timer_ticks t))" by (simp add: unat_word_ariths)
      obtain t1 where t1: "timer_handler fp_gt ip (t, s) = Inr (t1, s)" "timer_ticks t1 = timer_ticks t + 1"
        using sw by (simp add: timer_handler_def Let_def)
      have mx: "max e (timer_ticks t + 1) = e" "max e (timer_ticks t) = e" using True u by (simp_all add: max_def word_less_nat_alt word_le_nat_alt word_unat_eq_iff)
      have "unat e - unat (timer_ticks t) = Suc (unat e - Suc (unat (timer_ticks t)))" using True by (simp add: word_less_nat_alt)
      then show ?thesis using Cons [of t1] t1(1) True unfolding t1(2) u mx by simp
    qed
  qed
  from this [of "timer_ticks t + ticks"] show ?thesis unfolding timer_wait_def d m by simp
qed

theorem timer_wait_returns_witness:
  "(\<exists>t'. timer_wait (\<lambda>t s. 18222 * s < 1000 * uint t) 3 [1, 2, 3, 4] (\<lparr>timer_ticks = 18, seconds_passed = 1\<rparr>, proc_s0) = Inr (t', proc_s0) \<and>
     timer_ticks t' = 21) \<and>
   timer_wait (\<lambda>t s. 18222 * s < 1000 * uint t) 3 [1, 2] (\<lparr>timer_ticks = 18, seconds_passed = 1\<rparr>, proc_s0) = Inl Blocked"
proof -
  have i: "proc_inv [0x6000] proc_s0" by (simp add: proc_inv_def proc_s0_def pid_of_def)
  show ?thesis
    using timer_wait_returns [OF i, of "\<lparr>timer_ticks = 18, seconds_passed = 1\<rparr>" 3 "[1, 2, 3, 4]" "\<lambda>t s. 18222 * s < 1000 * uint t"]
      timer_wait_returns [OF i, of "\<lparr>timer_ticks = 18, seconds_passed = 1\<rparr>" 3 "[1, 2]" "\<lambda>t s. 18222 * s < 1000 * uint t"] by simp
qed

lemma load32_copied:
  assumes k: "k < L" and "4 * L < 2 ^ 32"
  shows "load32 (copied dst src (4 * L) m) (dst + of_nat (4 * k)) = load32 m (src + of_nat (4 * k))"
proof (rule load32_shift)
  fix i :: nat
  assume "i < 4"
  then have i: "4 * k + i < 4 * L" using k by linarith
  then have "unat (of_nat (4 * k + i) :: u32) = 4 * k + i" using assms(2) by (simp only: unat_of_nat) simp
  then have "copied dst src (4 * L) m (dst + of_nat (4 * k + i)) = m (src + of_nat (4 * k + i))"
    using i by (simp add: copied_def del: of_nat_add of_nat_mult)
  then show "copied dst src (4 * L) m (dst + of_nat (4 * k) + of_nat i) = m (src + of_nat (4 * k) + of_nat i)"
    by (simp only: of_nat_add add.assoc)
qed

text \<open>
  C21: \<open>move_stack\<close> relocates the stack. If the pages of the new stack are mapped and the used part of the old one fits into it, the
  stack and base pointer are moved by the offset between the two, every word of the used part is found at its new place, with the offset added
  exactly if it points into the old stack, and the old stack is unchanged.
\<close>

theorem move_stack_relocates:
  assumes map: "map_stack d (start - of_nat (4 * N)) (start, os_vm s) = Inr (i, v)"
    and new: "4 * N \<le> unat start" "unat start + 4 \<le> 2 ^ 32" "N \<le> 2 ^ 28"
    and old: "unat (esp s) + 4 * L = unat (initial_esp s)" "L < N" "unat (initial_esp s) \<le> unat start - 4 * N"
  shows "\<exists>s'. move_stack d start (of_nat (4 * N)) s = Inr s' \<and> esp s' = esp s + (start - initial_esp s) \<and> ebp s' = ebp s + (start - initial_esp s) \<and>
    os_vm s' = v \<and>
    (\<forall>k < L. load32 (vmem s') (esp s' + of_nat (4 * k)) =
       relocate (esp s) (initial_esp s) (start - initial_esp s) (load32 (vmem s) (esp s + of_nat (4 * k)))) \<and>
    (\<forall>a. unat a < unat (initial_esp s) \<longrightarrow> vmem s' a = vmem s a)"
proof -
  let ?off = "start - initial_esp s" and ?lim = "start - of_nat (4 * N) :: u32"
  let ?sp = "esp s + ?off" and ?sz = "initial_esp s - esp s"
  have sz: "unat ?sz = 4 * L" using old(1) by (simp add: unat_sub_u32)
  have "of_nat (unat (esp s) + 4 * L) = (of_nat (unat (initial_esp s)) :: u32)" using old(1) by simp
  then have "initial_esp s = esp s + of_nat (4 * L)" by simp
  then have sp: "?sp = start - of_nat (4 * L)" by simp
  have l: "4 * L \<le> unat start" using old(2) new(1) by linarith
  have l32: "4 * L < 2 ^ 32" using order_le_less_trans [OF l unat_u32_less] by simp
  then have "unat (of_nat (4 * L) :: u32) = 4 * L" by (simp only: unat_of_nat) simp
  then have usp: "unat ?sp = unat start - 4 * L" unfolding sp using l by (simp add: unat_sub_u32 del: of_nat_mult)
  let ?m = "memcpy ?sp (esp s) ?sz (vmem s)"
  have m: "?m = copied ?sp (esp s) (4 * L) (vmem s)"
    unfolding sz [symmetric] using usp sz old new by (intro memcpy_disjoint) auto
  obtain p m' where pm: "patch_stack (esp s) (initial_esp s) ?off ?lim (start, ?m) = Inr (p, m')"
    "\<And>i. i < N \<Longrightarrow> load32 m' (start - of_nat (4 * i)) = relocate (esp s) (initial_esp s) ?off (load32 ?m (start - of_nat (4 * i)))"
    "\<And>a. unat a \<le> unat start - 4 * N \<Longrightarrow> m' a = ?m a" using patch_stack_words [OF new] by blast
  let ?s' = "s\<lparr>os_vm := v, vmem := m', esp := ?sp, ebp := ebp s + ?off\<rparr>"
  have "move_stack d start (of_nat (4 * N)) s = Inr ?s'" unfolding move_stack_def Let_def using map pm(1) by simp
  moreover have "load32 m' (?sp + of_nat (4 * k)) = relocate (esp s) (initial_esp s) ?off (load32 (vmem s) (esp s + of_nat (4 * k)))" if "k < L" for k
  proof -
    have e: "?sp + of_nat (4 * k) = start - of_nat (4 * (L - k))" unfolding sp using that by (simp add: of_nat_diff algebra_simps)
    have "load32 ?m (?sp + of_nat (4 * k)) = load32 (vmem s) (esp s + of_nat (4 * k))"
      unfolding m using that l32 by (rule load32_copied)
    then show ?thesis using pm(2) [of "L - k"] old(2) unfolding e [symmetric] by simp
  qed
  moreover have "m' a = vmem s a" if "unat a < unat (initial_esp s)" for a
  proof -
    have "unat a < unat ?sp" "unat ?sp + 4 * L \<le> 2 ^ 32" using that old usp new by linarith+
    then have "\<not> unat (a - ?sp) < 4 * L" unfolding unat_sub_u32 by simp
    then show ?thesis using pm(3) [of a] that old(3) unfolding m copied_def by simp
  qed
  ultimately show ?thesis by (intro exI [of _ ?s']) simp
qed

text \<open>A state in which the page tables for the new stack exist; the word at 0x8F10 points into the old stack.\<close>

definition stack_s :: os where
  "stack_s = proc_s0\<lparr>os_vm := vm_empty\<lparr>vm_pm := pm_fresh 128, current_pd := 0x4000,
       page_dirs := [0x4000 \<mapsto> zero_pd\<lparr>tables := (replicate 1024 0)[895 := 0x5000, 896 := 0x6000]\<rparr>],
       page_tables := [0x5000 \<mapsto> replicate 1024 2, 0x6000 \<mapsto> replicate 1024 2]\<rparr>,
     vmem := store32 0x8F10 0x8F80 (\<lambda>_. 0)\<rparr>"

theorem move_stack_relocates_witness:
  "\<exists>s'. move_stack 4 0xE0000000 0x4000 stack_s = Inr s' \<and> esp s' = 0xDFFFFF00 \<and> ebp s' = 0xDFFFFF80 \<and> load32 (vmem s') 0xDFFFFF10 = 0xDFFFFF80"
proof -
  have "q div 1024 = 895 \<or> q div 1024 = 896" if "0xDFFFC \<le> q \<and> q \<le> 0xE0000" for q :: nat using that by linarith
  then have "stack_ready (zero_pd\<lparr>tables := (replicate 1024 0)[895 := 0x5000, 896 := 0x6000]\<rparr>) 0xDFFFC 0xE0000 (Suc 0xE0000 - 0xDFFFC) (os_vm stack_s)"
    using pm_fresh_128(1,2) by (auto simp: stack_ready_def stack_s_def nth_list_update)
  then obtain i v where m: "map_stack 4 (0xE0000000 - of_nat (4 * 0x1000)) (0xE0000000, os_vm stack_s) = Inr (i, v)"
    using map_stack_Inr [where start = "0xE0000000" and limit = "0xE0000000 - of_nat (4 * 0x1000)" and d = 4] by fastforce
  have r: "esp stack_s = 0x8F00" "ebp stack_s = 0x8F80" "initial_esp stack_s = 0x9000" "vmem stack_s = store32 0x8F10 0x8F80 (\<lambda>_. 0)"
    by (simp_all add: stack_s_def proc_s0_def)
  show ?thesis using move_stack_relocates [OF m, of 64] unfolding r by (auto simp: relocate_def load32_store32 dest!: spec [of _ 4])
qed

end
