(* ===== verification/Tty.thy ===== *)
theory Tty
  imports Prelude
begin

text \<open>
  The console: the serial port (\<^verbatim>\<open>serial.c\<close>), the VGA text terminal (\<^verbatim>\<open>tty.c\<close>, \<^verbatim>\<open>vga.h\<close>) and its use by
  \<open>putchar\<close>. Port output is recorded as a trace; the answers of the devices to \<open>inb\<close> are a function of the port and of
  the number of reads so far. The screen is the list of its 2000 cells; an index outside of it is an error.
\<close>

section \<open>Ports\<close>

record io =
  dev :: "u16 \<Rightarrow> nat \<Rightarrow> u8"
  reads :: nat
  writes :: "(u16 \<times> u8) list"

definition io_outb :: "u16 \<Rightarrow> u8 \<Rightarrow> io \<Rightarrow> io" where
  "io_outb port v s = s\<lparr>writes := writes s @ [(port, v)]\<rparr>"

definition inb :: "u16 \<Rightarrow> io \<Rightarrow> u8 \<times> io" where
  "inb port s = (dev s port (reads s), s\<lparr>reads := Suc (reads s)\<rparr>)"

section \<open>Serial port\<close>

abbreviation SERIAL_COM1_BASE :: u16 where "SERIAL_COM1_BASE \<equiv> 0x3F8"

definition serial_configure_baud_rate :: "u16 \<Rightarrow> u16 \<Rightarrow> io \<Rightarrow> io" where
  "serial_configure_baud_rate com divisor s =
     io_outb com (ucast (divisor AND 0x00FF)) (io_outb com (ucast (drop_bit 8 divisor AND 0x00FF)) (io_outb (com + 3) 0x80 s))"

definition serial_configure_line :: "u16 \<Rightarrow> io \<Rightarrow> io" where
  "serial_configure_line com s = io_outb (com + 3) 0x03 s"

definition serial_configure_buffers :: "u16 \<Rightarrow> io \<Rightarrow> io" where
  "serial_configure_buffers com s = io_outb (com + 2) 0xC7 s"

definition serial_configure_modem :: "u16 \<Rightarrow> io \<Rightarrow> io" where
  "serial_configure_modem com s = io_outb (com + 4) 0x03 s"

definition serial_initialize :: "u16 \<Rightarrow> io \<Rightarrow> io" where
  "serial_initialize base s =
     serial_configure_modem base (serial_configure_buffers base (serial_configure_line base
       (serial_configure_baud_rate base 3 (io_outb (base + 1) 0x00 s))))"

definition is_serial_transmit_fifo_empty :: "u16 \<Rightarrow> io \<Rightarrow> u8 \<times> io" where
  "is_serial_transmit_fifo_empty com s = (let (b, s) = inb (com + 5) s in (b AND 0x20, s))"

definition is_serial_received :: "u16 \<Rightarrow> io \<Rightarrow> u8 \<times> io" where
  "is_serial_received com s = (let (b, s) = inb (com + 5) s in (b AND 1, s))"

text \<open>The busy waits; \<open>None\<close> when the device never becomes ready.\<close>

partial_function (option) transmit_wait :: "u16 \<Rightarrow> io \<Rightarrow> io option" where
  "transmit_wait com s = (case is_serial_transmit_fifo_empty com s of (b, s) \<Rightarrow> if b = 0 then transmit_wait com s else Some s)"

partial_function (option) receive_wait :: "u16 \<Rightarrow> io \<Rightarrow> io option" where
  "receive_wait com s = (case is_serial_received com s of (b, s) \<Rightarrow> if b = 0 then receive_wait com s else Some s)"

definition serial_write :: "u16 \<Rightarrow> u8 \<Rightarrow> io \<Rightarrow> io res" where
  "serial_write com c s = (case transmit_wait com s of None \<Rightarrow> Inl Blocked | Some s \<Rightarrow> Inr (io_outb com c s))"

definition serial_read :: "u16 \<Rightarrow> io \<Rightarrow> (u8 \<times> io) res" where
  "serial_read com s = (case receive_wait com s of None \<Rightarrow> Inl Blocked | Some s \<Rightarrow> Inr (inb com s))"

section \<open>Terminal\<close>

abbreviation VGA_WIDTH :: u32 where "VGA_WIDTH \<equiv> 80"
abbreviation VGA_HEIGHT :: u32 where "VGA_HEIGHT \<equiv> 25"

datatype vga_color =
    VGA_COLOR_BLACK | VGA_COLOR_BLUE | VGA_COLOR_GREEN | VGA_COLOR_CYAN | VGA_COLOR_RED | VGA_COLOR_MAGENTA
  | VGA_COLOR_BROWN | VGA_COLOR_LIGHT_GREY | VGA_COLOR_DARK_GREY | VGA_COLOR_LIGHT_BLUE | VGA_COLOR_LIGHT_GREEN
  | VGA_COLOR_LIGHT_CYAN | VGA_COLOR_LIGHT_RED | VGA_COLOR_LIGHT_MAGENTA | VGA_COLOR_LIGHT_BROWN | VGA_COLOR_WHITE

primrec vga_code :: "vga_color \<Rightarrow> u8" where
  "vga_code VGA_COLOR_BLACK = 0" | "vga_code VGA_COLOR_BLUE = 1" | "vga_code VGA_COLOR_GREEN = 2" | "vga_code VGA_COLOR_CYAN = 3"
| "vga_code VGA_COLOR_RED = 4" | "vga_code VGA_COLOR_MAGENTA = 5" | "vga_code VGA_COLOR_BROWN = 6" | "vga_code VGA_COLOR_LIGHT_GREY = 7"
| "vga_code VGA_COLOR_DARK_GREY = 8" | "vga_code VGA_COLOR_LIGHT_BLUE = 9" | "vga_code VGA_COLOR_LIGHT_GREEN = 10"
| "vga_code VGA_COLOR_LIGHT_CYAN = 11" | "vga_code VGA_COLOR_LIGHT_RED = 12" | "vga_code VGA_COLOR_LIGHT_MAGENTA = 13"
| "vga_code VGA_COLOR_LIGHT_BROWN = 14" | "vga_code VGA_COLOR_WHITE = 15"

definition vga_entry_color :: "vga_color \<Rightarrow> vga_color \<Rightarrow> u8" where
  "vga_entry_color fg bg = vga_code fg OR push_bit 4 (vga_code bg)"

definition vga_entry :: "u8 \<Rightarrow> u8 \<Rightarrow> u16" where
  "vga_entry uc color = ucast uc OR push_bit 8 (ucast color)"

record tty =
  terminal_x :: u32
  terminal_y :: u32
  terminal_color :: u8
  terminal_buffer :: "u16 list"
  tty_io :: io

definition terminal_movecursor :: "tty \<Rightarrow> tty" where
  "terminal_movecursor t =
     (let temp = terminal_x t + terminal_y t * VGA_WIDTH in
      t\<lparr>tty_io := io_outb 0x3D5 (ucast temp) (io_outb 0x3D4 15 (io_outb 0x3D5 (ucast (drop_bit 8 temp)) (io_outb 0x3D4 14 (tty_io t))))\<rparr>)"

definition terminal_initialize :: "tty \<Rightarrow> tty" where
  "terminal_initialize t =
     (let color = vga_entry_color VGA_COLOR_LIGHT_GREY VGA_COLOR_BLACK in
      terminal_movecursor (t\<lparr>terminal_x := 0, terminal_y := 0, terminal_color := color,
        terminal_buffer := replicate 2000 (vga_entry 32 color)\<rparr>))"

definition terminal_clearscreen :: "tty \<Rightarrow> tty" where
  "terminal_clearscreen t = terminal_initialize t"

definition terminal_setcolor :: "u8 \<Rightarrow> tty \<Rightarrow> tty" where
  "terminal_setcolor color t = t\<lparr>terminal_color := color\<rparr>"

definition terminal_putentryat :: "u8 \<Rightarrow> u8 \<Rightarrow> u32 \<Rightarrow> u32 \<Rightarrow> tty \<Rightarrow> tty res" where
  "terminal_putentryat c color x y t =
     res_bind (arr_set (terminal_buffer t) (unat (y * VGA_WIDTH + x)) (vga_entry c color)) (\<lambda>b. Inr (t\<lparr>terminal_buffer := b\<rparr>))"

fun fill_cells :: "nat list \<Rightarrow> u16 \<Rightarrow> u16 list \<Rightarrow> u16 list res" where
  "fill_cells [] v b = Inr b"
| "fill_cells (i # is) v b = res_bind (arr_set b i v) (fill_cells is v)"

definition terminal_delete_last_line :: "tty \<Rightarrow> tty res" where
  "terminal_delete_last_line t =
     res_bind (fill_cells [24 * 80..<25 * 80] (vga_entry 32 (terminal_color t)) (terminal_buffer t)) (\<lambda>b. Inr (t\<lparr>terminal_buffer := b\<rparr>))"

fun move_cells :: "nat list \<Rightarrow> u16 list \<Rightarrow> u16 list res" where
  "move_cells [] b = Inr b"
| "move_cells (i # is) b = res_bind (arr_get b i) (\<lambda>v. res_bind (arr_set b (unat (of_nat i - VGA_WIDTH)) v) (move_cells is))"

definition terminal_scroll :: "nat \<Rightarrow> tty \<Rightarrow> tty res" where
  "terminal_scroll line t =
     res_bind (move_cells [line * 80..<(line + 1) * 80] (terminal_buffer t)) (\<lambda>b. Inr (t\<lparr>terminal_buffer := b\<rparr>))"

fun scroll_lines :: "nat list \<Rightarrow> tty \<Rightarrow> tty res" where
  "scroll_lines [] t = Inr t"
| "scroll_lines (y # ys) t = res_bind (terminal_scroll y t) (scroll_lines ys)"

definition terminal_putchar :: "u8 \<Rightarrow> tty \<Rightarrow> tty res" where
  "terminal_putchar c t =
     res_bind
       (if c = 10 then Inr (t\<lparr>terminal_x := 0, terminal_y := terminal_y t + 1\<rparr>)
        else if c = 0 then Inr t
        else res_bind (terminal_putentryat c (terminal_color t) (terminal_x t) (terminal_y t) t) (\<lambda>t.
             Inr (t\<lparr>terminal_x := terminal_x t + 1\<rparr>))) (\<lambda>t.
     let t = (if terminal_x t = VGA_WIDTH then t\<lparr>terminal_x := 0, terminal_y := terminal_y t + 1\<rparr> else t) in
     res_bind
       (if terminal_y t = VGA_HEIGHT then
          res_bind (scroll_lines [1..<25] t) (\<lambda>t.
          res_bind (terminal_delete_last_line t) (\<lambda>t.
          Inr (t\<lparr>terminal_x := 0, terminal_y := VGA_HEIGHT - 1\<rparr>)))
        else Inr t) (\<lambda>t.
     let t = terminal_movecursor t in
     res_bind (serial_write SERIAL_COM1_BASE c (tty_io t)) (\<lambda>io. Inr (t\<lparr>tty_io := io\<rparr>))))"

definition terminal_newline :: "tty \<Rightarrow> tty res" where
  "terminal_newline t = terminal_putchar 10 t"

fun terminal_write :: "u8 list \<Rightarrow> tty \<Rightarrow> tty res" where
  "terminal_write [] t = Inr t"
| "terminal_write (c # cs) t = res_bind (terminal_putchar c t) (terminal_write cs)"

abbreviation bytes_of :: "string \<Rightarrow> u8 list" where
  "bytes_of \<equiv> map (\<lambda>c. of_nat (of_char c))"

definition terminal_writestring :: "u8 list \<Rightarrow> tty \<Rightarrow> tty res" where
  "terminal_writestring data t = terminal_write data t"

text \<open>\<^verbatim>\<open>(int)terminal_x - dx < 0\<close> is a signed comparison, the assignments are unsigned.\<close>

definition terminal_back :: "u32 \<Rightarrow> tty \<Rightarrow> tty" where
  "terminal_back dx t =
     (if sint (terminal_x t - dx) < 0
      then t\<lparr>terminal_y := terminal_y t - 1, terminal_x := VGA_WIDTH - (dx - terminal_x t)\<rparr>
      else t\<lparr>terminal_x := terminal_x t - dx\<rparr>)"

definition terminal_backspace :: "tty \<Rightarrow> tty res" where
  "terminal_backspace t =
     res_bind (terminal_putchar 32 (terminal_back 1 t)) (\<lambda>t. Inr (terminal_movecursor (terminal_back 1 t)))"

definition logo :: "(vga_color \<times> string) list" where
  "logo = [
     (VGA_COLOR_RED, ''MP\"\"\"\"\"\"`MMdP      oo                          \<newline>''),
     (VGA_COLOR_BROWN, ''M  mmmmm..M88                                        \<newline>''),
     (VGA_COLOR_LIGHT_BROWN, ''M.      `YM88d888b.dP.d8888b.dP    dP88d888b..d8888b.\<newline>''),
     (VGA_COLOR_GREEN, ''MMMMMMM.  M88'' @ [CHR 0x27] @ ''  `888888'' @ [CHR 0x27] @ ''  `8888    8888'' @ [CHR 0x27] @ ''  `8888ooood8\<newline>''),
     (VGA_COLOR_CYAN, ''M. .MMM'' @ [CHR 0x27] @ ''  M88    888888.  .8888.  .8888      88.  ...\<newline>''),
     (VGA_COLOR_BLUE, ''Mb.     .dMdP    dPdP`8888P88`88888P'' @ [CHR 0x27] @ ''dP      `88888P'' @ [CHR 0x27] @ ''\<newline>''),
     (VGA_COLOR_MAGENTA, ''MMMMMMMMMMM               .88                        \<newline>''),
     (VGA_COLOR_LIGHT_MAGENTA, ''                      d8888P                         \<newline>''),
     (VGA_COLOR_LIGHT_GREY, ''Welcome to Shigure OS!\<newline>'')]"

fun show_lines :: "(vga_color \<times> string) list \<Rightarrow> tty \<Rightarrow> tty res" where
  "show_lines [] t = Inr t"
| "show_lines ((c, l) # ls) t = res_bind (terminal_writestring (bytes_of l) (terminal_setcolor (vga_code c) t)) (show_lines ls)"

definition terminal_showlogo :: "tty \<Rightarrow> tty res" where
  "terminal_showlogo t = show_lines logo t"

definition putchar :: "u8 \<Rightarrow> tty \<Rightarrow> tty res" where
  "putchar ic t = terminal_write [ic] t"

end
