(* ===== verification/Tty_Spec.thy ===== *)
theory Tty_Spec
  imports Tty Printf
begin

text \<open>
  Properties of the console. A terminal state is seen as a screen (cursor and cells) and as the bytes that were sent to the serial port;
  \<open>terminal_putchar\<close> is proved to be one abstract operation on it, which makes the terminal an instance of the locale \<open>console\<close>.
\<close>

section \<open>Scrolling\<close>

lemma move_cells_append: "move_cells (is @ js) b = res_bind (move_cells is b) (move_cells js)"
proof (induction "is" arbitrary: b)
  case (Cons i "is")
  then have "move_cells (is @ js) = (\<lambda>b. res_bind (move_cells is b) (move_cells js))" by blast
  then show ?case by (simp add: res_bind_assoc)
qed simp

lemma move_cells_upt:
  assumes "80 \<le> k" "k \<le> length b" "length b < 2 ^ 32"
  shows "\<exists>b'. move_cells [80..<k] b = Inr b' \<and> length b' = length b \<and> (\<forall>j < length b. b' ! j = (if j + 80 < k then b ! (j + 80) else b ! j))"
  using assms
proof (induction k)
  case (Suc k)
  show ?case
  proof (cases "k < 80")
    case True
    then have "[80..<Suc k] = []" by simp
    then show ?thesis using True by (intro exI [of _ b]) (simp add: less_Suc_eq)
  next
    case False
    then obtain b' where b: "move_cells [80..<k] b = Inr b'" "length b' = length b"
      "\<And>j. j < length b \<Longrightarrow> b' ! j = (if j + 80 < k then b ! (j + 80) else b ! j)" using Suc by auto
    have "unat (of_nat k - 80 :: u32) = k - 80"
    proof -
      have "(of_nat k - 80 :: u32) = of_nat (k - 80)" using False by (simp add: of_nat_diff)
      moreover have "k - 80 < 2 ^ 32" using Suc.prems by linarith
      ultimately show ?thesis by (simp add: unat_of_nat)
    qed
    then have "move_cells [80..<Suc k] b = Inr (b'[k - 80 := b ! k])"
      using False Suc.prems b by (simp add: move_cells_append arr_get_def arr_set_def)
    moreover have "b'[k - 80 := b ! k] ! j = (if j + 80 < Suc k then b ! (j + 80) else b ! j)" if "j < length b" for j
      using b(2,3) that False Suc.prems by (auto simp: nth_list_update)
    ultimately show ?thesis using b(2) by simp
  qed
qed simp

lemma scroll_lines_cells:
  "scroll_lines ys t = res_bind (move_cells (concat (map (\<lambda>y. [y * 80..<(y + 1) * 80]) ys)) (terminal_buffer t)) (\<lambda>b. Inr (t\<lparr>terminal_buffer := b\<rparr>))"
  by (induction ys arbitrary: t) (simp_all add: terminal_scroll_def move_cells_append res_bind_assoc)

lemma concat_lines: "concat (map (\<lambda>y. [y * 80..<(y + 1) * 80]) [1..<Suc n]) = [80..<Suc n * 80]"
proof (induction n)
  case (Suc n)
  have "[80..<Suc (Suc n) * 80] = [80..<Suc n * 80] @ [Suc n * 80..<Suc (Suc n) * 80]"
    using upt_add_eq_append [of 80 "Suc n * 80" 80] by simp
  with Suc show ?case by simp
qed simp

lemma fill_cells_upt:
  "k \<le> length b \<Longrightarrow> \<exists>b'. fill_cells [i..<k] v b = Inr b' \<and> length b' = length b \<and> (\<forall>j < length b. b' ! j = (if i \<le> j \<and> j < k then v else b ! j))"
proof (induction "k - i" arbitrary: i b)
  case 0
  then show ?case by (intro exI [of _ b]) auto
next
  case (Suc n)
  then have n: "n = k - Suc i" and "[i..<k] = i # [Suc i..<k]" by (simp_all add: upt_rec)
  moreover obtain b' where "fill_cells [Suc i..<k] v (b[i := v]) = Inr b'" "length b' = length b"
    "\<And>j. j < length b \<Longrightarrow> b' ! j = (if Suc i \<le> j \<and> j < k then v else b[i := v] ! j)"
    using Suc.hyps(1) [OF n, of "b[i := v]"] Suc.prems by auto
  ultimately show ?case using Suc.hyps(2) Suc.prems by (auto simp: arr_set_def nth_list_update)
qed

definition scrolled :: "u8 \<Rightarrow> u16 list \<Rightarrow> u16 list" where
  "scrolled color b = drop 80 b @ replicate 80 (vga_entry 32 color)"

lemma scroll_screen:
  assumes "length (terminal_buffer t) = 2000"
  shows "res_bind (scroll_lines [1..<25] t) terminal_delete_last_line = Inr (t\<lparr>terminal_buffer := scrolled (terminal_color t) (terminal_buffer t)\<rparr>)"
proof -
  let ?b = "terminal_buffer t" and ?v = "vga_entry 32 (terminal_color t)"
  obtain b1 where b1: "move_cells [80..<2000] ?b = Inr b1" "length b1 = 2000" "\<And>j. j < 2000 \<Longrightarrow> b1 ! j = (if j + 80 < 2000 then ?b ! (j + 80) else ?b ! j)"
    using move_cells_upt [of 2000 ?b] assms by (auto simp del: upt_rec_numeral)
  obtain b2 where b2: "fill_cells [1920..<2000] ?v b1 = Inr b2" "length b2 = 2000" "\<And>j. j < 2000 \<Longrightarrow> b2 ! j = (if 1920 \<le> j \<and> j < 2000 then ?v else b1 ! j)"
    using fill_cells_upt [of 2000 b1 1920 ?v] b1(2) by (auto simp del: upt_rec_numeral)
  have "b2 = scrolled (terminal_color t) ?b"
    using assms b1(3) b2(2,3) by (intro nth_equalityI) (auto simp: scrolled_def nth_append add.commute)
  moreover have "scroll_lines [1..<25] t = Inr (t\<lparr>terminal_buffer := b1\<rparr>)"
    using scroll_lines_cells [of "[1..<25]" t] concat_lines [of 24] b1(1) by (simp del: upt_rec_numeral)
  ultimately show ?thesis using b2(1) by (simp add: terminal_delete_last_line_def del: upt_rec_numeral)
qed

section \<open>The console as a screen\<close>

text \<open>Position and cells of the screen, and the bytes that went out on the serial port.\<close>

type_synonym screen = "nat \<times> nat \<times> u16 list"

definition screen_of :: "tty \<Rightarrow> screen" where
  "screen_of t = (unat (terminal_x t), unat (terminal_y t), terminal_buffer t)"

definition serial_out :: "tty \<Rightarrow> u8 list" where
  "serial_out t = map snd (filter (\<lambda>(p, _). p = SERIAL_COM1_BASE) (writes (tty_io t)))"

definition term_ok :: "tty \<Rightarrow> bool" where
  "term_ok t \<longleftrightarrow> terminal_x t < VGA_WIDTH \<and> terminal_y t < VGA_HEIGHT \<and> length (terminal_buffer t) = 2000 \<and>
     (\<forall>n. dev (tty_io t) (SERIAL_COM1_BASE + 5) n AND 0x20 \<noteq> 0)"

text \<open>What writing a character to a screen means.\<close>

definition screen_cell :: "u8 \<Rightarrow> u8 \<Rightarrow> screen \<Rightarrow> screen" where
  "screen_cell color c = (\<lambda>(x, y, b).
     if c = 10 then (0, y + 1, b) else if c = 0 then (x, y, b) else (x + 1, y, b[y * 80 + x := vga_entry c color]))"

definition screen_wrap :: "screen \<Rightarrow> screen" where
  "screen_wrap = (\<lambda>(x, y, b). if x = 80 then (0, y + 1, b) else (x, y, b))"

definition screen_scroll :: "u8 \<Rightarrow> screen \<Rightarrow> screen" where
  "screen_scroll color = (\<lambda>(x, y, b). if y = 25 then (0, 24, scrolled color b) else (x, y, b))"

definition screen_put :: "u8 \<Rightarrow> u8 \<Rightarrow> screen \<Rightarrow> screen" where
  "screen_put color c s = screen_scroll color (screen_wrap (screen_cell color c s))"

lemma serial_write_ready:
  assumes "\<forall>n. dev s (com + 5) n AND 0x20 \<noteq> 0"
  shows "serial_write com c s = Inr (s\<lparr>reads := Suc (reads s), writes := writes s @ [(com, c)]\<rparr>)"
proof -
  have "transmit_wait com s = Some (s\<lparr>reads := Suc (reads s)\<rparr>)"
    using assms by (subst transmit_wait.simps) (simp add: is_serial_transmit_fifo_empty_def inb_def)
  then show ?thesis by (simp add: serial_write_def io_outb_def)
qed

section \<open>Single characters\<close>

lemma putentry_index: "x < VGA_WIDTH \<Longrightarrow> y < VGA_HEIGHT \<Longrightarrow> unat (y * VGA_WIDTH + x) = unat y * 80 + unat x \<and> unat y * 80 + unat x < 2000"
  by (simp add: word_less_nat_alt unat_word_ariths)

lemma finish_putchar:
  assumes "\<forall>n. dev (tty_io t) (SERIAL_COM1_BASE + 5) n AND 0x20 \<noteq> 0"
  obtains t' where "res_bind (serial_write SERIAL_COM1_BASE c (tty_io (terminal_movecursor t))) (\<lambda>io. Inr ((terminal_movecursor t)\<lparr>tty_io := io\<rparr>)) = Inr t'"
    "screen_of t' = screen_of t" "terminal_color t' = terminal_color t" "dev (tty_io t') = dev (tty_io t)" "serial_out t' = serial_out t @ [c]"
proof -
  have d: "dev (tty_io (terminal_movecursor t)) = dev (tty_io t)" by (simp add: terminal_movecursor_def io_outb_def Let_def)
  let ?io = "tty_io (terminal_movecursor t)"
  let ?t' = "(terminal_movecursor t)\<lparr>tty_io := ?io\<lparr>reads := Suc (reads ?io), writes := writes ?io @ [(SERIAL_COM1_BASE, c)]\<rparr>\<rparr>"
  have "serial_write SERIAL_COM1_BASE c ?io = Inr (?io\<lparr>reads := Suc (reads ?io), writes := writes ?io @ [(SERIAL_COM1_BASE, c)]\<rparr>)"
    using assms d by (intro serial_write_ready) simp
  moreover have "screen_of ?t' = screen_of t" "terminal_color ?t' = terminal_color t" "dev (tty_io ?t') = dev (tty_io t)" "serial_out ?t' = serial_out t @ [c]"
    by (simp_all add: screen_of_def serial_out_def terminal_movecursor_def io_outb_def Let_def)
  ultimately show thesis by (intro that [of ?t']) simp_all
qed

lemma putchar_refines:
  assumes "term_ok t"
  shows "\<exists>t'. terminal_putchar c t = Inr t' \<and> term_ok t' \<and> screen_of t' = screen_put (terminal_color t) c (screen_of t) \<and>
    terminal_color t' = terminal_color t \<and> serial_out t' = serial_out t @ [c]"
proof -
  let ?x = "unat (terminal_x t)" and ?y = "unat (terminal_y t)" and ?b = "terminal_buffer t" and ?col = "terminal_color t"
  have ok: "?x < 80" "?y < 25" "length ?b = 2000" "\<forall>n. dev (tty_io t) (SERIAL_COM1_BASE + 5) n AND 0x20 \<noteq> 0"
    using assms by (auto simp: term_ok_def word_less_nat_alt)
  have u: "unat (terminal_x t + 1) = ?x + 1" "unat (terminal_y t + 1) = ?y + 1" using ok(1,2) by (simp_all add: unat_word_ariths)
  have idx: "unat (terminal_y t * VGA_WIDTH + terminal_x t) = ?y * 80 + ?x" "?y * 80 + ?x < 2000"
    using putentry_index [of "terminal_x t" "terminal_y t"] assms by (simp_all add: term_ok_def)
  define t1 where "t1 = (if c = 10 then t\<lparr>terminal_x := 0, terminal_y := terminal_y t + 1\<rparr> else if c = 0 then t
    else t\<lparr>terminal_buffer := ?b[?y * 80 + ?x := vga_entry c ?col], terminal_x := terminal_x t + 1\<rparr>)"
  have p: "terminal_putentryat c ?col (terminal_x t) (terminal_y t) t = Inr (t\<lparr>terminal_buffer := ?b[?y * 80 + ?x := vga_entry c ?col]\<rparr>)"
    using idx ok(3) by (simp add: terminal_putentryat_def arr_set_def)
  have t1: "(if c = 10 then Inr (t\<lparr>terminal_x := 0, terminal_y := terminal_y t + 1\<rparr>) else if c = 0 then Inr t
      else res_bind (terminal_putentryat c ?col (terminal_x t) (terminal_y t) t) (\<lambda>t. Inr (t\<lparr>terminal_x := terminal_x t + 1\<rparr>))) = Inr t1"
    "screen_of t1 = screen_cell ?col c (screen_of t)" "terminal_color t1 = ?col" "tty_io t1 = tty_io t" "length (terminal_buffer t1) = 2000"
    "unat (terminal_x t1) \<le> 80" "unat (terminal_y t1) \<le> 25" "unat (terminal_x t1) = 80 \<Longrightarrow> unat (terminal_y t1) < 25"
    using ok(1-3) u by (simp_all add: t1_def p screen_of_def screen_cell_def split: if_splits)
  have eq: "terminal_x t1 = VGA_WIDTH \<longleftrightarrow> unat (terminal_x t1) = 80" by (simp add: word_unat_eq_iff)
  define t2 where "t2 = (if terminal_x t1 = VGA_WIDTH then t1\<lparr>terminal_x := 0, terminal_y := terminal_y t1 + 1\<rparr> else t1)"
  have t2: "screen_of t2 = screen_wrap (screen_of t1)" "terminal_color t2 = ?col" "tty_io t2 = tty_io t" "length (terminal_buffer t2) = 2000"
    "unat (terminal_x t2) < 80" "unat (terminal_y t2) \<le> 25"
    using t1(3-8) by (auto simp: t2_def eq screen_of_def screen_wrap_def unat_word_ariths)
  have eq: "terminal_y t2 = VGA_HEIGHT \<longleftrightarrow> unat (terminal_y t2) = 25" by (simp add: word_unat_eq_iff)
  define t3 where "t3 = (if terminal_y t2 = VGA_HEIGHT then t2\<lparr>terminal_buffer := scrolled ?col (terminal_buffer t2), terminal_x := 0, terminal_y := 24\<rparr> else t2)"
  have t3: "screen_of t3 = screen_scroll ?col (screen_of t2)" "terminal_color t3 = ?col" "tty_io t3 = tty_io t" "length (terminal_buffer t3) = 2000"
    "unat (terminal_x t3) < 80" "unat (terminal_y t3) < 25"
    using t2(2-6) by (auto simp: t3_def eq screen_of_def screen_scroll_def scrolled_def)
  have s3: "(if terminal_y t2 = VGA_HEIGHT then res_bind (scroll_lines [1..<25] t2) (\<lambda>t. res_bind (terminal_delete_last_line t) (\<lambda>t.
      Inr (t\<lparr>terminal_x := 0, terminal_y := VGA_HEIGHT - 1\<rparr>))) else Inr t2) = Inr t3"
    using scroll_screen [OF t2(4)] t2(2) by (simp add: t3_def res_bind_assoc [symmetric] del: upt_rec_numeral)
  obtain t' where t': "res_bind (serial_write SERIAL_COM1_BASE c (tty_io (terminal_movecursor t3))) (\<lambda>io. Inr ((terminal_movecursor t3)\<lparr>tty_io := io\<rparr>)) = Inr t'"
    "screen_of t' = screen_of t3" "terminal_color t' = terminal_color t3" "dev (tty_io t') = dev (tty_io t3)" "serial_out t' = serial_out t3 @ [c]"
    using finish_putchar [of t3 c] ok(4) t3(3) by auto
  have "terminal_putchar c t = Inr t'"
    unfolding terminal_putchar_def t1(1) res_bind_Inr Let_def t2_def [symmetric] s3 t'(1) ..
  moreover have "term_ok t'" using t'(2,4) t3(3-6) ok(4) by (auto simp: term_ok_def screen_of_def word_less_nat_alt)
  moreover have "serial_out t' = serial_out t @ [c]" using t'(5) t3(3) by (simp add: serial_out_def)
  ultimately show ?thesis using t'(2,3) t3(1,2) t2(1) t1(2) by (simp add: screen_put_def)
qed

lemma terminal_back_1:
  assumes "term_ok t" "terminal_x t \<noteq> 0 \<or> terminal_y t \<noteq> 0"
  shows "term_ok (terminal_back 1 t)" and "screen_of (terminal_back 1 t) =
    (if terminal_x t = 0 then (79, unat (terminal_y t) - 1, terminal_buffer t) else (unat (terminal_x t) - 1, unat (terminal_y t), terminal_buffer t))"
    and "terminal_color (terminal_back 1 t) = terminal_color t"
proof -
  have ok: "unat (terminal_x t) < 80" "unat (terminal_y t) < 25" using assms(1) by (auto simp: term_ok_def word_less_nat_alt)
  have "term_ok (terminal_back 1 t) \<and> screen_of (terminal_back 1 t) =
    (if terminal_x t = 0 then (79, unat (terminal_y t) - 1, terminal_buffer t) else (unat (terminal_x t) - 1, unat (terminal_y t), terminal_buffer t)) \<and>
    terminal_color (terminal_back 1 t) = terminal_color t"
  proof (cases "terminal_x t = 0")
    case True
    then have "unat (terminal_y t - 1) = unat (terminal_y t) - 1" using assms(2) by (simp add: unat_minus_one)
    moreover have "sint (- 1 :: u32) < 0" by simp
    ultimately show ?thesis using True assms(1) ok by (auto simp: terminal_back_def term_ok_def screen_of_def word_less_nat_alt)
  next
    case False
    then have u: "unat (terminal_x t - 1) = unat (terminal_x t) - 1" by (simp add: unat_minus_one)
    then have "sint (terminal_x t - 1) = int (unat (terminal_x t) - 1)" using ok(1) by (intro sint_small [THEN trans]) simp_all
    then show ?thesis using False u assms(1) ok by (auto simp: terminal_back_def term_ok_def screen_of_def word_less_nat_alt)
  qed
  then show "term_ok (terminal_back 1 t)" "screen_of (terminal_back 1 t) =
    (if terminal_x t = 0 then (79, unat (terminal_y t) - 1, terminal_buffer t) else (unat (terminal_x t) - 1, unat (terminal_y t), terminal_buffer t))"
    "terminal_color (terminal_back 1 t) = terminal_color t" by blast+
qed

section \<open>Properties\<close>

text \<open>
  C34: \<open>terminal_putchar\<close> is the write of a character to a screen of 25 lines of 80 cells. From every state with the cursor on the screen
  and a serial port that accepts data it returns, without an access outside of the screen, with the cursor on the screen again; the cells and
  the cursor are those of the abstract operation (put, wrap, scroll), the color is unchanged, and exactly the character went out on the serial port.
\<close>

theorem terminal_putchar_refines:
  assumes "term_ok t"
  shows "\<exists>t'. terminal_putchar c t = Inr t' \<and> term_ok t' \<and> screen_of t' = screen_put (terminal_color t) c (screen_of t) \<and>
    terminal_color t' = terminal_color t \<and> serial_out t' = serial_out t @ [c]"
  using assms by (rule putchar_refines)

text \<open>The screen after \<open>terminal_initialize\<close>, with a serial port that is always ready.\<close>

definition tty0 :: tty where
  "tty0 = terminal_initialize \<lparr>terminal_x = 0, terminal_y = 0, terminal_color = 0, terminal_buffer = [],
     tty_io = \<lparr>dev = (\<lambda>_ _. 0x20), reads = 0, writes = []\<rparr>\<rparr>"

lemma tty0_ok: "term_ok tty0" "screen_of tty0 = (0, 0, replicate 2000 (vga_entry 32 (terminal_color tty0)))" "serial_out tty0 = []"
  by (simp_all add: tty0_def terminal_initialize_def terminal_movecursor_def io_outb_def Let_def term_ok_def screen_of_def serial_out_def)

theorem terminal_putchar_refines_witness:
  "\<exists>t'. terminal_putchar 65 tty0 = Inr t' \<and> term_ok t' \<and> fst (screen_of t') = 1 \<and> serial_out t' = [65]"
  using terminal_putchar_refines [OF tty0_ok(1), of 65] tty0_ok(2,3)
  by (auto simp: screen_put_def screen_cell_def screen_wrap_def screen_scroll_def)

lemma backspace_at_origin:
  assumes "term_ok t" "terminal_x t = 0" "terminal_y t = 0"
  shows "terminal_backspace t = Inl OutOfBounds"
proof -
  have "sint (- 1 :: u32) < 0" by simp
  then have b: "terminal_back 1 t = t\<lparr>terminal_y := - 1, terminal_x := 79\<rparr>" using assms(2,3) by (simp add: terminal_back_def)
  have "(- 1 :: u32) * VGA_WIDTH + 79 = - 1" by simp
  then have "unat ((- 1 :: u32) * VGA_WIDTH + 79) = 2 ^ 32 - 1" by (simp only: unsigned_minus_1_eq_mask) (simp add: mask_eq_exp_minus_1)
  then have "terminal_putchar 32 (terminal_back 1 t) = Inl OutOfBounds"
    using assms(1) unfolding b by (simp add: terminal_putchar_def terminal_putentryat_def arr_set_def term_ok_def)
  then show ?thesis by (simp add: terminal_backspace_def)
qed

lemma position_before:
  fixes x y :: nat
  assumes "x < 80" "x = 0 \<Longrightarrow> 0 < y"
  shows "((y * 80 + x - 1) mod 80, (y * 80 + x - 1) div 80) = (if x = 0 then (79, y - 1) else (x - 1, y))"
proof (cases "x = 0")
  case True
  then have "y * 80 + x - 1 = 79 + (y - 1) * 80" using assms(2) by (cases y) auto
  then show ?thesis using True by simp
next
  case False
  then obtain k where "x = Suc k" by (cases x) auto
  then show ?thesis using assms(1) by simp
qed

text \<open>The blank of \<open>terminal_backspace\<close> is written to the cell before the cursor, which brings the cursor back.\<close>

lemma screen_put_before:
  assumes "x < 80" "y < 25" "x = 0 \<Longrightarrow> 0 < y"
  shows "screen_put col 32 (if x = 0 then (79, y - 1, b) else (x - 1, y, b)) = (x, y, b[y * 80 + x - 1 := vga_entry 32 col])"
proof (cases "x = 0")
  case True
  obtain k where "y = Suc k" using assms(3) [OF True] by (cases y) auto
  then show ?thesis using True assms by (simp add: screen_put_def screen_cell_def screen_wrap_def screen_scroll_def add.commute [of "k * 80" 79])
next
  case False
  then obtain k where "x = Suc k" by (cases x) auto
  then show ?thesis using assms by (simp add: screen_put_def screen_cell_def screen_wrap_def screen_scroll_def)
qed

lemma backspace_inside:
  assumes "term_ok t" "terminal_x t \<noteq> 0 \<or> terminal_y t \<noteq> 0"
  shows "\<exists>t'. terminal_backspace t = Inr t' \<and> term_ok t' \<and> terminal_color t' = terminal_color t \<and>
      screen_of t' = (let p = unat (terminal_y t) * 80 + unat (terminal_x t) - 1 in
        (p mod 80, p div 80, (terminal_buffer t)[p := vga_entry 32 (terminal_color t)]))"
proof -
  let ?x = "unat (terminal_x t)" and ?y = "unat (terminal_y t)"
  let ?p = "?y * 80 + ?x - 1"
  have ok: "?x < 80" "?y < 25" using assms by (auto simp: term_ok_def word_less_nat_alt)
  have nz: "?x = 0 \<Longrightarrow> 0 < ?y" using assms(2) by (auto simp: unat_eq_0 unat_gt_0)
  note b = terminal_back_1 [OF assms]
  obtain t1 where t1: "terminal_putchar 32 (terminal_back 1 t) = Inr t1" "term_ok t1"
    "screen_of t1 = screen_put (terminal_color t) 32 (screen_of (terminal_back 1 t))" "terminal_color t1 = terminal_color t"
    using putchar_refines [OF b(1), of 32] b(3) by auto
  have "screen_of t1 = (?x, ?y, (terminal_buffer t)[?p := vga_entry 32 (terminal_color t)])"
    using t1(3) screen_put_before [OF ok nz, of "terminal_color t" "terminal_buffer t"] b(2) by (simp add: unat_eq_0)
  then have xy: "unat (terminal_x t1) = ?x" "unat (terminal_y t1) = ?y" "terminal_buffer t1 = (terminal_buffer t)[?p := vga_entry 32 (terminal_color t)]"
    by (auto simp: screen_of_def)
  then have e: "terminal_x t1 = terminal_x t" "terminal_y t1 = terminal_y t" by (simp_all add: word_unat_eq_iff)
  let ?t2 = "terminal_back 1 t1"
  note b2 = terminal_back_1 [OF t1(2), unfolded e, OF assms(2)]
  have "screen_of ?t2 = (?p mod 80, ?p div 80, (terminal_buffer t)[?p := vga_entry 32 (terminal_color t)])"
    using b2(2) xy position_before [OF ok(1) nz] by (auto simp: unat_eq_0)
  moreover have "screen_of (terminal_movecursor ?t2) = screen_of ?t2" "term_ok (terminal_movecursor ?t2)" "terminal_color (terminal_movecursor ?t2) = terminal_color t"
    using b2(1,3) t1(4) by (auto simp: screen_of_def term_ok_def terminal_movecursor_def io_outb_def Let_def)
  ultimately show ?thesis using t1(1) by (simp add: terminal_backspace_def Let_def)
qed

text \<open>
  \<open>terminal_backspace\<close> erases the character before the cursor and moves the cursor there, also across the start of a line.
  At the first cell of the screen it leaves the screen: the row is decremented below 0 and the write goes out of bounds.
\<close>

theorem terminal_backspace_erases:
  assumes "term_ok t"
  shows "if terminal_x t = 0 \<and> terminal_y t = 0 then terminal_backspace t = Inl OutOfBounds
    else \<exists>t'. terminal_backspace t = Inr t' \<and> term_ok t' \<and> terminal_color t' = terminal_color t \<and>
      screen_of t' = (let p = unat (terminal_y t) * 80 + unat (terminal_x t) - 1 in
        (p mod 80, p div 80, (terminal_buffer t)[p := vga_entry 32 (terminal_color t)]))"
  using backspace_at_origin [OF assms] backspace_inside [OF assms] by (simp split: if_split)

theorem terminal_backspace_erases_witness:
  "terminal_backspace tty0 = Inl OutOfBounds \<and>
   (\<exists>t'. terminal_backspace (tty0\<lparr>terminal_y := 1\<rparr>) = Inr t' \<and> fst (screen_of t') = 79 \<and> fst (snd (screen_of t')) = 0)"
proof -
  have "terminal_x tty0 = 0" "terminal_y tty0 = 0" by (simp_all add: tty0_def terminal_initialize_def terminal_movecursor_def Let_def)
  moreover have "term_ok (tty0\<lparr>terminal_y := 1\<rparr>)" using tty0_ok(1) by (simp add: term_ok_def)
  ultimately show ?thesis using terminal_backspace_erases [OF tty0_ok(1)] terminal_backspace_erases [of "tty0\<lparr>terminal_y := 1\<rparr>"]
    by (auto simp: Let_def)
qed

section \<open>The terminal as a console\<close>

text \<open>\<open>putchar\<close> on the terminal fulfils the contract of theory \<open>Printf\<close>.\<close>

interpretation tty_console: console putchar term_ok serial_out
proof unfold_locales
  fix t c
  assume "term_ok t"
  then show "\<exists>t'. putchar c t = Inr t' \<and> term_ok t' \<and> serial_out t' = serial_out t @ [c]"
    using putchar_refines [of t c] by (auto simp: putchar_def)
qed

text \<open>
  C35: \<open>printf\<close> on the terminal prints the text of its format. From every state with the cursor on the screen and a ready serial port, for
  every format and arguments of the right kinds whose text is not longer than the largest \<open>int\<close>, the call returns the number of bytes and
  exactly the text went out; the state is again such a state, however often the screen scrolled.
\<close>

theorem printf_prints:
  assumes "term_ok t" and "fmt_spec fmt args = Some x" and "int (length x) \<le> INT_MAX"
  shows "\<exists>t'. printf putchar fmt args t = Inr (int (length x), t') \<and> term_ok t' \<and> serial_out t' = serial_out t @ x"
  using assms by (rule tty_console.printf_ok)

theorem printf_prints_witness:
  "\<exists>t'. printf putchar (text_bytes ''Uptime: %d sec'') [IntArg (- 42)] tty0 = Inr (15, t') \<and> term_ok t' \<and> serial_out t' = text_bytes ''Uptime: -42 sec''"
proof -
  have "fmt_spec (text_bytes ''Uptime: %d sec'') [IntArg (- 42)] = Some (text_bytes ''Uptime: -42 sec'')" by code_simp
  then show ?thesis using printf_prints [OF tty0_ok(1), of "text_bytes ''Uptime: %d sec''" "[IntArg (- 42)]"] tty0_ok(3) by auto
qed

end
