(* ===== verification/Avl_Print.thy ===== *)
theory Avl_Print
  imports Avl_Spec Tty_Spec
begin

text \<open>
  The debugging aid \<open>print_avl_tree\<close> of \<^verbatim>\<open>vm.c\<close>, which writes the tree of free blocks to the console, over the interface of
  \<open>putchar\<close>. The recursion of the C code runs on the pointers of the store and is cut off by fuel; enough of it is the depth of the tree.
\<close>

section \<open>The code\<close>

fun print_indent :: "'s putc \<Rightarrow> nat \<Rightarrow> 's \<Rightarrow> 's res" where
  "print_indent put 0 s = Inr s"
| "print_indent put (Suc i) s = res_bind (printf put (text_bytes ''    '') [] s) (\<lambda>(_, s). print_indent put i s)"

fun print_avl_tree :: "'s putc \<Rightarrow> nat \<Rightarrow> node_store \<Rightarrow> u32 \<Rightarrow> nat \<Rightarrow> 's \<Rightarrow> 's res" where
  "print_avl_tree put 0 m node k s = Inl OutOfFuel"
| "print_avl_tree put (Suc d) m node k s =
     (if node = 0 then Inr s
      else res_bind (deref m node) (\<lambda>n.
           res_bind (print_avl_tree put d m (avl_right n) (k + 1) s) (\<lambda>s.
           res_bind (print_indent put k s) (\<lambda>s.
           res_bind (printf put (text_bytes ''Addr: %x | Size: %u | Height: %d\<newline>'')
             [IntArg (avl_base n), IntArg (avl_size n), IntArg (word_of_int (avl_height n))] s) (\<lambda>(_, s).
           print_avl_tree put d m (avl_left n) (k + 1) s)))))"

section \<open>What it prints\<close>

text \<open>One line for a node at depth \<open>k\<close>, and the lines of a tree from the largest base down to the smallest.\<close>

definition node_text :: "u32 \<Rightarrow> u32 \<Rightarrow> int \<Rightarrow> u8 list" where
  "node_text b n h = text_bytes ''Addr: 0x'' @ int_text 16 False b @ text_bytes '' | Size: '' @ int_text 10 False n @
     text_bytes '' | Height: '' @ int_text 10 True (word_of_int h) @ [10]"

fun levels :: "nat \<Rightarrow> atree \<Rightarrow> (nat \<times> u32 \<times> u32 \<times> int) list" where
  "levels k Leaf = []"
| "levels k (Node l a b n h r) = levels (Suc k) l @ (k, b, n, h) # levels (Suc k) r"

definition level_line :: "nat \<times> u32 \<times> u32 \<times> int \<Rightarrow> u8 list" where
  "level_line = (\<lambda>(k, b, n, h). replicate (4 * k) 32 @ node_text b n h)"

lemma levels_blocks: "map (\<lambda>(k, b, n, h). (b, n)) (levels k t) = blocks t"
  by (induction t arbitrary: k) auto

lemma node_fmt:
  "fmt_spec (text_bytes ''Addr: %x | Size: %u | Height: %d\<newline>'') [IntArg b, IntArg n, IntArg (word_of_int h)] = Some (node_text b n h)"
  by (simp add: node_text_def is_directive_def)

lemma indent_fmt: "fmt_spec (text_bytes ''    '') [] = Some (replicate 4 32)"
  by code_simp

lemma level_lines_Cons: "concat (map level_line ((k, b, n, h) # ks)) = replicate (4 * k) 32 @ node_text b n h @ concat (map level_line ks)"
  by (simp add: level_line_def)

lemma length_node_text: "int (length (node_text b n h)) \<le> INT_MAX"
  using length_int_text(1) [of b] length_int_text(2) [of False n] length_int_text(2) [of True "word_of_int h"] by (simp add: node_text_def)

context console
begin

lemma print_indent_ok: "inv s \<Longrightarrow> \<exists>s'. print_indent put k s = Inr s' \<and> inv s' \<and> out s' = out s @ replicate (4 * k) 32"
proof (induction k arbitrary: s)
  case (Suc k)
  obtain c s1 where s1: "printf put (text_bytes ''    '') [] s = Inr (c, s1)" "inv s1" "out s1 = out s @ replicate 4 32"
    using printf_ok [OF Suc.prems indent_fmt] by auto
  moreover have "replicate 4 32 @ replicate (4 * k) 32 = replicate (4 * Suc k) (32 :: u8)" by (simp flip: replicate_add)
  ultimately show ?case using Suc.IH [OF s1(2)] by (auto simp del: list.map)
qed simp

lemma print_avl_tree_ok:
  "inv s \<Longrightarrow> tree_at m t \<Longrightarrow> depth t < d \<Longrightarrow>
   \<exists>s'. print_avl_tree put d m (ptr t) k s = Inr s' \<and> inv s' \<and> out s' = out s @ concat (map level_line (rev (levels k t)))"
proof (induction t arbitrary: k d s)
  case Leaf
  then show ?case by (cases d) auto
next
  case (Node l a b n h r)
  then obtain d' where d: "d = Suc d'" "depth l < d'" "depth r < d'" by (cases d) auto
  obtain s1 where s1: "print_avl_tree put d' m (ptr r) (k + 1) s = Inr s1" "inv s1"
    "out s1 = out s @ concat (map level_line (rev (levels (Suc k) r)))"
    using Node.IH(2) [OF Node.prems(1) _ d(3), of "k + 1"] Node.prems(2) by auto
  obtain s2 where s2: "print_indent put k s1 = Inr s2" "inv s2" "out s2 = out s1 @ replicate (4 * k) 32"
    using print_indent_ok [OF s1(2)] by blast
  obtain c s3 where s3: "printf put (text_bytes ''Addr: %x | Size: %u | Height: %d\<newline>'') [IntArg b, IntArg n, IntArg (word_of_int h)] s2 = Inr (c, s3)"
    "inv s3" "out s3 = out s2 @ node_text b n h" using printf_ok [OF s2(2) node_fmt length_node_text] by blast
  obtain s4 where "print_avl_tree put d' m (ptr l) (k + 1) s3 = Inr s4" "inv s4"
    "out s4 = out s3 @ concat (map level_line (rev (levels (Suc k) l)))"
    using Node.IH(1) [OF s3(2) _ d(2), of "k + 1"] Node.prems(2) by auto
  then show ?case using s1 s2 s3 Node.prems(2) d(1) by (simp add: level_lines_Cons del: list.map)
qed

end

text \<open>On the terminal a tree of the store is listed completely, one line for each block, from the largest base to the smallest.\<close>

theorem print_avl_tree_lines:
  assumes "term_ok s" "tree_at m t" "depth t < d"
  shows "\<exists>s' ks. print_avl_tree putchar d m (ptr t) 0 s = Inr s' \<and> term_ok s' \<and> length ks = length (blocks t) \<and>
    map (\<lambda>(k, b, n, h). (b, n)) ks = rev (blocks t) \<and> serial_out s' = serial_out s @ concat (map level_line ks)"
proof -
  let ?ks = "rev (levels 0 t)"
  have bl: "map (\<lambda>(k, b, n, h). (b, n)) ?ks = rev (blocks t)" by (simp add: levels_blocks flip: rev_map)
  then have "length ?ks = length (blocks t)" by (metis length_map length_rev)
  with bl tty_console.print_avl_tree_ok [OF assms, of 0] show ?thesis by blast
qed

end
