(* ===== verification/Kheap_Alloc.thy ===== *)
theory Kheap_Alloc
  imports Kheap_Spec
begin

text \<open>
  The interface of the kernel heap for its clients: the contract \<open>block_allocator\<close>, what it means for sequences of requests, and its
  interpretation by \<open>kmalloc\<close>. A client that needs several blocks takes from it that they do not overlap.
\<close>

section \<open>The contract of an allocator\<close>

text \<open>
  \<open>inv F s\<close>: the state \<open>s\<close> is in order and \<open>F\<close> is the set of its free bytes. A request of a size that \<open>small\<close> admits returns; if it does not return
  \<open>NULL\<close>, the block with its header of 8 bytes was free and is not free any more.
\<close>

definition block_at :: "u32 \<Rightarrow> u32 \<Rightarrow> nat set" where
  "block_at p sz = {unat p - 8..<unat p + unat sz}"

fun alloc_all :: "(u32 \<Rightarrow> 's \<Rightarrow> (u32 \<times> 's) res) \<Rightarrow> u32 list \<Rightarrow> 's \<Rightarrow> (u32 list \<times> 's) res" where
  "alloc_all alloc [] s = Inr ([], s)"
| "alloc_all alloc (sz # szs) s =
     res_bind (alloc sz s) (\<lambda>(p, s). res_bind (alloc_all alloc szs s) (\<lambda>(ps, s). Inr (p # ps, s)))"

locale block_allocator =
  fixes inv :: "nat set \<Rightarrow> 's \<Rightarrow> bool" and small :: "u32 \<Rightarrow> bool" and alloc :: "u32 \<Rightarrow> 's \<Rightarrow> (u32 \<times> 's) res"
  assumes alloc_law: "inv F s \<Longrightarrow> small sz \<Longrightarrow> \<exists>p s'. alloc sz s = Inr (p, s') \<and>
    (if p = 0 then s' = s else 8 \<le> unat p \<and> unat p + unat sz < 2 ^ 32 \<and> block_at p sz \<subseteq> F \<and> inv (F - block_at p sz) s')"
begin

lemma alloc_Inr:
  assumes "inv F s" "small sz" "alloc sz s = Inr (p, s')" "p \<noteq> 0"
  shows "8 \<le> unat p" "unat p + unat sz < 2 ^ 32" "block_at p sz \<subseteq> F" "inv (F - block_at p sz) s'"
  using alloc_law [OF assms(1,2)] assms(3,4) by auto

lemma alloc_all_law:
  assumes "inv F s" "\<forall>sz \<in> set szs. small sz"
  shows "\<exists>ps s' F'. alloc_all alloc szs s = Inr (ps, s') \<and> length ps = length szs \<and> F' \<subseteq> F \<and> inv F' s' \<and>
    (\<forall>i < length szs. ps ! i \<noteq> 0 \<longrightarrow> block_at (ps ! i) (szs ! i) \<subseteq> F - F') \<and>
    (\<forall>j < length szs. \<forall>i < j. ps ! i \<noteq> 0 \<longrightarrow> ps ! j \<noteq> 0 \<longrightarrow> block_at (ps ! i) (szs ! i) \<inter> block_at (ps ! j) (szs ! j) = {})"
  using assms
proof (induction szs arbitrary: F s)
  case (Cons sz szs)
  obtain p s1 where p: "alloc sz s = Inr (p, s1)"
    "if p = 0 then s1 = s else 8 \<le> unat p \<and> unat p + unat sz < 2 ^ 32 \<and> block_at p sz \<subseteq> F \<and> inv (F - block_at p sz) s1"
    using alloc_law [OF Cons.prems(1), of sz] Cons.prems(2) unfolding list.set by blast
  define G where "G = (if p = 0 then F else F - block_at p sz)"
  have G: "inv G s1" "G \<subseteq> F" "p \<noteq> 0 \<Longrightarrow> block_at p sz \<subseteq> F - G" using p(2) Cons.prems(1) by (auto simp: G_def split: if_splits)
  obtain ps s' F' where r: "alloc_all alloc szs s1 = Inr (ps, s')" "length ps = length szs" "F' \<subseteq> G" "inv F' s'"
    "\<forall>i < length szs. ps ! i \<noteq> 0 \<longrightarrow> block_at (ps ! i) (szs ! i) \<subseteq> G - F'"
    "\<forall>j < length szs. \<forall>i < j. ps ! i \<noteq> 0 \<longrightarrow> ps ! j \<noteq> 0 \<longrightarrow> block_at (ps ! i) (szs ! i) \<inter> block_at (ps ! j) (szs ! j) = {}"
    using Cons.IH [OF G(1)] Cons.prems(2) by auto
  have first: "block_at p sz \<inter> block_at (ps ! i) (szs ! i) = {}" if "p \<noteq> 0" "i < length szs" "ps ! i \<noteq> 0" for i
    using G(3) [OF that(1)] r(5) that(2,3) by blast
  have "\<forall>j < length (sz # szs). \<forall>i < j. (p # ps) ! i \<noteq> 0 \<longrightarrow> (p # ps) ! j \<noteq> 0 \<longrightarrow>
      block_at ((p # ps) ! i) ((sz # szs) ! i) \<inter> block_at ((p # ps) ! j) ((sz # szs) ! j) = {}"
    using first r(6) by (auto simp: nth_Cons split: nat.splits)
  moreover have "\<forall>i < length (sz # szs). (p # ps) ! i \<noteq> 0 \<longrightarrow> block_at ((p # ps) ! i) ((sz # szs) ! i) \<subseteq> F - F'"
    using G r(3,5) by (auto simp: nth_Cons split: nat.splits) blast+
  moreover have "alloc_all alloc (sz # szs) s = Inr (p # ps, s')" "length (p # ps) = length (sz # szs)" "F' \<subseteq> F"
    using p(1) r(1-3) G(2) by auto
  ultimately show ?case using r(4) by blast
qed auto

end

section \<open>The kernel heap as an allocator\<close>

definition heap_ok :: "nat \<Rightarrow> nat set \<Rightarrow> vm \<Rightarrow> bool" where
  "heap_ok d F s \<longleftrightarrow> (\<exists>t h. heap_inv (kheap s) KHEAP_START (KHEAP_START + KHEAP_INITIAL_SIZE) t s \<and> heaps s (kheap s) = Some h \<and>
     max_size h = KHEAP_MAX_SIZE \<and> length (addrs t) < d \<and> F = free_bytes (blocks t))"

lemma kmalloc_law:
  assumes "heap_ok d F s" "sz \<le> 0x3FEFEFF8"
  shows "\<exists>p s'. kmalloc (Suc d) sz s = Inr (p, s') \<and>
    (if p = 0 then s' = s else 8 \<le> unat p \<and> unat p + unat sz < 2 ^ 32 \<and> block_at p sz \<subseteq> F \<and> heap_ok d (F - block_at p sz) s')"
proof -
  obtain t h where t: "heap_inv (kheap s) KHEAP_START (KHEAP_START + KHEAP_INITIAL_SIZE) t s" "heaps s (kheap s) = Some h" "max_size h = KHEAP_MAX_SIZE"
    "length (addrs t) < d" "F = free_bytes (blocks t)" using assms(1) by (auto simp: heap_ok_def)
  show ?thesis
  proof (cases "fit_of (sz + sizeof_header) t")
    case None
    then show ?thesis using kmalloc_no_fit [OF t(1-3) None t(4)] assms(2) by auto
  next
    case (Some e)
    then obtain a b n where e: "fit_of (sz + sizeof_header) t = Some (a, b, n)" by (cases e) auto
    have sz: "unat sz \<le> 0x3FEFEFF8" using assms(2) by (simp add: word_le_nat_alt)
    then have u: "unat (sz + sizeof_header) = unat sz + 8" by (simp add: unat_word_ariths)
    obtain t' s' where r: "kmalloc (Suc d) sz s = Inr (b + sizeof_header, s')" "kheap s' = kheap s"
      "heap_inv (kheap s') KHEAP_START (KHEAP_START + KHEAP_INITIAL_SIZE) t' s'" "range_of b (sz + sizeof_header) \<subseteq> F"
      "free_bytes (blocks t') = F - range_of b (sz + sizeof_header)" "length (addrs t') \<le> length (addrs t)"
      "\<exists>h'. heaps s' (kheap s) = Some h' \<and> max_size h' = max_size h"
      using kmalloc_fits [OF t(1) e _ t(4)] sz t(2,5) by auto
    have "(b, n) \<in> set (blocks t)" "sz + sizeof_header \<le> n" using fit_of_entry [OF e] entry_block by blast+
    moreover have "blocks_ok (unat KHEAP_START) (unat (KHEAP_START + KHEAP_INITIAL_SIZE)) (blocks t)" using t(1) by (simp add: heap_inv_def)
    ultimately have b: "unat b + unat sz + 8 \<le> unat (KHEAP_START + KHEAP_INITIAL_SIZE)" using u by (auto simp: blocks_ok_def in_heap_def word_le_nat_alt)
    then have p: "unat (b + sizeof_header) = unat b + 8" by (simp add: unat_word_ariths)
    then have "block_at (b + sizeof_header) sz = range_of b (sz + sizeof_header)" using u by (simp add: block_at_def range_of_def ac_simps)
    moreover have "heap_ok d (F - range_of b (sz + sizeof_header)) s'" using r(2,3,5-7) t(3,4) unfolding heap_ok_def by fastforce
    moreover have "b + sizeof_header \<noteq> 0" using p by (auto simp: word_unat_eq_iff)
    ultimately show ?thesis using r(1,4) b p by auto
  qed
qed

interpretation kernel_heap: block_allocator "heap_ok d" "\<lambda>sz. sz \<le> 0x3FEFEFF8" "kmalloc (Suc d)" for d
  by unfold_locales (rule kmalloc_law)

text \<open>
  C8: the blocks of the kernel heap do not overlap. From a heap that satisfies its invariant, any sequence of requests for up to 0x3FEFEFF8 bytes
  each returns; those of the results that are not \<open>NULL\<close> are blocks, header included, of memory that was free at the beginning and is not free at the
  end, and any two of them are disjoint. The heap is in order afterwards. The bound is the best one: the next larger request makes the end of the heap wrap
  around, and the memory that is handed out then was never free.
\<close>

theorem kmalloc_blocks_disjoint:
  assumes "heap_ok d F s" "\<forall>sz \<in> set szs. sz \<le> 0x3FEFEFF8"
  shows "\<exists>ps s' F'. alloc_all (kmalloc (Suc d)) szs s = Inr (ps, s') \<and> length ps = length szs \<and> F' \<subseteq> F \<and> heap_ok d F' s' \<and>
    (\<forall>i < length szs. ps ! i \<noteq> 0 \<longrightarrow> block_at (ps ! i) (szs ! i) \<subseteq> F - F') \<and>
    (\<forall>j < length szs. \<forall>i < j. ps ! i \<noteq> 0 \<longrightarrow> ps ! j \<noteq> 0 \<longrightarrow> block_at (ps ! i) (szs ! i) \<inter> block_at (ps ! j) (szs ! j) = {})"
  using assms by (rule kernel_heap.alloc_all_law)

lemma kheap_s0_ok: "heap_ok 39 (free_bytes (blocks kheap_tree)) kheap_s0"
proof -
  have "length (addrs kheap_tree) < 39" by code_simp
  then show ?thesis using kheap_s0_inv unfolding heap_ok_def by (auto simp: kheap_s0_def)
qed

theorem kmalloc_blocks_disjoint_witness:
  "\<exists>s'. alloc_all (kmalloc 40) [100, 24, 4096] kheap_s0 = Inr ([0xC0000008, 0xC0000074, 0xC0000094], s') \<and>
     block_at 0xC0000008 100 \<inter> block_at 0xC0000094 4096 = {} \<and> block_at 0xC0000094 4096 \<subseteq> free_bytes (blocks kheap_tree)"
proof -
  let ?szs = "[100, 24, 4096 :: u32]" and ?F = "free_bytes (blocks kheap_tree)"
  have z: "\<forall>sz \<in> set ?szs. sz \<le> 0x3FEFEFF8" by simp
  have n: "Suc 39 = 40" by simp
  obtain ps s' F' where r: "alloc_all (kmalloc 40) ?szs kheap_s0 = Inr (ps, s')"
    "\<forall>i < length ?szs. ps ! i \<noteq> 0 \<longrightarrow> block_at (ps ! i) (?szs ! i) \<subseteq> ?F - F'"
    "\<forall>j < length ?szs. \<forall>i < j. ps ! i \<noteq> 0 \<longrightarrow> ps ! j \<noteq> 0 \<longrightarrow> block_at (ps ! i) (?szs ! i) \<inter> block_at (ps ! j) (?szs ! j) = {}"
    using kmalloc_blocks_disjoint [OF kheap_s0_ok z] unfolding n by blast
  have "case alloc_all (kmalloc 40) [100, 24, 4096] kheap_s0 of Inr (ps, _) \<Rightarrow> ps = [0xC0000008, 0xC0000074, 0xC0000094] | Inl _ \<Rightarrow> False"
    by code_simp
  then have ps: "ps = [0xC0000008, 0xC0000074, 0xC0000094]" using r(1) by simp
  have "block_at 0xC0000008 100 \<inter> block_at 0xC0000094 4096 = {}" using r(3) [rule_format, of 2 0] ps by simp
  moreover have "block_at 0xC0000094 4096 \<subseteq> ?F" using r(2) [rule_format, of 2] ps by auto
  ultimately show ?thesis using r(1) ps by blast
qed

end
