(* ===== verification/Fs.thy ===== *)
theory Fs
  imports Kheap Memory Printf
begin

text \<open>
  The file system layer (\<^verbatim>\<open>fs.c\<close>, \<^verbatim>\<open>fs.h\<close>) and the initial RAM disk (\<^verbatim>\<open>initrd.c\<close>, \<^verbatim>\<open>initrd.h\<close>). The RAM disk
  is the memory at the address that the boot loader passes; its headers are read and changed in memory, at the offsets of their fields.
  File nodes are objects in a store; a name is the bytes before the terminating zero of the array \<^verbatim>\<open>name[128]\<close>; the callbacks are the
  constructors of \<open>fs_fn\<close>. \<open>fs_mem\<close> is the memory that holds the RAM disk and the buffers of the callers.
\<close>

section \<open>State\<close>

datatype fs_fn = Initrd_read | Initrd_readdir | Initrd_finddir

record fs_node =
  fname :: "u8 list"
  mask :: u32
  uid :: u8
  gid :: u8
  flags :: u8
  inode :: u32
  parent_inode :: u32
  flength :: u32
  read_cb :: "fs_fn option"
  write_cb :: "fs_fn option"
  open_cb :: "fs_fn option"
  close_cb :: "fs_fn option"
  readdir_cb :: "fs_fn option"
  finddir_cb :: "fs_fn option"
  fptr :: u32

record dirent =
  d_name :: "u8 list"
  d_inode :: u32

record fs =
  fs_vm :: vm
  fs_mem :: mem
  fs_nodes :: "u32 \<Rightarrow> fs_node option"
  file_headers :: u32
  initrd_root :: u32
  initrd_dev :: u32
  root_nodes :: u32
  nnodes :: u32
  version_node :: u32
  fs_root :: u32
  dirent_buf :: dirent

abbreviation FS_FILE :: u8 where "FS_FILE \<equiv> 0x01"
abbreviation FS_DIRECTORY :: u8 where "FS_DIRECTORY \<equiv> 0x02"
abbreviation AFILE :: u8 where "AFILE \<equiv> 0x01"
abbreviation DIRECTORY :: u8 where "DIRECTORY \<equiv> 0x02"
abbreviation INITRD_MAGIC :: u16 where "INITRD_MAGIC \<equiv> 0xDEAD"
abbreviation sizeof_fs_node :: u32 where "sizeof_fs_node \<equiv> 176"
abbreviation sizeof_initrd_header :: u32 where "sizeof_initrd_header \<equiv> 4"
abbreviation sizeof_file_header :: u32 where "sizeof_file_header \<equiv> 88"

section \<open>Headers in memory\<close>

text \<open>\<open>initrd_file_header_t\<close> with the alignment of the target: the fields lie at 0, 2, 68, 72, 76, 80 and 84 of 88 bytes.\<close>

definition load16 :: "mem \<Rightarrow> u32 \<Rightarrow> u16" where
  "load16 m a = ucast (m a) OR push_bit 8 (ucast (m (a + 1)))"

record file_header =
  h_magic :: u16
  h_offset :: u32
  h_length :: u32
  h_parent :: u32
  h_number :: u32
  h_type :: u8

definition load_header :: "mem \<Rightarrow> u32 \<Rightarrow> file_header" where
  "load_header m a = \<lparr>h_magic = load16 m a, h_offset = load32 m (a + 68), h_length = load32 m (a + 72),
     h_parent = load32 m (a + 76), h_number = load32 m (a + 80), h_type = m (a + 84)\<rparr>"

text \<open>\<open>strcpy\<close> into an array of \<open>n\<close> bytes: a string that does not fit with its zero byte overruns the array.\<close>

fun read_name :: "nat \<Rightarrow> mem \<Rightarrow> u32 \<Rightarrow> u8 list res" where
  "read_name 0 m p = Inl OutOfBounds"
| "read_name (Suc n) m p = (if m p = 0 then Inr [] else res_bind (read_name n m (p + 1)) (\<lambda>xs. Inr (m p # xs)))"

section \<open>Callbacks\<close>

definition initrd_read :: "u32 \<Rightarrow> u32 \<Rightarrow> u32 \<Rightarrow> u32 \<Rightarrow> fs \<Rightarrow> (u32 \<times> fs) res" where
  "initrd_read node offset sz buffer s =
     res_bind (deref (fs_nodes s) node) (\<lambda>nd.
     let header = load_header (fs_mem s) (file_headers s + sizeof_file_header * inode nd) in
     if offset > h_length header then Inr (0, s)
     else
       let sz = (if offset + sz > h_length header then h_length header - offset else sz)
       in Inr (sz, s\<lparr>fs_mem := memcpy buffer (h_offset header + offset) sz (fs_mem s)\<rparr>))"

text \<open>The result tells whether the pointer to the static \<open>dirent\<close> is returned or \<open>NULL\<close>.\<close>

definition initrd_readdir :: "u32 \<Rightarrow> u32 \<Rightarrow> fs \<Rightarrow> (bool \<times> fs) res" where
  "initrd_readdir node index s =
     (if node = initrd_root s \<and> index = 0 then Inr (True, s\<lparr>dirent_buf := \<lparr>d_name = text_bytes ''dev'', d_inode = 0\<rparr>\<rparr>)
      else
        let index = (if node = initrd_root s then index - 1 else index) in
        if index \<ge> nnodes s then Inr (False, s)
        else
          res_bind (deref (fs_nodes s) (root_nodes s + sizeof_fs_node * index)) (\<lambda>nd.
          Inr (True, s\<lparr>dirent_buf := \<lparr>d_name = fname nd, d_inode = inode nd\<rparr>\<rparr>)))"

fun find_node :: "nat list \<Rightarrow> u8 list \<Rightarrow> fs \<Rightarrow> u32 res" where
  "find_node [] nm s = Inr 0"
| "find_node (i # is) nm s =
     (let p = root_nodes s + sizeof_fs_node * of_nat i in
      res_bind (deref (fs_nodes s) p) (\<lambda>nd. if nm = fname nd then Inr p else find_node is nm s))"

definition initrd_finddir :: "u32 \<Rightarrow> u8 list \<Rightarrow> fs \<Rightarrow> u32 res" where
  "initrd_finddir node nm s =
     (if node = initrd_root s \<and> nm = text_bytes ''dev'' then Inr (initrd_dev s)
      else find_node [0..<unat (nnodes s)] nm s)"

section \<open>Initialisation\<close>

text \<open>\<open>junk\<close> is what the fresh memory of a node holds: the fields that the code does not assign keep it.\<close>

definition dir_node :: "fs_node \<Rightarrow> u8 list \<Rightarrow> fs_node" where
  "dir_node junk nm = junk\<lparr>fname := nm, mask := 0, uid := 0, gid := 0, inode := 0, flength := 0, flags := FS_DIRECTORY, read_cb := None,
     write_cb := None, open_cb := None, close_cb := None, readdir_cb := Some Initrd_readdir, finddir_cb := Some Initrd_finddir, fptr := 0\<rparr>"

definition file_node :: "fs_node \<Rightarrow> u8 list \<Rightarrow> file_header \<Rightarrow> fs_node" where
  "file_node junk nm h = junk\<lparr>fname := nm, mask := 0, uid := 0, gid := 0, flength := h_length h, inode := h_number h,
     parent_inode := h_parent h, read_cb := Some Initrd_read, write_cb := None, readdir_cb := None, finddir_cb := None, open_cb := None,
     close_cb := None, fptr := 0, flags := (if h_type h = AFILE then FS_FILE else if h_type h = DIRECTORY then FS_DIRECTORY else flags junk)\<rparr>"

definition init_node :: "fs_node \<Rightarrow> u32 \<Rightarrow> nat \<Rightarrow> fs \<Rightarrow> fs res" where
  "init_node junk multiboot_addr i s =
     (let a = file_headers s + sizeof_file_header * of_nat i; p = root_nodes s + sizeof_fs_node * of_nat i in
      if h_magic (load_header (fs_mem s) a) \<noteq> INITRD_MAGIC then Inr s
      else
        let s = s\<lparr>fs_mem := store32 (a + 68) (load32 (fs_mem s) (a + 68) + multiboot_addr) (fs_mem s)\<rparr> in
        if root_nodes s = 0 then Inl NullDeref
        else
          res_bind (read_name 128 (fs_mem s) (a + 2)) (\<lambda>nm.
          let s = (if nm = text_bytes ''version.txt'' then s\<lparr>version_node := p\<rparr> else s) in
          Inr (s\<lparr>fs_nodes := (fs_nodes s)(p \<mapsto> file_node junk nm (load_header (fs_mem s) a))\<rparr>)))"

fun init_nodes :: "fs_node \<Rightarrow> u32 \<Rightarrow> nat list \<Rightarrow> fs \<Rightarrow> fs res" where
  "init_nodes junk multiboot_addr [] s = Inr s"
| "init_nodes junk multiboot_addr (i # is) s = res_bind (init_node junk multiboot_addr i s) (init_nodes junk multiboot_addr is)"

definition initrd_initialize :: "nat \<Rightarrow> fs_node \<Rightarrow> u32 \<Rightarrow> fs \<Rightarrow> (u32 \<times> fs) res" where
  "initrd_initialize d junk multiboot_addr s =
     res_bind (kmalloc d sizeof_fs_node (fs_vm s)) (\<lambda>(root, v).
     if root = 0 then Inl NullDeref
     else
       res_bind (kmalloc d sizeof_fs_node v) (\<lambda>(dev, v).
       if dev = 0 then Inl NullDeref
       else
         let nfiles = load32 (fs_mem s) multiboot_addr in
         res_bind (kmalloc d (sizeof_fs_node * nfiles) v) (\<lambda>(nodes, v).
         let s = s\<lparr>fs_vm := v, file_headers := multiboot_addr + sizeof_initrd_header, initrd_root := root, initrd_dev := dev,
                   root_nodes := nodes, nnodes := nfiles,
                   fs_nodes := (fs_nodes s)(root \<mapsto> dir_node junk (text_bytes ''root''), dev \<mapsto> dir_node junk (text_bytes ''dev''))\<rparr>
         in res_bind (init_nodes junk multiboot_addr [0..<unat nfiles] s) (\<lambda>s. Inr (root, s)))))"

section \<open>The layer above\<close>

definition read_fs :: "u32 \<Rightarrow> u32 \<Rightarrow> u32 \<Rightarrow> u32 \<Rightarrow> fs \<Rightarrow> (u32 \<times> fs) res" where
  "read_fs node offset sz buffer s =
     res_bind (deref (fs_nodes s) node) (\<lambda>nd.
     case read_cb nd of
       Some Initrd_read \<Rightarrow> initrd_read node offset sz buffer s
     | Some _ \<Rightarrow> Inl BadPointer
     | None \<Rightarrow> Inr (0, s))"

text \<open>No node of this system has a \<open>write\<close>, \<open>open\<close> or \<open>close\<close> callback; calling anything else through such a pointer is an error.\<close>

definition write_fs :: "u32 \<Rightarrow> u32 \<Rightarrow> u32 \<Rightarrow> u32 \<Rightarrow> fs \<Rightarrow> (u32 \<times> fs) res" where
  "write_fs node offset sz buffer s =
     res_bind (deref (fs_nodes s) node) (\<lambda>nd. if write_cb nd \<noteq> None then Inl BadPointer else Inr (0, s))"

definition open_fs :: "u32 \<Rightarrow> u8 \<Rightarrow> u8 \<Rightarrow> fs \<Rightarrow> fs res" where
  "open_fs node rd wr s = res_bind (deref (fs_nodes s) node) (\<lambda>nd. if open_cb nd \<noteq> None then Inl BadPointer else Inr s)"

definition close_fs :: "u32 \<Rightarrow> fs \<Rightarrow> fs res" where
  "close_fs node s = res_bind (deref (fs_nodes s) node) (\<lambda>nd. if close_cb nd \<noteq> None then Inl BadPointer else Inr s)"

definition readdir_fs :: "u32 \<Rightarrow> u32 \<Rightarrow> fs \<Rightarrow> (bool \<times> fs) res" where
  "readdir_fs node index s =
     res_bind (deref (fs_nodes s) node) (\<lambda>nd.
     if flags nd = FS_DIRECTORY \<and> readdir_cb nd \<noteq> None then
       (if readdir_cb nd = Some Initrd_readdir then initrd_readdir node index s else Inl BadPointer)
     else Inr (False, s))"

definition finddir_fs :: "u32 \<Rightarrow> u8 list \<Rightarrow> fs \<Rightarrow> u32 res" where
  "finddir_fs node nm s =
     res_bind (deref (fs_nodes s) node) (\<lambda>nd.
     if flags nd = FS_DIRECTORY \<and> finddir_cb nd \<noteq> None then
       (if finddir_cb nd = Some Initrd_finddir then initrd_finddir node nm s else Inl BadPointer)
     else Inr 0)"

text \<open>\<open>list_fs\<close>: \<open>buf\<close> is the address of its buffer on the stack, \<open>n\<close> bounds the rounds by the number of entries.\<close>

fun list_from :: "nat \<Rightarrow> 'c putc \<Rightarrow> u32 \<Rightarrow> u32 \<Rightarrow> fs \<times> 'c \<Rightarrow> (fs \<times> 'c) res" where
  "list_from 0 put buf i sc = Inl OutOfFuel"
| "list_from (Suc n) put buf i (s, c) =
     res_bind (readdir_fs (fs_root s) i s) (\<lambda>(found, s).
     if \<not> found then Inr (s, c)
     else
       res_bind (finddir_fs (fs_root s) (d_name (dirent_buf s)) s) (\<lambda>fsnode.
       res_bind (deref (fs_nodes s) fsnode) (\<lambda>nd.
       if flags nd = FS_DIRECTORY then list_from n put buf (i + 1) (s, c)
       else
         let s = s\<lparr>fs_mem := memset buf 88 256 (fs_mem s)\<rparr> in
         res_bind (read_fs fsnode 0 256 buf s) (\<lambda>(sz, s).
         res_bind (print put (map (\<lambda>j. fs_mem s (buf + of_nat j)) [0..<unat sz]) c) (\<lambda>c.
         list_from n put buf (i + 1) (s, c))))))"

definition list_fs :: "'c putc \<Rightarrow> u32 \<Rightarrow> fs \<times> 'c \<Rightarrow> (fs \<times> 'c) res" where
  "list_fs put buf = (\<lambda>(s, c). list_from (unat (nnodes s) + 2) put buf 0 (s, c))"

end
