(* ===== verification/Initrd_Builder.thy ===== *)
theory Initrd_Builder
  imports Fs
begin

text \<open>
  The tool that writes the RAM disk image (\<^verbatim>\<open>initrd_builder.c\<close>). It runs on the build machine: \<open>nftw\<close> is the list of the
  entries it visits, in the order of its calls, each with the bytes that follow its path in memory; a file holds its contents, or none if
  it cannot be opened. The image is the list of the bytes of the output file, \<open>fpos\<close> the position in it.
\<close>

datatype entry_kind = FTW_D | FTW_F "u8 list option" | FTW_Other

record ftw_entry =
  e_path :: "u8 list"
  e_beyond :: "u8 list"
  e_level :: int
  e_kind :: entry_kind

record image_header =
  i_magic :: u16
  i_name :: "u8 list"
  i_offset :: u32
  i_length :: u32
  i_parent :: u32
  i_number :: u32
  i_type :: u8

record builder =
  files :: "image_header list"
  file_count :: nat
  current_offset :: u32
  img :: "u8 list"
  fpos :: nat

abbreviation INITRD_MAX_FILES :: nat where "INITRD_MAX_FILES \<equiv> 128"

definition zero_header :: image_header where
  "zero_header = \<lparr>i_magic = 0, i_name = replicate 64 0, i_offset = 0, i_length = 0, i_parent = 0, i_number = 0, i_type = 0\<rparr>"

text \<open>\<open>fwrite\<close> at a position of the file; the gap behind the old end is filled with zeros.\<close>

definition write_at :: "nat \<Rightarrow> u8 list \<Rightarrow> u8 list \<Rightarrow> u8 list" where
  "write_at pos bs f = (if bs = [] then f else take pos f @ replicate (pos - length f) 0 @ bs @ drop (pos + length bs) f)"

text \<open>\<^verbatim>\<open>strncpy(f->name, path + 7, 63)\<close>: up to 63 bytes before a zero, filled up with zeros; byte 63 of the array stays zero.\<close>

definition strncpy_63 :: "u8 list \<Rightarrow> u8 list res" where
  "strncpy_63 src =
     (let nm = takeWhile (\<lambda>c. c \<noteq> 0) (take 63 src) in
      if length nm < 63 \<and> length nm = length src then Inl OutOfBounds
      else Inr (nm @ replicate (64 - length nm) 0))"

text \<open>The loop that looks for the last directory; an entry directly under the root keeps the parent 0 of the static array.\<close>

fun parent_of :: "image_header list \<Rightarrow> int \<Rightarrow> u32 \<Rightarrow> u32" where
  "parent_of [] level old = old"
| "parent_of (h # hs) level old = (if i_type h = DIRECTORY \<and> level > 1 then i_number h else parent_of hs level old)"

text \<open>The first component of the result is the return value of the callback: not 0 stops the traversal.\<close>

definition process_entry :: "ftw_entry \<Rightarrow> builder \<Rightarrow> (bool \<times> builder) res" where
  "process_entry e b =
     (if file_count b > INITRD_MAX_FILES then Inr (True, b)
      else
        res_bind (arr_get (files b) (file_count b)) (\<lambda>f.
        let f = f\<lparr>i_magic := INITRD_MAGIC, i_number := of_nat (file_count b),
                  i_parent := (if e_level e = 0 then 0 else parent_of (rev (take (file_count b) (files b))) (e_level e) (i_parent f))\<rparr> in
        res_bind (strncpy_63 (drop 7 (e_path e @ [0] @ e_beyond e))) (\<lambda>nm.
        let f = f\<lparr>i_name := nm\<rparr> in
        case e_kind e of
          FTW_D \<Rightarrow>
            let f = f\<lparr>i_type := DIRECTORY, i_offset := 0, i_length := 0\<rparr> in
            Inr (False, b\<lparr>files := (files b)[file_count b := f], file_count := Suc (file_count b)\<rparr>)
        | FTW_F None \<Rightarrow> Inr (True, b\<lparr>files := (files b)[file_count b := f\<lparr>i_type := AFILE\<rparr>]\<rparr>)
        | FTW_F (Some bs) \<Rightarrow>
            let f = f\<lparr>i_type := AFILE, i_length := of_nat (length bs), i_offset := current_offset b\<rparr> in
            Inr (False, b\<lparr>files := (files b)[file_count b := f], file_count := Suc (file_count b),
                          current_offset := current_offset b + of_nat (length bs), img := write_at (fpos b) bs (img b), fpos := fpos b + length bs\<rparr>)
        | FTW_Other \<Rightarrow> Inr (False, b\<lparr>files := (files b)[file_count b := f], file_count := Suc (file_count b)\<rparr>))))"

fun nftw :: "ftw_entry list \<Rightarrow> builder \<Rightarrow> builder res" where
  "nftw [] b = Inr b"
| "nftw (e # es) b = res_bind (process_entry e b) (\<lambda>(stop, b). if stop then Inr b else nftw es b)"

definition le_bytes :: "nat \<Rightarrow> u32 \<Rightarrow> u8 list" where
  "le_bytes n v = map (\<lambda>i. ucast (drop_bit (8 * i) v)) [0..<n]"

text \<open>The bytes of a header in memory, with its padding.\<close>

definition header_bytes :: "image_header \<Rightarrow> u8 list" where
  "header_bytes h = le_bytes 2 (ucast (i_magic h)) @ i_name h @ [0, 0] @ le_bytes 4 (i_offset h) @ le_bytes 4 (i_length h) @
     le_bytes 4 (i_parent h) @ le_bytes 4 (i_number h) @ [i_type h, 0, 0, 0]"

abbreviation data_start :: nat where "data_start \<equiv> 4 + 88 * INITRD_MAX_FILES"

text \<open>\<open>main\<close>, from the position behind the headers to the closed image.\<close>

definition builder_main :: "ftw_entry list \<Rightarrow> u8 list res" where
  "builder_main es =
     res_bind (nftw es \<lparr>files = replicate INITRD_MAX_FILES zero_header, file_count = 0, current_offset = of_nat data_start,
                        img = [], fpos = data_start\<rparr>) (\<lambda>b.
     Inr (write_at 4 (concat (map header_bytes (take (file_count b) (files b)))) (write_at 0 (le_bytes 4 (of_nat (file_count b))) (img b))))"

end
