(* ===== verification/Initrd_Spec.thy ===== *)
theory Initrd_Spec
  imports Kheap_Alloc Initrd_Builder
begin

text \<open>
  The RAM disk from end to end: the image that the builder writes (\<open>built\<close> and \<open>image_of\<close>), the same bytes in the memory of the kernel
  (\<open>loaded\<close> and \<open>disk\<close>), the nodes that \<open>initrd_initialize\<close> makes of it (\<open>nodes_made\<close>), and the lookups and
  reads on them. The last section has the inputs on which the builder and \<open>initrd_read\<close> leave their memory.
\<close>

section \<open>Entries\<close>

definition entry_name :: "ftw_entry \<Rightarrow> u8 list" where
  "entry_name e = takeWhile (\<lambda>c. c \<noteq> 0) (take 63 (drop 7 (e_path e @ [0] @ e_beyond e)))"

definition entry_data :: "ftw_entry \<Rightarrow> u8 list" where
  "entry_data e = (case e_kind e of FTW_F (Some bs) \<Rightarrow> bs | _ \<Rightarrow> [])"

text \<open>A directory or a file that can be read, with a name that ends within the bytes known to follow the path.\<close>

definition good_entry :: "ftw_entry \<Rightarrow> bool" where
  "good_entry e \<longleftrightarrow> (e_kind e = FTW_D \<or> (\<exists>bs. e_kind e = FTW_F (Some bs))) \<and>
     (length (entry_name e) = 63 \<or> length (entry_name e) < length (drop 7 (e_path e @ [0] @ e_beyond e)))"

abbreviation data_of :: "ftw_entry list \<Rightarrow> u8 list" where
  "data_of es \<equiv> concat (map entry_data es)"

lemma entry_name_props: "length (entry_name e) \<le> 63" "0 \<notin> set (entry_name e)"
proof -
  show "length (entry_name e) \<le> 63" unfolding entry_name_def
    by (rule order_trans [OF length_takeWhile_le]) simp
  show "0 \<notin> set (entry_name e)" unfolding entry_name_def by (auto dest: set_takeWhileD)
qed

lemma strncpy_63_Inr:
  assumes "nm = takeWhile (\<lambda>c. c \<noteq> 0) (take 63 src)" "length nm = 63 \<or> length nm < length src"
  shows "strncpy_63 src = Inr (nm @ replicate (64 - length nm) 0)"
  unfolding strncpy_63_def Let_def assms(1) [symmetric] using assms(2) by auto

lemma strncpy_good: "good_entry e \<Longrightarrow> strncpy_63 (drop 7 (e_path e @ [0] @ e_beyond e)) = Inr (entry_name e @ replicate (64 - length (entry_name e)) 0)"
  by (rule strncpy_63_Inr) (simp_all only: good_entry_def entry_name_def)

section \<open>The image\<close>

text \<open>The header of entry \<open>k\<close>, up to the parent number.\<close>

definition is_file :: "ftw_entry \<Rightarrow> bool" where
  "is_file e \<longleftrightarrow> e_kind e \<noteq> FTW_D"

definition header_ok :: "ftw_entry list \<Rightarrow> nat \<Rightarrow> image_header \<Rightarrow> bool" where
  "header_ok es k h \<longleftrightarrow> i_magic h = INITRD_MAGIC \<and> i_number h = of_nat k \<and>
     i_name h = entry_name (es ! k) @ replicate (64 - length (entry_name (es ! k))) 0 \<and>
     i_type h = (if is_file (es ! k) then AFILE else DIRECTORY) \<and> i_length h = of_nat (length (entry_data (es ! k))) \<and>
     i_offset h = (if is_file (es ! k) then of_nat (data_start + length (data_of (take k es))) else 0)"

definition built :: "ftw_entry list \<Rightarrow> builder \<Rightarrow> bool" where
  "built es b \<longleftrightarrow> file_count b = length es \<and> length (files b) = 128 \<and> (\<forall>k < length es. header_ok es k (files b ! k)) \<and>
     current_offset b = of_nat (data_start + length (data_of es)) \<and> fpos b = data_start + length (data_of es) \<and>
     img b = (if data_of es = [] then [] else replicate data_start 0 @ data_of es)"

lemma header_ok_append: "k < length es \<Longrightarrow> header_ok (es @ es') k h = header_ok es k h"
  by (simp add: header_ok_def nth_append)

lemma process_entry_step:
  assumes "built es b" "length es < 128" "good_entry e"
  obtains f b' where "process_entry e b = Inr (False, b')" "header_ok (es @ [e]) (length es) f" "files b' = (files b)[length es := f]"
    "file_count b' = Suc (length es)" "current_offset b' = current_offset b + of_nat (length (entry_data e))"
    "fpos b' = fpos b + length (entry_data e)" "img b' = write_at (fpos b) (entry_data e) (img b)"
proof -
  have i: "file_count b = length es" "length (files b) = 128" "current_offset b = of_nat (data_start + length (data_of es))"
    using assms(1) by (simp_all add: built_def)
  let ?f = "(files b ! length es)\<lparr>i_magic := INITRD_MAGIC, i_number := of_nat (length es),
    i_parent := (if e_level e = 0 then 0 else parent_of (rev (take (length es) (files b))) (e_level e) (i_parent (files b ! length es))),
    i_name := entry_name e @ replicate (64 - length (entry_name e)) 0\<rparr>"
  note p = process_entry_def arr_get_def Let_def header_ok_def is_file_def entry_data_def
  consider "e_kind e = FTW_D" | bs where "e_kind e = FTW_F (Some bs)" using assms(3) by (auto simp: good_entry_def)
  then show thesis
  proof cases
    case 1
    let ?g = "?f\<lparr>i_type := DIRECTORY, i_offset := 0, i_length := 0\<rparr>"
    show thesis
      by (rule that [of "b\<lparr>files := (files b)[length es := ?g], file_count := Suc (length es)\<rparr>" ?g])
        (use i 1 assms(2) strncpy_good [OF assms(3)] in \<open>simp_all add: p write_at_def\<close>)
  next
    case 2
    let ?g = "?f\<lparr>i_type := AFILE, i_length := of_nat (length bs), i_offset := current_offset b\<rparr>"
    show thesis
      by (rule that [of "b\<lparr>files := (files b)[length es := ?g], file_count := Suc (length es), current_offset := current_offset b + of_nat (length bs),
          img := write_at (fpos b) bs (img b), fpos := fpos b + length bs\<rparr>" ?g])
        (use i 2 assms(2) strncpy_good [OF assms(3)] in \<open>simp_all add: p\<close>)
  qed
qed

lemma process_entry_built:
  assumes "built es b" "length es < 128" "good_entry e"
  shows "\<exists>b'. process_entry e b = Inr (False, b') \<and> built (es @ [e]) b'"
proof -
  have i: "length (files b) = 128" "\<And>k. k < length es \<Longrightarrow> header_ok es k (files b ! k)" "current_offset b = of_nat (data_start + length (data_of es))"
    "fpos b = data_start + length (data_of es)" "img b = (if data_of es = [] then [] else replicate data_start 0 @ data_of es)"
    using assms(1) by (simp_all add: built_def)
  obtain f b' where b': "process_entry e b = Inr (False, b')" "header_ok (es @ [e]) (length es) f" "files b' = (files b)[length es := f]"
    "file_count b' = Suc (length es)" "current_offset b' = current_offset b + of_nat (length (entry_data e))"
    "fpos b' = fpos b + length (entry_data e)" "img b' = write_at (fpos b) (entry_data e) (img b)"
    by (rule process_entry_step [OF assms])
  have "header_ok (es @ [e]) k (files b' ! k)" if "k < Suc (length es)" for k
    using i(1,2) b'(2,3) assms(2) that header_ok_append [of k es "[e]"] by (cases "k = length es") auto
  moreover have "img b' = (if data_of es @ entry_data e = [] then [] else replicate data_start 0 @ data_of es @ entry_data e)"
    unfolding b'(7) i(4,5) by (cases "data_of es = []") (auto simp: write_at_def simp del: concat_eq_Nil_conv)
  ultimately have "built (es @ [e]) b'" using b'(3-6) i(1,3,4) by (simp add: built_def)
  then show ?thesis using b'(1) by blast
qed

lemma nftw_built:
  assumes "built es b" "length es + length es' \<le> 128" "\<forall>e \<in> set es'. good_entry e"
  shows "\<exists>b'. nftw es' b = Inr b' \<and> built (es @ es') b'"
  using assms
proof (induction es' arbitrary: es b)
  case (Cons e es')
  then obtain b1 where "process_entry e b = Inr (False, b1)" "built (es @ [e]) b1" using process_entry_built [of es b e] by auto
  with Cons.IH [of "es @ [e]" b1] Cons.prems show ?case by auto
qed simp

lemma length_le_bytes [simp]: "length (le_bytes n v) = n"
  by (simp add: le_bytes_def)

lemma le_bytes_4: "le_bytes 4 v = [ucast v, ucast (drop_bit 8 v), ucast (drop_bit 16 v), ucast (drop_bit 24 v)]"
  by (simp add: le_bytes_def eval_nat_numeral)

lemma le_bytes_2: "le_bytes 2 v = [ucast v, ucast (drop_bit 8 v)]"
  by (simp add: le_bytes_def eval_nat_numeral)

lemma length_header_bytes: "length (i_name h) = 64 \<Longrightarrow> length (header_bytes h) = 88"
  by (simp add: header_bytes_def)

definition image_of :: "ftw_entry list \<Rightarrow> image_header list \<Rightarrow> u8 list" where
  "image_of es hs = le_bytes 4 (of_nat (length es)) @ concat (map header_bytes hs) @
     (if data_of es = [] then [] else replicate (88 * (128 - length es)) 0 @ data_of es)"

lemma header_ok_name: "header_ok es k h \<Longrightarrow> length (i_name h) = 64"
  using entry_name_props(1) [of "es ! k"] by (simp add: header_ok_def)

lemma length_headers:
  assumes "\<forall>h \<in> set hs. length (i_name h) = 64"
  shows "length (concat (map header_bytes hs)) = 88 * length hs"
  using assms by (induction hs) (simp_all add: length_header_bytes)

lemma write_header:
  assumes "length H = 88 * n" "n \<le> 128" "length c = 4"
    and "f = (if D = [] then [] else replicate data_start 0 @ D)" "n = 0 \<longrightarrow> D = []"
  shows "write_at 4 H (write_at 0 c f) = c @ H @ (if D = [] then [] else replicate (88 * (128 - n)) 0 @ D)"
  using assms by (cases "n = 0"; cases "D = []") (auto simp: write_at_def right_diff_distrib')

lemma builder_main_image:
  assumes "length es \<le> 128" "\<forall>e \<in> set es. good_entry e"
  obtains hs where "builder_main es = Inr (image_of es hs)" "length hs = length es" "\<forall>k < length es. header_ok es k (hs ! k)"
proof -
  let ?b0 = "\<lparr>files = replicate INITRD_MAX_FILES zero_header, file_count = 0, current_offset = of_nat data_start, img = [], fpos = data_start\<rparr>"
  have "built [] ?b0" by (simp add: built_def)
  then obtain b where b: "nftw es ?b0 = Inr b" "built es b" using nftw_built [of "[]" ?b0 es] assms by auto
  let ?hs = "take (file_count b) (files b)"
  have i: "file_count b = length es" "length ?hs = length es" "\<forall>k < length es. header_ok es k (?hs ! k)"
    "img b = (if data_of es = [] then [] else replicate data_start 0 @ data_of es)"
    using b(2) assms(1) by (auto simp: built_def)
  have "\<forall>h \<in> set ?hs. length (i_name h) = 64" using i(2,3) header_ok_name by (metis in_set_conv_nth)
  then have l: "length (concat (map header_bytes ?hs)) = 88 * length es" using length_headers i(2) by metis
  have "builder_main es = Inr (image_of es ?hs)"
    unfolding builder_main_def b(1) res_bind_Inr
    by (subst write_header [OF l assms(1) _ i(4)]) (simp_all add: image_of_def i(1))
  then show thesis using that i(2,3) by blast
qed

section \<open>The image in memory\<close>

fun loaded :: "mem \<Rightarrow> u32 \<Rightarrow> u8 list \<Rightarrow> bool" where
  "loaded m a [] = True"
| "loaded m a (x # xs) = (m a = x \<and> loaded m (a + 1) xs)"

lemma loaded_append [simp]: "loaded m a (xs @ ys) \<longleftrightarrow> loaded m a xs \<and> loaded m (a + of_nat (length xs)) ys"
  by (induction xs arbitrary: a) (auto simp: ac_simps)

lemma loaded_nth: "loaded m a xs \<Longrightarrow> i < length xs \<Longrightarrow> m (a + of_nat i) = xs ! i"
proof (induction xs arbitrary: a i)
  case (Cons x xs)
  then show ?case using Cons.IH [of "a + 1" "i - 1"] by (cases i) (auto simp: ac_simps)
qed simp

lemma loaded_cong: "(\<And>i. i < length xs \<Longrightarrow> m (a + of_nat i) = m' (a + of_nat i)) \<Longrightarrow> loaded m a xs = loaded m' a xs"
proof (induction xs arbitrary: a)
  case (Cons x xs)
  have "m (a + 1 + of_nat i) = m' (a + 1 + of_nat i)" if "i < length xs" for i
    using Cons.prems [of "Suc i"] that by (simp add: ac_simps)
  then show ?case using Cons.IH [of "a + 1"] Cons.prems [of 0] by auto
qed simp

lemma loaded_le_bytes: "loaded m a (le_bytes 4 v) \<longleftrightarrow>
    m a = ucast v \<and> m (a + 1) = ucast (drop_bit 8 v) \<and> m (a + 2) = ucast (drop_bit 16 v) \<and> m (a + 3) = ucast (drop_bit 24 v)"
  by (simp add: le_bytes_4 add.assoc)

lemma load32_loaded:
  assumes "loaded m a (le_bytes 4 v)"
  shows "load32 m a = v"
proof (rule bit_word_eqI)
  fix n
  assume "n < LENGTH(32)"
  then show "bit (load32 m a) n = bit v n" using assms
    by (cases "n < 8"; cases "n < 16"; cases "n < 24") (auto simp: loaded_le_bytes load32_def bit_simps)
qed

lemma loaded_store32: "loaded (store32 a v m) a (le_bytes 4 v)"
proof -
  have "a + 1 \<noteq> a" "a + 2 \<noteq> a" "a + 3 \<noteq> a" "a + 1 \<noteq> a + 2" "a + 1 \<noteq> a + 3" "a + 2 \<noteq> a + 3" by simp_all
  then show ?thesis unfolding loaded_le_bytes store32_def by auto
qed

lemma loaded_store32_other:
  assumes "unat b + length ys \<le> 2 ^ 32" "unat c + 4 \<le> 2 ^ 32" "unat b + length ys \<le> unat c \<or> unat c + 4 \<le> unat b"
  shows "loaded (store32 c v m) b ys = loaded m b ys"
proof (rule loaded_cong)
  fix i
  assume i: "i < length ys"
  show "store32 c v m (b + of_nat i) = m (b + of_nat i)"
    by (rule store32_other) (use unat_plus_offset [OF assms(1) i] assms i in \<open>auto simp: unat_sub_u32\<close>)
qed

lemma loaded_iff: "loaded m a xs \<longleftrightarrow> (\<forall>i < length xs. m (a + of_nat i) = xs ! i)"
proof
  show "\<forall>i < length xs. m (a + of_nat i) = xs ! i \<Longrightarrow> loaded m a xs"
  proof (induction xs arbitrary: a)
    case (Cons x xs)
    then have "m (a + 1 + of_nat i) = xs ! i" if "i < length xs" for i using that by (auto simp: add.assoc dest: spec [of _ "Suc i"])
    then show ?case using Cons by auto
  qed simp
qed (auto dest: loaded_nth)

lemma loaded_copied:
  assumes "loaded m src xs" "length xs \<le> 2 ^ 32"
  shows "loaded (copied dst src (length xs) m) dst xs"
  unfolding loaded_iff copied_def using assms by (auto simp: loaded_iff unat_of_nat)

subsection \<open>Headers\<close>

lemma load16_loaded:
  assumes "loaded m a (le_bytes 2 (ucast v))"
  shows "load16 m a = v"
proof (rule bit_word_eqI)
  fix n
  assume "n < LENGTH(16)"
  then show "bit (load16 m a) n = bit v n" using assms by (cases "n < 8") (auto simp: le_bytes_2 load16_def bit_simps)
qed

lemma loaded_header:
  assumes "length (i_name h) = 64"
  shows "loaded m a (header_bytes h) \<longleftrightarrow> loaded m a (le_bytes 2 (ucast (i_magic h)) @ i_name h @ [0, 0]) \<and>
    loaded m (a + 68) (le_bytes 4 (i_offset h)) \<and>
    loaded m (a + 72) (le_bytes 4 (i_length h) @ le_bytes 4 (i_parent h) @ le_bytes 4 (i_number h) @ [i_type h, 0, 0, 0])"
  unfolding header_bytes_def by (simp add: assms add.assoc)

definition header_at :: "image_header \<Rightarrow> file_header" where
  "header_at h = \<lparr>h_magic = i_magic h, h_offset = i_offset h, h_length = i_length h, h_parent = i_parent h, h_number = i_number h, h_type = i_type h\<rparr>"

lemma load_header_loaded:
  assumes "loaded m a (header_bytes h)" "length (i_name h) = 64"
  shows "load_header m a = header_at h"
proof -
  have l: "loaded m a (le_bytes 2 (ucast (i_magic h)))" "loaded m (a + 68) (le_bytes 4 (i_offset h))" "loaded m (a + 72) (le_bytes 4 (i_length h))"
    "loaded m (a + 76) (le_bytes 4 (i_parent h))" "loaded m (a + 80) (le_bytes 4 (i_number h))" "m (a + 84) = i_type h"
    using assms unfolding loaded_header [OF assms(2)] by (simp_all add: add.assoc)
  show ?thesis using load16_loaded [OF l(1)] l(2-5) [THEN load32_loaded] l(6) by (simp add: load_header_def header_at_def)
qed

lemma loaded_relocated:
  assumes "loaded m a (header_bytes h)" "length (i_name h) = 64" "unat a + 88 \<le> 2 ^ 32"
  shows "loaded (store32 (a + 68) v m) a (header_bytes (h\<lparr>i_offset := v\<rparr>))"
proof -
  have u: "unat (a + 68) = unat a + 68" "unat (a + 72) = unat a + 72"
    using unat_plus_offset [OF assms(3), of 68] unat_plus_offset [OF assms(3), of 72] by simp_all
  have n: "length (i_name (h\<lparr>i_offset := v\<rparr>)) = 64" using assms(2) by simp
  show ?thesis using assms(1) u assms(2,3) loaded_store32 [of "a + 68" v m] unfolding loaded_header [OF n] loaded_header [OF assms(2)]
    by (auto simp: loaded_store32_other simp del: loaded_append loaded.simps)
qed

lemma read_name_loaded: "loaded m p (nm @ [0]) \<Longrightarrow> 0 \<notin> set nm \<Longrightarrow> length nm < n \<Longrightarrow> read_name n m p = Inr nm"
proof (induction nm arbitrary: n p)
  case Nil
  then show ?case by (cases n) auto
next
  case (Cons x nm)
  then show ?case using Cons.IH [of "p + 1" "n - 1"] by (cases n) (auto simp: add.assoc)
qed

lemma read_entry_name:
  assumes "loaded m a (header_bytes h)" and n: "i_name h = entry_name e @ replicate (64 - length (entry_name e)) 0"
  shows "read_name 128 m (a + 2) = Inr (entry_name e)"
proof -
  have l: "length (i_name h) = 64" using entry_name_props(1) [of e] by (simp add: n)
  have "i_name h = (entry_name e @ [0]) @ replicate (63 - length (entry_name e)) 0"
    using entry_name_props(1) [of e] by (simp add: n Suc_diff_le flip: replicate_Suc)
  moreover have "loaded m (a + 2) (i_name h)" using assms(1) unfolding loaded_header [OF l] by simp
  ultimately have "loaded m (a + 2) (entry_name e @ [0])" by (simp del: append_assoc)
  then show ?thesis using entry_name_props [of e] by (intro read_name_loaded) auto
qed

section \<open>Initialisation\<close>

text \<open>The RAM disk at \<open>A\<close> after the first \<open>k\<close> headers have been relocated.\<close>

definition moved_header :: "u32 \<Rightarrow> nat \<Rightarrow> image_header list \<Rightarrow> nat \<Rightarrow> image_header" where
  "moved_header A k hs j = (if j < k then (hs ! j)\<lparr>i_offset := i_offset (hs ! j) + A\<rparr> else hs ! j)"

definition disk :: "u32 \<Rightarrow> ftw_entry list \<Rightarrow> image_header list \<Rightarrow> nat \<Rightarrow> mem \<Rightarrow> bool" where
  "disk A es hs k m \<longleftrightarrow> (\<forall>j < length es. loaded m (A + 4 + 88 * of_nat j) (header_bytes (moved_header A k hs j))) \<and>
     loaded m (A + of_nat data_start) (data_of es)"

definition headers_of :: "ftw_entry list \<Rightarrow> image_header list \<Rightarrow> bool" where
  "headers_of es hs \<longleftrightarrow> length es \<le> 128 \<and> length hs = length es \<and> (\<forall>k < length es. header_ok es k (hs ! k))"

lemma moved_header_name: "headers_of es hs \<Longrightarrow> j < length es \<Longrightarrow> length (i_name (moved_header A k hs j)) = 64"
  using header_ok_name [of es j "hs ! j"] by (auto simp: headers_of_def moved_header_def)

lemma loaded_headers:
  assumes "\<forall>h \<in> set hs. length (i_name h) = 64" "loaded m a (concat (map header_bytes hs))" "j < length hs"
  shows "loaded m (a + 88 * of_nat j) (header_bytes (hs ! j))"
  using assms
proof (induction hs arbitrary: a j)
  case (Cons h hs)
  then show ?case using Cons.IH [of "a + 88" "j - 1"] by (cases j) (auto simp: length_header_bytes algebra_simps)
qed simp

lemma loaded_disk:
  assumes "headers_of es hs" "loaded m A (image_of es hs)"
  shows "disk A es hs 0 m \<and> load32 m A = of_nat (length es)"
proof -
  have hs: "length hs = length es" "length es \<le> 128" "\<forall>h \<in> set hs. length (i_name h) = 64"
    using assms(1) header_ok_name [of es] by (fastforce simp: headers_of_def in_set_conv_nth)+
  have l: "loaded m A (le_bytes 4 (of_nat (length es)))" "loaded m (A + 4) (concat (map header_bytes hs))"
    "loaded m (A + 4 + of_nat (88 * length es)) (if data_of es = [] then [] else replicate (88 * (128 - length es)) 0 @ data_of es)"
    using assms(2) hs(1) length_headers [OF hs(3)] by (simp_all add: image_of_def add.assoc)
  have "88 * length es + 88 * (128 - length es) = 88 * 128" using hs(2) by linarith
  then have "(of_nat (88 * length es) :: u32) + of_nat (88 * (128 - length es)) = of_nat (88 * 128)" by (metis of_nat_add)
  then have a: "A + 4 + of_nat (88 * length es) + of_nat (88 * (128 - length es)) = A + of_nat data_start" by (simp add: add.assoc)
  have "loaded m (A + of_nat data_start) (data_of es)"
  proof (cases "data_of es = []")
    case True
    then show ?thesis by (simp only: loaded.simps)
  next
    case False
    then show ?thesis using l(3) a by (simp only: if_False loaded_append length_replicate)
  qed
  then show ?thesis using loaded_headers [OF hs(3) l(2)] load32_loaded [OF l(1)] hs(1) by (simp add: disk_def moved_header_def)
qed

lemma length_image:
  assumes "headers_of es hs"
  shows "length (image_of es hs) \<le> data_start + length (data_of es)"
proof -
  have "\<forall>h \<in> set hs. length (i_name h) = 64" using assms header_ok_name [of es] by (fastforce simp: headers_of_def in_set_conv_nth)
  from length_headers [OF this] show ?thesis using assms by (auto simp: image_of_def headers_of_def)
qed

lemma unat_header_addr:
  assumes "unat (A :: u32) + data_start \<le> 2 ^ 32" "k < 128"
  shows "unat (A + 4 + 88 * of_nat k) = unat A + 4 + 88 * k"
proof -
  have "A + 4 + 88 * of_nat k = A + of_nat (4 + 88 * k)" by simp
  also have "unat \<dots> = unat A + (4 + 88 * k)" by (rule unat_plus_offset [OF assms(1)]) (use assms(2) in simp)
  finally show ?thesis by simp
qed

lemma disk_step:
  assumes "headers_of es hs" "disk A es hs k m" "k < length es" "unat A + data_start + length (data_of es) \<le> 2 ^ 32"
  shows "disk A es hs (Suc k) (store32 (A + 4 + 88 * of_nat k + 68) (i_offset (hs ! k) + A) m)"
proof -
  let ?a = "\<lambda>j. A + 4 + 88 * of_nat j :: u32"
  have n: "length es \<le> 128" "unat A + data_start \<le> 2 ^ 32" using assms(1,4) by (auto simp: headers_of_def)
  have u: "unat (?a j) = unat A + 4 + 88 * j" if "j < length es" for j using unat_header_addr [OF n(2)] n(1) that by simp
  have uk: "unat (?a k) + 88 \<le> 2 ^ 32" "unat (?a k + 68) = unat A + 72 + 88 * k"
    using unat_plus_offset [of "?a k" 88 68] u [OF assms(3)] n assms(3) by simp_all
  have ud: "unat (A + of_nat data_start) = unat A + data_start \<or> data_of es = []"
    using unat_plus_offset [of A "data_start + length (data_of es)" data_start] assms(4) by (cases "data_of es = []") auto
  have "loaded (store32 (?a k + 68) (i_offset (hs ! k) + A) m) (?a j) (header_bytes (moved_header A (Suc k) hs j))" if j: "j < length es" for j
  proof (cases "j = k")
    case True
    have h: "loaded m (?a k) (header_bytes (hs ! k))" "length (i_name (hs ! k)) = 64"
      using assms(2,3) moved_header_name [OF assms(1,3), of A k] by (auto simp: disk_def moved_header_def)
    show ?thesis using loaded_relocated [OF h uk(1)] True by (simp add: moved_header_def)
  next
    case False
    then have "moved_header A (Suc k) hs j = moved_header A k hs j" by (simp add: moved_header_def)
    moreover have "length (header_bytes (moved_header A k hs j)) = 88" by (rule length_header_bytes [OF moved_header_name [OF assms(1) j]])
    moreover have "88 * j + 88 \<le> 88 * k \<or> 88 * k + 88 \<le> 88 * j" using False by (simp add: nat_neq_iff) linarith
    ultimately show ?thesis using assms(2,3) j u [OF j] uk n by (subst loaded_store32_other) (auto simp: disk_def)
  qed
  moreover have "loaded (store32 (?a k + 68) (i_offset (hs ! k) + A) m) (A + of_nat data_start) (data_of es)"
  proof (cases "data_of es = []")
    case True
    then show ?thesis by (simp only: loaded.simps)
  next
    case False
    then show ?thesis using ud assms(2,3,4) uk n(1) by (subst loaded_store32_other) (auto simp: disk_def)
  qed
  ultimately show ?thesis by (simp add: disk_def)
qed

subsection \<open>The nodes\<close>

lemma init_nodes_append: "init_nodes junk A (xs @ ys) s = res_bind (init_nodes junk A xs s) (init_nodes junk A ys)"
  by (induction xs arbitrary: s) (simp_all add: res_bind_assoc cong: res_bind_cong)

definition entry_node :: "fs_node \<Rightarrow> u32 \<Rightarrow> ftw_entry list \<Rightarrow> image_header list \<Rightarrow> nat \<Rightarrow> fs_node" where
  "entry_node junk A es hs k = file_node junk (entry_name (es ! k)) (header_at ((hs ! k)\<lparr>i_offset := i_offset (hs ! k) + A\<rparr>))"

text \<open>What initialisation changes, from the state \<open>s\<close> in which the directories exist.\<close>

definition nodes_made :: "fs_node \<Rightarrow> u32 \<Rightarrow> ftw_entry list \<Rightarrow> image_header list \<Rightarrow> fs \<Rightarrow> nat \<Rightarrow> fs \<Rightarrow> bool" where
  "nodes_made junk A es hs s k s' \<longleftrightarrow> (\<exists>m v ns. s' = s\<lparr>fs_mem := m, version_node := v, fs_nodes := ns\<rparr> \<and> disk A es hs k m \<and>
     (\<forall>j < k. ns (root_nodes s + 176 * of_nat j) = Some (entry_node junk A es hs j)) \<and>
     (\<forall>p. (\<forall>j < k. p \<noteq> root_nodes s + 176 * of_nat j) \<longrightarrow> ns p = fs_nodes s p))"

lemma node_addr_inj:
  assumes "unat (R :: u32) + 176 * n \<le> 2 ^ 32" "j < n" "k < n" "R + 176 * of_nat j = R + 176 * of_nat k"
  shows "j = k"
proof -
  have u: "unat (R + of_nat (176 * i)) = unat R + 176 * i" if "i < n" for i using that by (intro unat_plus_offset [OF assms(1)]) simp
  show ?thesis using u [OF assms(2)] u [OF assms(3)] assms(4) by simp
qed

lemma init_node_step:
  assumes hs: "headers_of es hs" and k: "k < length es" and A: "unat A + data_start + length (data_of es) \<le> 2 ^ 32"
    and R: "root_nodes s \<noteq> 0" "unat (root_nodes s) + 176 * length es \<le> 2 ^ 32" "file_headers s = A + 4"
    and s': "nodes_made junk A es hs s k s'"
  shows "\<exists>s''. init_node junk A k s' = Inr s'' \<and> nodes_made junk A es hs s (Suc k) s''"
proof -
  obtain m v ns where s1: "s' = s\<lparr>fs_mem := m, version_node := v, fs_nodes := ns\<rparr>" and d: "disk A es hs k m"
    and ns: "\<forall>j < k. ns (root_nodes s + 176 * of_nat j) = Some (entry_node junk A es hs j)"
      "\<forall>p. (\<forall>j < k. p \<noteq> root_nodes s + 176 * of_nat j) \<longrightarrow> ns p = fs_nodes s p"
    using s' by (auto simp: nodes_made_def)
  let ?a = "A + 4 + 88 * of_nat k" and ?p = "root_nodes s + 176 * of_nat k" and ?h = "(hs ! k)\<lparr>i_offset := i_offset (hs ! k) + A\<rparr>"
  let ?m = "store32 (?a + 68) (i_offset (hs ! k) + A) m"
  have h: "loaded m ?a (header_bytes (hs ! k))" "length (i_name (hs ! k)) = 64" "header_ok es k (hs ! k)"
    using d k hs header_ok_name by (auto simp: disk_def moved_header_def headers_of_def)
  have d': "disk A es hs (Suc k) ?m" by (rule disk_step [OF hs d k A])
  have h': "loaded ?m ?a (header_bytes ?h)" using d' k by (auto simp: disk_def moved_header_def)
  have nm: "read_name 128 ?m (?a + 2) = Inr (entry_name (es ! k))"
    by (rule read_entry_name [OF h']) (use h(3) in \<open>simp add: header_ok_def\<close>)
  have ld: "load_header m ?a = header_at (hs ! k)" "load_header ?m ?a = header_at ?h"
    using load_header_loaded [OF h(1,2)] load_header_loaded [OF h'] h(2) by simp_all
  let ?v = "if entry_name (es ! k) = text_bytes ''version.txt'' then ?p else v"
  let ?s = "s\<lparr>fs_mem := ?m, version_node := ?v, fs_nodes := ns(?p \<mapsto> entry_node junk A es hs k)\<rparr>"
  have off: "load32 m (?a + 68) = i_offset (hs ! k)" "h_magic (load_header m ?a) = INITRD_MAGIC"
    using ld(1) h(3) by (simp_all add: load_header_def header_at_def header_ok_def)
  have "init_node junk A k s' = Inr ?s"
    unfolding init_node_def Let_def s1 using R off nm ld by (simp add: entry_node_def del: fun_upd_apply)
  moreover have ne: "root_nodes s + 176 * of_nat j \<noteq> ?p" if "j < k" for j using node_addr_inj [OF R(2) _ k, of j] that k by auto
  moreover have "nodes_made junk A es hs s (Suc k) ?s" unfolding nodes_made_def
  proof (intro exI conjI)
    show "?s = s\<lparr>fs_mem := ?m, version_node := ?v, fs_nodes := ns(?p \<mapsto> entry_node junk A es hs k)\<rparr>" by (rule refl)
    show "disk A es hs (Suc k) ?m" by (rule d')
    show "\<forall>j < Suc k. (ns(?p \<mapsto> entry_node junk A es hs k)) (root_nodes s + 176 * of_nat j) = Some (entry_node junk A es hs j)"
      using ns(1) ne by (auto simp: less_Suc_eq)
    show "\<forall>p. (\<forall>j < Suc k. p \<noteq> root_nodes s + 176 * of_nat j) \<longrightarrow> (ns(?p \<mapsto> entry_node junk A es hs k)) p = fs_nodes s p"
      using ns(2) by auto
  qed
  ultimately show ?thesis by blast
qed

lemma init_nodes_made:
  assumes hs: "headers_of es hs" and A: "unat A + data_start + length (data_of es) \<le> 2 ^ 32"
    and R: "root_nodes s \<noteq> 0" "unat (root_nodes s) + 176 * length es \<le> 2 ^ 32" "file_headers s = A + 4"
    and d: "disk A es hs 0 (fs_mem s)" and "k \<le> length es"
  shows "\<exists>s'. init_nodes junk A [0..<k] s = Inr s' \<and> nodes_made junk A es hs s k s'"
  using assms(7)
proof (induction k)
  case 0
  have "nodes_made junk A es hs s 0 s" unfolding nodes_made_def
    by (intro exI [of _ "fs_mem s"] exI [of _ "version_node s"] exI [of _ "fs_nodes s"]) (simp add: d)
  then show ?case by simp
next
  case (Suc k)
  then obtain s1 where s1: "init_nodes junk A [0..<k] s = Inr s1" "nodes_made junk A es hs s k s1" by auto
  obtain s2 where "init_node junk A k s1 = Inr s2" "nodes_made junk A es hs s (Suc k) s2"
    using init_node_step [OF hs _ A R s1(2)] Suc.prems by auto
  then show ?case using s1(1) by (auto simp: init_nodes_append)
qed

section \<open>Lookup and reading\<close>

lemma find_node_first:
  assumes "\<forall>j < n. \<exists>nd. fs_nodes s (root_nodes s + 176 * of_nat j) = Some nd \<and> fname nd = f j \<and> root_nodes s + 176 * of_nat j \<noteq> 0"
    and "k < n" "\<forall>j < k. f j \<noteq> f k" "i \<le> k"
  shows "find_node [i..<n] (f k) s = Inr (root_nodes s + 176 * of_nat k)"
  using assms(4)
proof (induction i rule: inc_induct)
  case base
  then show ?case using assms(1,2) by (auto simp: upt_conv_Cons deref_def)
next
  case (step i)
  then have "i < n" using assms(2) by simp
  then obtain nd where "fs_nodes s (root_nodes s + 176 * of_nat i) = Some nd" "fname nd = f i" "root_nodes s + 176 * of_nat i \<noteq> 0"
    using assms(1) by blast
  then show ?case using step assms(3) \<open>i < n\<close> by (auto simp: upt_conv_Cons deref_def)
qed

lemma data_split: "k < length es \<Longrightarrow> data_of es = data_of (take k es) @ entry_data (es ! k) @ data_of (drop (Suc k) es)"
  by (subst id_take_nth_drop [of k es]) simp_all

lemma initrd_read_data:
  assumes nd: "deref (fs_nodes s) node = Inr nd"
    and hd: "load_header (fs_mem s) (file_headers s + 88 * inode nd) = h" "h_length h = of_nat (length D)" "length D < 2 ^ 32"
    and D: "D = [] \<or> loaded (fs_mem s) (h_offset h) D \<and> unat (h_offset h) + length D \<le> 2 ^ 32"
    and sz: "unat off + unat sz < 2 ^ 32" and X: "X = take (unat sz) (drop (unat off) D)"
    and buf: "unat buf + length X \<le> 2 ^ 32" "X = [] \<or> unat buf + length X \<le> unat (h_offset h) \<or> unat (h_offset h) + length D \<le> unat buf"
  shows "\<exists>s'. initrd_read node off sz buf s = Inr (of_nat (length X), s') \<and> loaded (fs_mem s') buf X"
proof (cases "off > h_length h")
  case True
  then have "X = []" using X hd(2,3) by (simp add: word_less_nat_alt unat_of_nat)
  then show ?thesis using True nd hd(1) by (simp add: initrd_read_def Let_def)
next
  case False
  then have off: "unat off \<le> length D" using hd(2,3) by (simp add: not_less word_le_nat_alt unat_of_nat)
  let ?sz = "if off + sz > h_length h then h_length h - off else sz"
  have "unat (off + sz) = unat off + unat sz" using sz by (simp add: unat_word_ariths)
  then have u: "unat ?sz = length X" using off hd(2,3) unfolding X
    by (auto simp: word_less_nat_alt unat_of_nat unat_sub_u32)
  have l2: "length X < 2 ^ 32" using hd(3) unfolding X by simp
  have l1: "?sz = of_nat (length X)" unfolding word_unat_eq_iff u using l2 by (simp add: unat_of_nat)
  have r: "initrd_read node off sz buf s = Inr (?sz, s\<lparr>fs_mem := memcpy buf (h_offset h + off) ?sz (fs_mem s)\<rparr>)"
    using False nd hd(1) by (simp add: initrd_read_def Let_def)
  have "loaded (memcpy buf (h_offset h + off) (of_nat (length X)) (fs_mem s)) buf X"
  proof (cases "X = []")
    case False
    then have ne: "D \<noteq> []" "unat off < length D" unfolding X by auto
    then have o: "unat (h_offset h + off) = unat (h_offset h) + unat off" using D unat_plus_offset [of "h_offset h" "length D" "unat off"] by simp
    have x: "unat off + length X \<le> length D" using off unfolding X by simp
    have "loaded (fs_mem s) (h_offset h) (take (unat off) D @ X @ drop (unat off + unat sz) D)"
      using D ne(1) unfolding X by (metis append_take_drop_id drop_drop add.commute)
    then have "loaded (fs_mem s) (h_offset h + off) X" using off by simp
    then have "loaded (copied buf (h_offset h + off) (length X) (fs_mem s)) buf X" using l2 by (intro loaded_copied) simp_all
    moreover have "memcpy buf (h_offset h + off) (of_nat (length X)) (fs_mem s) = copied buf (h_offset h + off) (length X) (fs_mem s)"
      using memcpy_disjoint [of buf "of_nat (length X)" "h_offset h + off" "fs_mem s"] l2 buf False o x D ne(1) by (auto simp: unat_of_nat)
    ultimately show ?thesis by simp
  qed simp
  then show ?thesis using r l1 by simp
qed

lemma initrd_initialize_made:
  assumes hs: "headers_of es hs" and ld: "loaded (fs_mem s) A (image_of es hs)" and A: "unat A + data_start + length (data_of es) \<le> 2 ^ 32"
    and km: "kmalloc d sizeof_fs_node (fs_vm s) = Inr (r, v1)" "kmalloc d sizeof_fs_node v1 = Inr (dv, v2)"
      "kmalloc d (sizeof_fs_node * of_nat (length es)) v2 = Inr (R, v3)" "r \<noteq> 0" "dv \<noteq> 0" "R \<noteq> 0"
    and R: "unat R + 176 * length es \<le> 2 ^ 32"
  obtains s0 s' where "initrd_initialize d junk A s = Inr (r, s')" "nodes_made junk A es hs s0 (length es) s'"
    "fs_nodes s0 = (fs_nodes s)(r \<mapsto> dir_node junk (text_bytes ''root''), dv \<mapsto> dir_node junk (text_bytes ''dev''))"
    "root_nodes s0 = R" "file_headers s0 = A + 4" "initrd_root s0 = r" "initrd_dev s0 = dv" "nnodes s0 = of_nat (length es)"
proof -
  have d: "disk A es hs 0 (fs_mem s)" "load32 (fs_mem s) A = of_nat (length es)" using loaded_disk [OF hs ld] by auto
  have n: "unat (of_nat (length es) :: u32) = length es" using hs by (simp add: headers_of_def unat_of_nat)
  let ?s0 = "s\<lparr>fs_vm := v3, file_headers := A + 4, initrd_root := r, initrd_dev := dv, root_nodes := R, nnodes := of_nat (length es),
     fs_nodes := (fs_nodes s)(r \<mapsto> dir_node junk (text_bytes ''root''), dv \<mapsto> dir_node junk (text_bytes ''dev''))\<rparr>"
  obtain s' where s': "init_nodes junk A [0..<length es] ?s0 = Inr s'" "nodes_made junk A es hs ?s0 (length es) s'"
    using init_nodes_made [OF hs A, of ?s0 "length es" junk] km(6) R d(1) by auto
  have "initrd_initialize d junk A s = Inr (r, s')"
    unfolding initrd_initialize_def using km s'(1) d(2) n by (simp add: Let_def)
  then show thesis using that [of s' ?s0] s'(2) by simp
qed

lemma made_finds:
  assumes made: "nodes_made junk A es hs s0 (length es) s'" and n: "length es \<le> 128" "nnodes s0 = of_nat (length es)"
    and r: "fs_nodes s0 r = Some (dir_node junk nm)" "r \<noteq> 0" "\<forall>j < length es. r \<noteq> root_nodes s0 + 176 * of_nat j"
    and R: "root_nodes s0 \<noteq> 0" "unat (root_nodes s0) + 176 * length es \<le> 2 ^ 32"
    and k: "k < length es" "\<forall>j < k. entry_name (es ! j) \<noteq> entry_name (es ! k)" "entry_name (es ! k) \<noteq> text_bytes ''dev''"
  shows "finddir_fs r (entry_name (es ! k)) s' = Inr (root_nodes s0 + 176 * of_nat k)"
proof -
  have R0: "root_nodes s0 + 176 * of_nat j \<noteq> 0" if "j < length es" for j
    using unat_plus_offset [OF R(2), of "176 * j"] R(1) that by (auto simp: word_unat_eq_iff)
  have s': "\<forall>j < length es. fs_nodes s' (root_nodes s' + 176 * of_nat j) = Some (entry_node junk A es hs j)"
    "fs_nodes s' r = Some (dir_node junk nm)" "root_nodes s' = root_nodes s0" "nnodes s' = of_nat (length es)" "initrd_root s' = initrd_root s0"
    using made r n by (auto simp: nodes_made_def)
  have "find_node [0..<length es] (entry_name (es ! k)) s' = Inr (root_nodes s0 + 176 * of_nat k)"
    using find_node_first [of "length es" s' "\<lambda>j. entry_name (es ! j)" k 0] s' R0 k by (simp add: entry_node_def file_node_def)
  then show ?thesis using s' r(2) k(3) n(1)
    by (simp add: finddir_fs_def initrd_finddir_def deref_def dir_node_def unat_of_nat)
qed

lemma made_reads:
  assumes made: "nodes_made junk A es hs s0 (length es) s'" and hs: "headers_of es hs"
    and A: "unat A + data_start + length (data_of es) \<le> 2 ^ 32"
    and R: "root_nodes s0 + 176 * of_nat k \<noteq> 0" "file_headers s0 = A + 4" and k: "k < length es"
    and sz: "unat off + unat sz < 2 ^ 32" and X: "X = take (unat sz) (drop (unat off) (entry_data (es ! k)))"
    and buf: "unat buf + length X \<le> 2 ^ 32" "unat buf + length X \<le> unat A \<or> unat A + data_start + length (data_of es) \<le> unat buf"
  shows "\<exists>s''. read_fs (root_nodes s0 + 176 * of_nat k) off sz buf s' = Inr (of_nat (length X), s'') \<and> loaded (fs_mem s'') buf X"
proof -
  let ?D = "entry_data (es ! k)" and ?p = "root_nodes s0 + 176 * of_nat k" and ?L = "length (data_of (take k es))"
  let ?h = "(hs ! k)\<lparr>i_offset := i_offset (hs ! k) + A\<rparr>"
  have s': "fs_nodes s' ?p = Some (entry_node junk A es hs k)" "file_headers s' = A + 4" "disk A es hs (length es) (fs_mem s')"
    using made R(2) k by (auto simp: nodes_made_def)
  have ok: "header_ok es k (hs ! k)" using hs k by (simp add: headers_of_def)
  have nd: "deref (fs_nodes s') ?p = Inr (entry_node junk A es hs k)" using s'(1) R(1) by (simp add: deref_def)
  have i: "inode (entry_node junk A es hs k) = of_nat k" "read_cb (entry_node junk A es hs k) = Some Initrd_read"
    using ok by (simp_all add: entry_node_def file_node_def header_at_def header_ok_def)
  have "loaded (fs_mem s') (A + 4 + 88 * of_nat k) (header_bytes ?h)" "length (i_name ?h) = 64"
    using s'(3) k header_ok_name [OF ok] by (auto simp: disk_def moved_header_def)
  then have h: "load_header (fs_mem s') (file_headers s' + 88 * inode (entry_node junk A es hs k)) = header_at ?h"
    unfolding s'(2) i(1) by (rule load_header_loaded)
  have sp: "data_of es = data_of (take k es) @ ?D @ data_of (drop (Suc k) es)" by (rule data_split [OF k])
  have len: "?L + length ?D \<le> length (data_of es)" unfolding sp by simp
  have off: "h_offset (header_at ?h) = A + of_nat (data_start + ?L)" if "?D \<noteq> []"
    using ok that by (auto simp: header_at_def header_ok_def is_file_def entry_data_def)
  have u: "unat (h_offset (header_at ?h)) = unat A + data_start + ?L" if "?D \<noteq> []"
    using unat_plus_offset [of A "data_start + length (data_of es)" "data_start + ?L"] A len that off by (cases "?D") auto
  have "loaded (fs_mem s') (A + of_nat data_start) (data_of (take k es) @ ?D @ data_of (drop (Suc k) es))"
    using s'(3) sp unfolding disk_def by metis
  then have "loaded (fs_mem s') (A + of_nat data_start + of_nat ?L) ?D" by simp
  then have D: "?D = [] \<or> loaded (fs_mem s') (h_offset (header_at ?h)) ?D \<and> unat (h_offset (header_at ?h)) + length ?D \<le> 2 ^ 32"
    using u off A len by (auto simp: add.assoc)
  have b: "X = [] \<or> unat buf + length X \<le> unat (h_offset (header_at ?h)) \<or> unat (h_offset (header_at ?h)) + length ?D \<le> unat buf"
    using buf u len X by (cases "?D = []") auto
  have l: "h_length (header_at ?h) = of_nat (length ?D)" "length ?D < 2 ^ 32" using ok len A by (simp_all add: header_at_def header_ok_def)
  show ?thesis using initrd_read_data [OF nd h l D sz X buf(1) b] i(2) nd by (simp add: read_fs_def)
qed

text \<open>What the contract of the heap says about the three blocks of the file system.\<close>

lemma node_blocks:
  assumes "heap_ok d F v" and km: "kmalloc (Suc d) sizeof_fs_node v = Inr (r, v1)" "kmalloc (Suc d) sizeof_fs_node v1 = Inr (dv, v2)"
      "kmalloc (Suc d) (sizeof_fs_node * of_nat n) v2 = Inr (R, v3)" and nz: "r \<noteq> 0" "dv \<noteq> 0" "R \<noteq> 0" and n: "n \<le> 128"
  shows "r \<noteq> dv" "unat R + 176 * n \<le> 2 ^ 32" "\<forall>j < n. r \<noteq> R + sizeof_fs_node * of_nat j"
proof -
  have u: "unat (sizeof_fs_node * of_nat n) = 176 * n" using n by (simp add: unat_word_ariths unat_of_nat)
  have f: "(sizeof_fs_node :: u32) \<le> 0x3FEFEFF8" "sizeof_fs_node * of_nat n \<le> (0x3FEFEFF8 :: u32)" using n u by (simp_all add: word_le_nat_alt)
  note a1 = kernel_heap.alloc_Inr [OF assms(1) f(1) km(1) nz(1)]
  note a2 = kernel_heap.alloc_Inr [OF a1(4) f(1) km(2) nz(2)]
  note a3 = kernel_heap.alloc_Inr [OF a2(4) f(2) km(3) nz(3)]
  have m: "unat r \<in> block_at r sizeof_fs_node" "unat dv \<in> block_at dv sizeof_fs_node" using a1(1) a2(1) by (auto simp: block_at_def)
  then show "r \<noteq> dv" using a2(3) by auto
  show R: "unat R + 176 * n \<le> 2 ^ 32" using a3(2) unfolding u by simp
  have "unat (R + sizeof_fs_node * of_nat j) \<in> block_at R (sizeof_fs_node * of_nat n)" if "j < n" for j
    using unat_plus_offset [OF R, of "176 * j"] that unfolding block_at_def u by simp
  then show "\<forall>j < n. r \<noteq> R + sizeof_fs_node * of_nat j" using a3(3) m(1) by blast
qed

text \<open>
  C31: the round trip from the builder to the file system. The builder writes an image of at most 128 directories and
  readable files; the boot loader puts it at \<open>A\<close>; the kernel heap is in order and serves the three requests of
  \<open>initrd_initialize\<close>. Then \<open>initrd_initialize\<close> succeeds, a lookup of the name of an entry
  in the root finds its node (the first one of this name, and not the directory \<open>dev\<close>), and reading \<open>sz\<close> bytes
  from position \<open>off\<close> of it, with \<open>off + sz\<close> in 32 bits, puts exactly those bytes of the file that exist there into the buffer.
\<close>

theorem initrd_roundtrip:
  assumes es: "length es \<le> INITRD_MAX_FILES" "\<forall>e \<in> set es. good_entry e" and im: "builder_main es = Inr im" "loaded (fs_mem s) A im"
    and A: "unat A + data_start + length (data_of es) \<le> 2 ^ 32"
    and heap: "heap_ok d F (fs_vm s)" and km: "kmalloc (Suc d) sizeof_fs_node (fs_vm s) = Inr (r, v1)"
      "kmalloc (Suc d) sizeof_fs_node v1 = Inr (dv, v2)" "kmalloc (Suc d) (sizeof_fs_node * of_nat (length es)) v2 = Inr (R, v3)"
      "r \<noteq> 0" "dv \<noteq> 0" "R \<noteq> 0"
    and k: "k < length es" "\<forall>j < k. entry_name (es ! j) \<noteq> entry_name (es ! k)" "entry_name (es ! k) \<noteq> text_bytes ''dev''"
    and sz: "unat off + unat sz < 2 ^ 32" and X: "X = take (unat sz) (drop (unat off) (entry_data (es ! k)))"
    and buf: "unat buf + length X \<le> 2 ^ 32" "unat buf + length X \<le> unat A \<or> unat A + data_start + length (data_of es) \<le> unat buf"
  shows "\<exists>s' node s''. initrd_initialize (Suc d) junk A s = Inr (r, s') \<and> finddir_fs r (entry_name (es ! k)) s' = Inr node \<and>
    read_fs node off sz buf s' = Inr (of_nat (length X), s'') \<and> loaded (fs_mem s'') buf X"
proof -
  note R = node_blocks [OF heap km es(1)]
  obtain hs where "builder_main es = Inr (image_of es hs)" "length hs = length es" "\<forall>k < length es. header_ok es k (hs ! k)"
    using builder_main_image [OF es] by blast
  then have hs: "headers_of es hs" and ld: "loaded (fs_mem s) A (image_of es hs)" using es(1) im by (auto simp: headers_of_def)
  obtain s0 s' where s': "initrd_initialize (Suc d) junk A s = Inr (r, s')" "nodes_made junk A es hs s0 (length es) s'"
    and s0: "fs_nodes s0 = (fs_nodes s)(r \<mapsto> dir_node junk (text_bytes ''root''), dv \<mapsto> dir_node junk (text_bytes ''dev''))"
      "root_nodes s0 = R" "file_headers s0 = A + 4" "initrd_root s0 = r" "initrd_dev s0 = dv" "nnodes s0 = of_nat (length es)"
    by (rule initrd_initialize_made [OF hs ld A km R(2)])
  have n: "fs_nodes s0 r = Some (dir_node junk (text_bytes ''root''))" using s0(1) R(1) by simp
  have "finddir_fs r (entry_name (es ! k)) s' = Inr (R + sizeof_fs_node * of_nat k)"
    using made_finds [OF s'(2) es(1) s0(6) n km(4) _ _ _ k] R(2,3) km(6) s0(2) by simp
  moreover have "R + sizeof_fs_node * of_nat k \<noteq> 0" using unat_plus_offset [OF R(2), of "176 * k"] km(6) k(1) by (auto simp: word_unat_eq_iff)
  then obtain s'' where "read_fs (R + sizeof_fs_node * of_nat k) off sz buf s' = Inr (of_nat (length X), s'')" "loaded (fs_mem s'') buf X"
    using made_reads [OF s'(2) hs A _ s0(3) k(1) sz X buf] s0(2) by auto
  ultimately show ?thesis using s'(1) by blast
qed

definition demo_entries :: "ftw_entry list" where
  "demo_entries =
     [\<lparr>e_path = text_bytes ''initrd'', e_beyond = [0], e_level = 0, e_kind = FTW_D\<rparr>,
      \<lparr>e_path = text_bytes ''initrd/motd'', e_beyond = [], e_level = 1, e_kind = FTW_F (Some [72, 101, 108, 108, 111])\<rparr>]"

definition demo_junk :: fs_node where
  "demo_junk = \<lparr>fname = [], mask = 7, uid = 7, gid = 7, flags = 7, inode = 7, parent_inode = 7, flength = 7, read_cb = None, write_cb = None,
     open_cb = None, close_cb = None, readdir_cb = None, finddir_cb = None, fptr = 7\<rparr>"

definition demo_fs :: fs where
  "demo_fs = \<lparr>fs_vm = kheap_s0, fs_mem = (\<lambda>_. 0), fs_nodes = (\<lambda>_. None), file_headers = 0, initrd_root = 0, initrd_dev = 0, root_nodes = 0,
     nnodes = 0, version_node = 0, fs_root = 0, dirent_buf = \<lparr>d_name = [], d_inode = 0\<rparr>\<rparr>"

lemma demo_entries_facts:
  "length demo_entries = 2" "\<forall>e \<in> set demo_entries. good_entry e" "data_of demo_entries = [72, 101, 108, 108, 111]"
  "entry_name (demo_entries ! 0) = []" "entry_name (demo_entries ! 1) = text_bytes ''motd''" "entry_data (demo_entries ! 1) = [72, 101, 108, 108, 111]"
  by (simp_all add: demo_entries_def good_entry_def entry_name_def entry_data_def)

definition three_nodes :: "vm \<Rightarrow> (u32 \<times> u32 \<times> u32) res" where
  "three_nodes v = res_bind (kmalloc 40 sizeof_fs_node v) (\<lambda>(r, v). res_bind (kmalloc 40 sizeof_fs_node v) (\<lambda>(dv, v).
     res_bind (kmalloc 40 (sizeof_fs_node * 2) v) (\<lambda>(R, v). Inr (r, dv, R))))"

lemma three_nodes_eq: "three_nodes kheap_s0 = Inr (0xC0000008, 0xC00000C0, 0xC0000178)"
  by code_simp

lemma kmalloc_three:
  obtains v1 v2 v3 where "kmalloc 40 sizeof_fs_node kheap_s0 = Inr (0xC0000008, v1)" "kmalloc 40 sizeof_fs_node v1 = Inr (0xC00000C0, v2)"
    "kmalloc 40 (sizeof_fs_node * 2) v2 = Inr (0xC0000178, v3)"
  using three_nodes_eq unfolding three_nodes_def by (auto simp: res_bind_eq_Inr)

theorem initrd_roundtrip_witness:
  "\<exists>s r s' node s''. initrd_initialize 40 demo_junk 0x200000 s = Inr (r, s') \<and> finddir_fs r (text_bytes ''motd'') s' = Inr node \<and>
     read_fs node 1 3 0x1000 s' = Inr (3, s'') \<and> loaded (fs_mem s'') 0x1000 [101, 108, 108]"
proof -
  note f = demo_entries_facts
  obtain v1 v2 v3 where km: "kmalloc 40 sizeof_fs_node kheap_s0 = Inr (0xC0000008, v1)" "kmalloc 40 sizeof_fs_node v1 = Inr (0xC00000C0, v2)"
    "kmalloc 40 (sizeof_fs_node * 2) v2 = Inr (0xC0000178, v3)" by (rule kmalloc_three)
  have es: "length demo_entries \<le> INITRD_MAX_FILES" using f(1) by simp
  obtain hs where im: "builder_main demo_entries = Inr (image_of demo_entries hs)" and hs: "length hs = length demo_entries"
    "\<forall>k < length demo_entries. header_ok demo_entries k (hs ! k)"
    using builder_main_image [OF es f(2)] by metis
  let ?im = "image_of demo_entries hs"
  let ?s = "demo_fs\<lparr>fs_mem := (\<lambda>a. if unat (a - 0x200000) < length ?im then ?im ! unat (a - 0x200000) else 0)\<rparr>"
  have h: "heap_ok 39 (free_bytes (blocks kheap_tree)) (fs_vm ?s)" using kheap_s0_ok by (simp add: demo_fs_def)
  have km': "kmalloc (Suc 39) sizeof_fs_node (fs_vm ?s) = Inr (0xC0000008, v1)" "kmalloc (Suc 39) sizeof_fs_node v1 = Inr (0xC00000C0, v2)"
    "kmalloc (Suc 39) (sizeof_fs_node * of_nat (length demo_entries)) v2 = Inr (0xC0000178, v3)"
    using km f(1) by (simp_all add: demo_fs_def)
  have "headers_of demo_entries hs" using hs es by (simp add: headers_of_def)
  from length_image [OF this] have "length ?im \<le> 11273" unfolding f(3) by simp
  then have ld: "loaded (fs_mem ?s) 0x200000 ?im" by (auto simp: loaded_iff unat_of_nat)
  have "\<exists>s' node s''. initrd_initialize (Suc 39) demo_junk 0x200000 ?s = Inr (0xC0000008, s') \<and> finddir_fs 0xC0000008 (entry_name (demo_entries ! 1)) s' = Inr node \<and>
    read_fs node 1 3 0x1000 s' = Inr (of_nat (length [101, 108, 108 :: u8]), s'') \<and> loaded (fs_mem s'') 0x1000 [101, 108, 108]"
    by (rule initrd_roundtrip [OF es f(2) im ld _ h km']) (use f in simp_all)
  then obtain s' node s'' where "initrd_initialize 40 demo_junk 0x200000 ?s = Inr (0xC0000008, s')"
    "finddir_fs 0xC0000008 (text_bytes ''motd'') s' = Inr node" "read_fs node 1 3 0x1000 s' = Inr (3, s'')"
    "loaded (fs_mem s'') 0x1000 [101, 108, 108]" unfolding f(5) by auto
  then show ?thesis by blast
qed

section \<open>Failures\<close>

text \<open>
  C33: the builder runs past its table. The test \<^verbatim>\<open>file_count > INITRD_MAX_FILES\<close> lets a directory tree with more than 128 entries
  through to entry 128 of an array of 128 entries, after the first 128 were processed without an error.
\<close>

theorem builder_overflow:
  assumes "length es > INITRD_MAX_FILES" "\<forall>e \<in> set es. good_entry e"
  shows "builder_main es = Inl OutOfBounds"
proof -
  let ?b0 = "\<lparr>files = replicate INITRD_MAX_FILES zero_header, file_count = 0, current_offset = of_nat data_start, img = [], fpos = data_start\<rparr>"
  have "nftw es b = Inl OutOfBounds" if "built xs b" "length xs \<le> 128" "length xs + length es > 128" "\<forall>e \<in> set es. good_entry e" for xs es b
    using that
  proof (induction es arbitrary: xs b)
    case (Cons e es)
    show ?case
    proof (cases "length xs = 128")
      case True
      then have "process_entry e b = Inl OutOfBounds" using Cons.prems(1) by (simp add: process_entry_def built_def arr_get_def)
      then show ?thesis by simp
    next
      case False
      then obtain b1 where "process_entry e b = Inr (False, b1)" "built (xs @ [e]) b1" using process_entry_built [of xs b e] Cons.prems by auto
      with Cons.IH [of "xs @ [e]" b1] Cons.prems False show ?thesis by simp
    qed
  qed simp
  from this [of "[]" ?b0 es] assms show ?thesis by (simp add: builder_main_def built_def)
qed

theorem builder_overflow_witness:
  "builder_main (replicate 129 \<lparr>e_path = text_bytes ''initrd/a'', e_beyond = [], e_level = 1, e_kind = FTW_D\<rparr>) = Inl OutOfBounds"
  by (rule builder_overflow) (simp_all add: good_entry_def entry_name_def)

text \<open>
  A read can overrun its file. \<open>initrd_read\<close> compares \<open>offset + size\<close> with the length of the file in 32 bits; if the sum
  wraps around to a value within the file, the size is not cut: \<open>size\<close> bytes, more than the file has, are copied from the file on.
\<close>

theorem initrd_read_overrun:
  assumes "fs_nodes s node = Some nd" "node \<noteq> 0" "load_header (fs_mem s) (file_headers s + sizeof_file_header * inode nd) = h"
    and "off \<le> h_length h" "unat off + unat sz \<ge> 2 ^ 32" "off + sz \<le> h_length h"
  shows "initrd_read node off sz buf s = Inr (sz, s\<lparr>fs_mem := memcpy buf (h_offset h + off) sz (fs_mem s)\<rparr>) \<and>
    unat sz + unat off > unat (h_length h)"
proof -
  have "\<not> h_length h < off" "\<not> h_length h < off + sz" using assms(4,6) by (simp_all add: not_less)
  then have "initrd_read node off sz buf s = Inr (sz, s\<lparr>fs_mem := memcpy buf (h_offset h + off) sz (fs_mem s)\<rparr>)"
    using assms(1-3) by (simp add: initrd_read_def deref_def Let_def)
  moreover have "unat (h_length h) < unat sz + unat off"
    using assms(5) order_less_le_trans [OF unat_u32_less [of "h_length h"]] by (simp add: add.commute)
  ultimately show ?thesis by blast
qed

theorem initrd_read_overrun_witness:
  "\<exists>s'. initrd_read 0x1000 1 0xFFFFFFFF 0x8000 (demo_fs\<lparr>fs_mem := (\<lambda>_. 1), fs_nodes := [0x1000 \<mapsto> demo_junk]\<rparr>) = Inr (0xFFFFFFFF, s')"
proof -
  let ?s = "demo_fs\<lparr>fs_mem := (\<lambda>_. 1), fs_nodes := [0x1000 \<mapsto> demo_junk]\<rparr>"
  have h: "load_header (fs_mem ?s) (file_headers ?s + sizeof_file_header * inode demo_junk) =
      \<lparr>h_magic = 0x101, h_offset = 0x1010101, h_length = 0x1010101, h_parent = 0x1010101, h_number = 0x1010101, h_type = 1\<rparr>"
    by (simp add: load_header_def load16_def load32_def)
  have "initrd_read 0x1000 1 0xFFFFFFFF 0x8000 ?s = Inr (0xFFFFFFFF, ?s\<lparr>fs_mem := memcpy 0x8000 (0x1010101 + 1) 0xFFFFFFFF (fs_mem ?s)\<rparr>)"
    using initrd_read_overrun [OF _ _ h, of "0x1000" 1 "0xFFFFFFFF" "0x8000"] by simp
  then show ?thesis by blast
qed

end
