(* ===== verification/Shell.thy ===== *)
theory Shell
  imports Keyboard Tty Proc Initrd_Builder
begin

text \<open>
  The shell (\<^verbatim>\<open>sh.c\<close>, \<^verbatim>\<open>sh.h\<close>) and the start of the kernel (\<^verbatim>\<open>kernel.c\<close>), on the state of the whole system. The
  states of memory management and the contents of memory are part of the process state \<open>s_os\<close>; the file system works on them through
  \<open>with_fs\<close>. Key presses arrive as interrupts while the shell polls the keyboard buffer: a list of batches of scancodes, one batch
  before each test of the buffer.
\<close>

section \<open>State\<close>

datatype handler = Timer_handler | Keyboard_handler | Page_fault

record shell =
  command_buf :: "u8 list"
  buf_location :: nat
  history :: "u8 list list"
  history_index :: nat
  history_count :: nat

record sys =
  s_ints :: "handler ints"
  s_os :: os
  s_timer :: timer
  s_kb :: kb_state
  s_tty :: tty
  s_fs :: fs
  s_sh :: shell

abbreviation CMD_BUF_SIZE :: nat where "CMD_BUF_SIZE \<equiv> 256"
abbreviation HISTORY_SIZE :: nat where "HISTORY_SIZE \<equiv> 8"

definition with_fs :: "(fs \<Rightarrow> ('a \<times> fs) res) \<Rightarrow> sys \<Rightarrow> ('a \<times> sys) res" where
  "with_fs f s =
     res_bind (f ((s_fs s)\<lparr>fs_vm := os_vm (s_os s), fs_mem := vmem (s_os s)\<rparr>)) (\<lambda>(x, t).
     Inr (x, s\<lparr>s_fs := t, s_os := (s_os s)\<lparr>os_vm := fs_vm t, vmem := fs_mem t\<rparr>\<rparr>))"

definition print_out :: "string \<Rightarrow> parg list \<Rightarrow> sys \<Rightarrow> sys res" where
  "print_out fmt args s = res_bind (printf putchar (text_bytes fmt) args (s_tty s)) (\<lambda>(_, t). Inr (s\<lparr>s_tty := t\<rparr>))"

text \<open>The messages of the memory manager.\<close>

fun print_all :: "(string \<times> u32 list) list \<Rightarrow> sys \<Rightarrow> sys res" where
  "print_all [] s = Inr s"
| "print_all ((fmt, args) # ms) s = res_bind (print_out fmt (map IntArg args) s) (print_all ms)"

definition print_messages :: "sys \<Rightarrow> sys res" where
  "print_messages s =
     (let v = os_vm (s_os s) in print_all (vm_out v) (s\<lparr>s_os := (s_os s)\<lparr>os_vm := v\<lparr>vm_out := []\<rparr>\<rparr>\<rparr>))"

text \<open>The string in an array, which must hold a zero byte, and the string at an address.\<close>

definition array_string :: "u8 list \<Rightarrow> u8 list res" where
  "array_string b = (if 0 \<in> set b then Inr (takeWhile (\<lambda>c. c \<noteq> 0) b) else Inl OutOfBounds)"

definition mem_string :: "mem \<Rightarrow> u32 \<Rightarrow> u8 list res" where
  "mem_string m p = (case strlen m p of None \<Rightarrow> Inl Blocked | Some n \<Rightarrow> Inr (map (\<lambda>i. m (p + of_nat i)) [0..<unat n]))"

section \<open>Reading a line\<close>

definition output_prompt :: "sys \<Rightarrow> sys res" where
  "output_prompt s = print_out ''\<newline>$ '' [] s"

fun key_irqs :: "u8 list \<Rightarrow> kb_state \<Rightarrow> kb_state res" where
  "key_irqs [] kb = Inr kb"
| "key_irqs (sc # scs) kb = res_bind (keyboard_handler sc kb) (key_irqs scs)"

text \<open>\<open>keyboard_getchar\<close> while interrupts arrive.\<close>

fun getchar_irqs :: "u8 list list \<Rightarrow> kb_state \<Rightarrow> (u8 \<times> u8 list list \<times> kb_state) res" where
  "getchar_irqs [] kb = res_bind (keyboard_getchar kb) (\<lambda>(c, kb). Inr (c, [], kb))"
| "getchar_irqs (scs # irqs) kb =
     res_bind (key_irqs scs kb) (\<lambda>kb.
     if is_buffer_empty kb then getchar_irqs irqs kb
     else res_bind (keyboard_getchar kb) (\<lambda>(c, kb). Inr (c, irqs, kb)))"

text \<open>The loop of \<open>wait_for_command\<close>; \<open>n\<close> bounds the characters it reads.\<close>

fun read_line :: "nat \<Rightarrow> u8 list list \<Rightarrow> sys \<Rightarrow> (u8 list list \<times> sys) res" where
  "read_line 0 irqs s = Inl OutOfFuel"
| "read_line (Suc n) irqs s =
     res_bind (getchar_irqs irqs (s_kb s)) (\<lambda>(c, irqs, kb).
     let s = s\<lparr>s_kb := kb\<rparr>; sh = s_sh s in
     if c = 10 then
       res_bind (arr_set (command_buf sh) (buf_location sh) 0) (\<lambda>b.
       res_bind (terminal_newline (s_tty s)) (\<lambda>t.
       Inr (irqs, s\<lparr>s_tty := t, s_sh := sh\<lparr>command_buf := b, buf_location := 0\<rparr>\<rparr>)))
     else if c = 8 then
       if buf_location sh > 0 then
         res_bind (terminal_backspace (s_tty s)) (\<lambda>t.
         read_line n irqs (s\<lparr>s_tty := t, s_sh := sh\<lparr>buf_location := buf_location sh - 1\<rparr>\<rparr>))
       else read_line n irqs s
     else if buf_location sh < CMD_BUF_SIZE - 1 then
       res_bind (arr_set (command_buf sh) (buf_location sh) c) (\<lambda>b.
       res_bind (terminal_putchar c (s_tty s)) (\<lambda>t.
       read_line n irqs (s\<lparr>s_tty := t, s_sh := sh\<lparr>command_buf := b, buf_location := Suc (buf_location sh)\<rparr>\<rparr>)))
     else read_line n irqs s)"

definition store_history :: "shell \<Rightarrow> shell res" where
  "store_history sh =
     (if buf_location sh > 0 then
        res_bind (array_string (command_buf sh)) (\<lambda>str.
        res_bind (arr_get (history sh) (history_index sh)) (\<lambda>row.
        let row = str @ [0] @ drop (Suc (length str)) row;
            i = (history_index sh + 1) mod HISTORY_SIZE in
        Inr (sh\<lparr>history := (history sh)[history_index sh := row],
                history_index := (if history_count sh < HISTORY_SIZE then i + 1 else i)\<rparr>)))
      else Inr sh)"

text \<open>Every character that is read was in the buffer or came with an interrupt, which bounds the loop.\<close>

definition wait_for_command :: "u8 list list \<Rightarrow> sys \<Rightarrow> (u8 list list \<times> sys) res" where
  "wait_for_command irqs s =
     (let s = s\<lparr>s_sh := (s_sh s)\<lparr>buf_location := 0, command_buf := replicate CMD_BUF_SIZE 0\<rparr>\<rparr> in
      res_bind (read_line (Suc (kb_count (s_kb s) + length (concat irqs))) irqs s) (\<lambda>(irqs, s).
      res_bind (store_history (s_sh s)) (\<lambda>sh.
      Inr (irqs, s\<lparr>s_sh := sh\<rparr>))))"

section \<open>Commands\<close>

definition cmd_clear :: "sys \<Rightarrow> sys res" where
  "cmd_clear s = Inr (s\<lparr>s_tty := terminal_clearscreen (s_tty s)\<rparr>)"

definition cmd_uptime :: "sys \<Rightarrow> sys res" where
  "cmd_uptime s = print_out ''Uptime: %d sec\<newline>'' [IntArg (of_int (seconds_passed (s_timer s)))] s"

definition cmd_mem :: "sys \<Rightarrow> sys res" where
  "cmd_mem s =
     res_bind (print_out ''Memory start address : %x\<newline>'' [IntArg (pm_start (vm_pm (os_vm (s_os s))))] s) (\<lambda>s.
     print_out ''Memory avail amount  : %x\<newline>'' [IntArg (pm_amount (vm_pm (os_vm (s_os s))))] s)"

text \<open>\<open>d\<close> bounds the depth of the recursion in the kernel heap.\<close>

definition cmd_version :: "nat \<Rightarrow> sys \<Rightarrow> sys res" where
  "cmd_version d s =
     (let version_node = version_node (s_fs s) in
      res_bind (deref (fs_nodes (s_fs s)) version_node) (\<lambda>nd.
      res_bind (kmalloc d (flength nd) (os_vm (s_os s))) (\<lambda>(buffer, v).
      let s = s\<lparr>s_os := (s_os s)\<lparr>os_vm := v, vmem := memset buffer 0 (flength nd + 1) (vmem (s_os s))\<rparr>\<rparr> in
      res_bind (with_fs (read_fs version_node 0 (flength nd) buffer) s) (\<lambda>(_, s).
      res_bind (mem_string (vmem (s_os s)) buffer) (\<lambda>str.
      res_bind (print_out ''OS version : Shigure OS %s\<newline>'' [StrArg str] s) (\<lambda>s.
      res_bind (print_out ''Developed by reina314\<newline>'' [] s) (\<lambda>s.
      res_bind (kfree d buffer (os_vm (s_os s))) (\<lambda>v.
      print_messages (s\<lparr>s_os := (s_os s)\<lparr>os_vm := v\<rparr>\<rparr>)))))))))"

definition cmd_getpid :: "sys \<Rightarrow> sys res" where
  "cmd_getpid s = res_bind (getpid (s_os s)) (\<lambda>pid. print_out ''PID : %d\<newline>'' [IntArg pid] s)"

definition cmd_logo :: "sys \<Rightarrow> sys res" where
  "cmd_logo s = res_bind (terminal_showlogo (s_tty s)) (\<lambda>t. Inr (s\<lparr>s_tty := t\<rparr>))"

definition cmd_unknown :: "sys \<Rightarrow> sys res" where
  "cmd_unknown s = res_bind (array_string (command_buf (s_sh s))) (\<lambda>str. print_out ''Command not found: %s\<newline>'' [StrArg str] s)"

definition commands :: "nat \<Rightarrow> (string \<times> (sys \<Rightarrow> sys res)) list" where
  "commands d = [(''clear'', cmd_clear), (''uptime'', cmd_uptime), (''mem'', cmd_mem), (''version'', cmd_version d),
     (''getpid'', cmd_getpid), (''logo'', cmd_logo)]"

fun run_command :: "(string \<times> (sys \<Rightarrow> sys res)) list \<Rightarrow> sys \<Rightarrow> sys res" where
  "run_command [] s = cmd_unknown s"
| "run_command ((nm, h) # cs) s =
     res_bind (array_string (command_buf (s_sh s))) (\<lambda>str. if text_bytes nm = str then h s else run_command cs s)"

definition process_command :: "nat \<Rightarrow> sys \<Rightarrow> sys res" where
  "process_command d s = run_command (commands d) s"

text \<open>The endless loop of the shell, cut off after \<open>n\<close> commands.\<close>

fun shell_initialize :: "nat \<Rightarrow> nat \<Rightarrow> u8 list list \<Rightarrow> sys \<Rightarrow> (u8 list list \<times> sys) res" where
  "shell_initialize d 0 irqs s = Inr (irqs, s)"
| "shell_initialize d (Suc n) irqs s =
     res_bind (output_prompt s) (\<lambda>s.
     res_bind (wait_for_command irqs s) (\<lambda>(irqs, s).
     res_bind (process_command d s) (shell_initialize d n irqs)))"

section \<open>Start of the kernel\<close>

definition timer_install :: "handler ints \<Rightarrow> handler ints res" where
  "timer_install s = register_request_handler 0 Timer_handler s"

definition keyboard_install :: "handler ints \<Rightarrow> handler ints res" where
  "keyboard_install s = register_request_handler 1 Keyboard_handler s"

abbreviation MULTIBOOT_BOOTLOADER_MAGIC :: u32 where "MULTIBOOT_BOOTLOADER_MAGIC \<equiv> 0x2BADB002"

text \<open>What the boot loader hands over: the flags, the memory map, and the first module, which is the RAM disk.\<close>

record boot_info =
  mb_flags :: u32
  mb_mmap :: "mmap_entry list"
  mb_mod_start :: u32
  mb_mod_end :: u32

text \<open>What the linker decides: the addresses of the descriptor tables and of the assembly stubs, and the size of the kernel.\<close>

record layout =
  gdt_addr :: u32
  idt_addr :: u32
  isr_stub_table :: "u32 list"
  irq_stub_table :: "u32 list"
  kernel_size :: u32

text \<open>The installation of the interrupts and of the devices.\<close>

definition install_devices :: "layout \<Rightarrow> sys \<Rightarrow> sys res" where
  "install_devices l s =
     res_bind (gdt_install (gdt_addr l) (s_ints s)) (\<lambda>i.
     let (i, fl) = idt_install (idt_addr l) i; s = s\<lparr>s_os := (s_os s)\<lparr>if_flag := fl\<rparr>\<rparr> in
     res_bind (isr_install (isr_stub_table l) i) (\<lambda>i.
     res_bind (irq_install (irq_stub_table l) i) (\<lambda>i.
     let t = s_tty s; t = terminal_initialize (t\<lparr>tty_io := serial_initialize SERIAL_COM1_BASE (tty_io t)\<rparr>) in
     res_bind (timer_install i) (\<lambda>i.
     res_bind (keyboard_install i) (\<lambda>i.
     Inr (s\<lparr>s_ints := i, s_tty := t\<rparr>))))))"

text \<open>The test of the file system: two files are read into a buffer of 64 bytes and printed.\<close>

definition test_initrd :: "nat \<Rightarrow> sys \<Rightarrow> sys res" where
  "test_initrd d s =
     res_bind (kmalloc d 64 (os_vm (s_os s))) (\<lambda>(buffer, v).
     let s = s\<lparr>s_os := (s_os s)\<lparr>os_vm := v\<rparr>\<rparr>; version_node = version_node (s_fs s) in
     res_bind (deref (fs_nodes (s_fs s)) version_node) (\<lambda>nd.
     res_bind (with_fs (read_fs version_node 0 (flength nd) buffer) s) (\<lambda>(_, s).
     res_bind (mem_string (vmem (s_os s)) buffer) (\<lambda>str.
     res_bind (print_out ''Version %s\<newline>'' [StrArg str] s) (\<lambda>s.
     res_bind (finddir_fs (fs_root (s_fs s)) (text_bytes ''test/test.txt'') (s_fs s)) (\<lambda>test.
     res_bind (deref (fs_nodes (s_fs s)) test) (\<lambda>nd.
     res_bind (with_fs (read_fs test 0 (flength nd) buffer) s) (\<lambda>(_, s).
     res_bind (mem_string (vmem (s_os s)) buffer) (\<lambda>str.
     res_bind (print_out ''%s'' [StrArg str] s) (\<lambda>s.
     res_bind (kfree d buffer (os_vm (s_os s))) (\<lambda>v.
     print_messages (s\<lparr>s_os := (s_os s)\<lparr>os_vm := v\<rparr>\<rparr>))))))))))))"

text \<open>\<open>kernel_main\<close> up to \<open>n\<close> commands of the shell; \<open>keys\<close> are the interrupts of the keyboard, \<open>junk\<close> is fresh memory.\<close>

definition kernel_main ::
  "nat \<Rightarrow> fs_node \<Rightarrow> layout \<Rightarrow> nat \<Rightarrow> u8 list list \<Rightarrow> boot_info \<Rightarrow> u32 \<Rightarrow> u32 \<Rightarrow> sys \<Rightarrow> (u8 list list \<times> sys) res" where
  "kernel_main d junk l n keys mbt mb_magic initial_stack s =
     (if mb_magic \<noteq> MULTIBOOT_BOOTLOADER_MAGIC then Inl (Panic ''Invalid magic number\<newline>'')
      else
        let initrd_location = mb_mod_start mbt; s = s\<lparr>s_os := (s_os s)\<lparr>initial_esp := initial_stack\<rparr>\<rparr> in
        if drop_bit 6 (mb_flags mbt) AND 1 = 0 then Inl (Panic ''Invalid memory map given by GRUB bootloader'')
        else
          res_bind (install_devices l s) (\<lambda>s.
          let v = os_vm (s_os s); v = v\<lparr>vm_pm := pm_initialize (mb_mmap mbt) (kernel_size l) (mb_mod_end mbt) initrd_location (vm_pm v)\<rparr> in
          res_bind (vm_initialize d Page_fault (s_ints s, v)) (\<lambda>(i, v).
          res_bind (proc_initialize d ((s_os s)\<lparr>os_vm := v\<rparr>)) (\<lambda>os.
          res_bind (with_fs (initrd_initialize d junk initrd_location) (s\<lparr>s_ints := i, s_os := os\<rparr>)) (\<lambda>(root, s).
          let s = s\<lparr>s_fs := (s_fs s)\<lparr>fs_root := root\<rparr>\<rparr> in
          res_bind (terminal_showlogo (s_tty s)) (\<lambda>t.
          res_bind (test_initrd d (s\<lparr>s_tty := t\<rparr>)) (\<lambda>s.
          res_bind (print_out ''\<newline>===== OS successfully booted! =====\<newline>'' [] s) (\<lambda>s.
          shell_initialize d n keys (s\<lparr>s_os := (s_os s)\<lparr>if_flag := True\<rparr>\<rparr>)))))))))"

end
