(* ===== verification/Shell_Spec.thy ===== *)
theory Shell_Spec
  imports Proc_Spec Tty_Spec Initrd_Spec Shell
begin

text \<open>
  The shell reads lines: the keyboard with its interrupts delivers a stream of characters (\<open>pending\<close>), the loop of
  \<open>wait_for_command\<close> is a line editor on it (\<open>edit\<close>), and a round of the shell runs the command that was typed. The last sections show
  that the history is never written and that keys without a character lead the editor out of the screen.
\<close>

section \<open>Keys\<close>

definition key_chars :: "u8 list \<Rightarrow> u8 list" where
  "key_chars scs = List.map_filter key_char scs"

text \<open>The characters still to be read, in the buffer and in the interrupts to come.\<close>

definition pending :: "u8 list list \<Rightarrow> kb_state \<Rightarrow> u8 list" where
  "pending irqs kb = kb_contents kb @ key_chars (concat irqs)"

text \<open>No batch of interrupts overflows the buffer, from which one character is read after each batch.\<close>

fun no_overflow :: "nat \<Rightarrow> u8 list list \<Rightarrow> bool" where
  "no_overflow n [] = True"
| "no_overflow n (scs # irqs) = (n + length (key_chars scs) \<le> 127 \<and> no_overflow (n + length (key_chars scs) - 1) irqs)"

lemma key_chars_simps [simp]:
  "key_chars [] = []" "key_chars (sc # scs) = (case key_char sc of None \<Rightarrow> key_chars scs | Some c \<Rightarrow> c # key_chars scs)"
  "key_chars (scs @ scs') = key_chars scs @ key_chars scs'"
  by (auto simp: key_chars_def map_filter_simps map_filter_def split: option.splits)

lemma length_key_chars: "length (key_chars scs) \<le> length scs"
  by (induction scs) (auto split: option.splits)

lemma key_irqs_contents:
  assumes "kb_ok kb" "length (kb_contents kb) + length (key_chars scs) \<le> 127"
  shows "\<exists>kb'. key_irqs scs kb = Inr kb' \<and> kb_ok kb' \<and> kb_contents kb' = kb_contents kb @ key_chars scs"
  using assms
proof (induction scs arbitrary: kb)
  case (Cons sc scs)
  obtain kb1 where kb1: "keyboard_handler sc kb = Inr kb1" "kb_ok kb1"
    "kb_contents kb1 = (case key_char sc of None \<Rightarrow> kb_contents kb
       | Some c \<Rightarrow> if length (kb_contents kb) < 127 then kb_contents kb @ [c] else kb_contents kb)"
    using keyboard_handler_spec [OF Cons.prems(1)] by blast
  with Cons.IH [of kb1] Cons.prems(2) show ?case by (auto split: option.splits)
qed simp

lemma getchar_irqs_first:
  assumes "kb_ok kb" "no_overflow (length (kb_contents kb)) irqs" "pending irqs kb = c # rest"
  shows "\<exists>irqs' kb'. getchar_irqs irqs kb = Inr (c, irqs', kb') \<and> kb_ok kb' \<and> no_overflow (length (kb_contents kb')) irqs' \<and> pending irqs' kb' = rest"
  using assms
proof (induction irqs arbitrary: kb)
  case Nil
  then show ?case using kb_get_first [of kb c rest] by (auto simp: pending_def)
next
  case (Cons scs irqs)
  obtain kb1 where kb1: "key_irqs scs kb = Inr kb1" "kb_ok kb1" "kb_contents kb1 = kb_contents kb @ key_chars scs"
    using key_irqs_contents [OF Cons.prems(1)] Cons.prems(2) by auto
  have p: "pending irqs kb1 = c # rest" using Cons.prems(3) kb1(3) by (simp add: pending_def)
  show ?case
  proof (cases "kb_contents kb1")
    case Nil
    then show ?thesis using Cons.IH [OF kb1(2) _ p] Cons.prems(2) kb1 by (auto simp: is_buffer_empty_iff)
  next
    case (Cons c' cs)
    then obtain kb2 where kb2: "keyboard_getchar kb1 = Inr (c', kb2)" "kb_ok kb2" "kb_contents kb2 = cs" using kb_get_first [OF kb1(2)] by blast
    moreover have "length cs = length (kb_contents kb) + length (key_chars scs) - 1" using Cons kb1(3) by (metis length_append length_Cons diff_Suc_1)
    ultimately show ?thesis using Cons p kb1 Cons.prems(2) by (auto simp: is_buffer_empty_iff pending_def)
  qed
qed

section \<open>The cursor\<close>

definition cursor :: "tty \<Rightarrow> nat" where
  "cursor t = unat (terminal_y t) * 80 + unat (terminal_x t)"

lemma putchar_cursor:
  assumes "term_ok t" "c \<noteq> 0" "c \<noteq> 10"
  shows "\<exists>t'. terminal_putchar c t = Inr t' \<and> term_ok t' \<and> cursor t' = (if cursor t = 1999 then 1920 else Suc (cursor t))"
proof -
  obtain t' where t': "terminal_putchar c t = Inr t'" "term_ok t'" "screen_of t' = screen_put (terminal_color t) c (screen_of t)"
    using putchar_refines [OF assms(1), of c] by blast
  have "unat (terminal_x t) < 80" "unat (terminal_y t) < 25" using assms(1) by (auto simp: term_ok_def word_less_nat_alt)
  then have "cursor t' = (if cursor t = 1999 then 1920 else Suc (cursor t))"
    using t'(3) assms(2,3) by (auto simp: screen_of_def screen_put_def screen_cell_def screen_wrap_def screen_scroll_def cursor_def split: if_splits)
  then show ?thesis using t'(1,2) by blast
qed

lemma backspace_cursor:
  assumes "term_ok t" "0 < cursor t"
  shows "\<exists>t'. terminal_backspace t = Inr t' \<and> term_ok t' \<and> cursor t' = cursor t - 1"
proof -
  have "terminal_x t \<noteq> 0 \<or> terminal_y t \<noteq> 0" using assms(2) by (auto simp: cursor_def)
  from backspace_inside [OF assms(1) this] show ?thesis by (auto simp: screen_of_def Let_def cursor_def)
qed

section \<open>The line editor\<close>

text \<open>What is on the line when the characters arrive, up to the newline, and what is left for the next line.\<close>

fun edit :: "u8 list \<Rightarrow> u8 list \<Rightarrow> (u8 list \<times> u8 list) option" where
  "edit line [] = None"
| "edit line (c # cs) =
     (if c = 10 then Some (line, cs)
      else if c = 8 then edit (butlast line) cs
      else edit (if length line < 255 then line @ [c] else line) cs)"

lemma edit_set: "edit line cs = Some (l, rest) \<Longrightarrow> set l \<subseteq> set line \<union> set cs \<and> set rest \<subseteq> set cs"
  by (induction line cs rule: edit.induct) (auto split: if_splits dest: in_set_butlastD)

definition line_in :: "u8 list \<Rightarrow> sys \<Rightarrow> bool" where
  "line_in line s \<longleftrightarrow> length (command_buf (s_sh s)) = 256 \<and> take (length line) (command_buf (s_sh s)) = line \<and>
     buf_location (s_sh s) = length line \<and> length line \<le> 255 \<and> term_ok (s_tty s) \<and> length line < cursor (s_tty s)"

definition keys_in :: "u8 list \<Rightarrow> u8 list list \<Rightarrow> sys \<Rightarrow> bool" where
  "keys_in cs irqs s \<longleftrightarrow> kb_ok (s_kb s) \<and> no_overflow (length (kb_contents (s_kb s))) irqs \<and> pending irqs (s_kb s) = cs"

text \<open>The changes of the loop: keyboard, terminal and line buffer.\<close>

definition line_state :: "sys \<Rightarrow> kb_state \<Rightarrow> tty \<Rightarrow> u8 list \<Rightarrow> nat \<Rightarrow> sys" where
  "line_state s kb t b n = s\<lparr>s_kb := kb, s_tty := t, s_sh := (s_sh s)\<lparr>command_buf := b, buf_location := n\<rparr>\<rparr>"

lemma line_state_id: "line_state s (s_kb s) (s_tty s) (command_buf (s_sh s)) (buf_location (s_sh s)) = s"
  by (simp add: line_state_def)

lemma line_state_simps [simp]:
  "s_kb (line_state s kb t b n) = kb" "s_tty (line_state s kb t b n) = t" "command_buf (s_sh (line_state s kb t b n)) = b"
  "buf_location (s_sh (line_state s kb t b n)) = n" "line_state (line_state s kb t b n) kb' t' b' n' = line_state s kb' t' b' n'"
  by (simp_all add: line_state_def)

lemma line_state_kb: "s\<lparr>s_kb := kb\<rparr> = line_state s kb (s_tty s) (command_buf (s_sh s)) (buf_location (s_sh s))"
  by (simp add: line_state_def)

declare read_line.simps(2) [simp del]

text \<open>One character: the end of the line, or another state with the edited line.\<close>

lemma read_char_newline:
  assumes "keys_in (10 # cs) irqs s" "line_in line s"
  shows "\<exists>irqs' kb t b. read_line (Suc n) irqs s = Inr (irqs', line_state s kb t b 0) \<and> keys_in cs irqs' (line_state s kb t b 0) \<and>
    term_ok t \<and> length b = 256 \<and> take (Suc (length line)) b = line @ [0]"
proof -
  obtain irqs' kb where k: "getchar_irqs irqs (s_kb s) = Inr (10, irqs', kb)" "kb_ok kb" "no_overflow (length (kb_contents kb)) irqs'" "pending irqs' kb = cs"
    using getchar_irqs_first [of "s_kb s" irqs 10 cs] assms(1) by (auto simp: keys_in_def)
  let ?b = "command_buf (s_sh s)" and ?n = "length line"
  have l: "length ?b = 256" "take ?n ?b = line" "buf_location (s_sh s) = ?n" "?n \<le> 255" "term_ok (s_tty s)" using assms(2) by (auto simp: line_in_def)
  obtain t where t: "terminal_newline (s_tty s) = Inr t" "term_ok t" using putchar_refines [OF l(5), of 10] by (auto simp: terminal_newline_def)
  have "take (Suc ?n) (?b[?n := 0]) = line @ [0]" using l by (simp add: take_Suc_conv_app_nth)
  moreover have "read_line (Suc n) irqs s = Inr (irqs', line_state s kb t (?b[?n := 0]) 0)"
    using k(1) l t(1) by (simp add: read_line.simps(2) arr_set_def line_state_def Let_def)
  ultimately show ?thesis using k(2-4) t(2) l(1)
    by (intro exI [of _ irqs'] exI [of _ kb] exI [of _ t] exI [of _ "?b[?n := 0]"]) (simp add: keys_in_def)
qed

lemma read_char_edit:
  assumes "keys_in (c # cs) irqs s" "line_in line s" "c \<noteq> 10" "c \<noteq> 0"
    and line': "line' = (if c = 8 then butlast line else if length line < 255 then line @ [c] else line)"
  shows "\<exists>irqs' kb t b. read_line (Suc n) irqs s = read_line n irqs' (line_state s kb t b (length line')) \<and>
    keys_in cs irqs' (line_state s kb t b (length line')) \<and> line_in line' (line_state s kb t b (length line'))"
proof -
  obtain irqs' kb where k: "getchar_irqs irqs (s_kb s) = Inr (c, irqs', kb)" "kb_ok kb" "no_overflow (length (kb_contents kb)) irqs'" "pending irqs' kb = cs"
    using getchar_irqs_first [of "s_kb s" irqs c cs] assms(1) by (auto simp: keys_in_def)
  let ?b = "command_buf (s_sh s)" and ?n = "length line"
  have l: "length ?b = 256" "take ?n ?b = line" "buf_location (s_sh s) = ?n" "?n \<le> 255" "term_ok (s_tty s)" "?n < cursor (s_tty s)"
    using assms(2) by (auto simp: line_in_def)
  have same: "\<exists>irqs' kb t b. read_line (Suc n) irqs s = read_line n irqs' (line_state s kb t b ?n) \<and>
      keys_in cs irqs' (line_state s kb t b ?n) \<and> line_in line (line_state s kb t b ?n)" if "read_line (Suc n) irqs s = read_line n irqs' (s\<lparr>s_kb := kb\<rparr>)"
    using that k(2-4) l unfolding line_state_kb l(3)
    by (intro exI [of _ irqs'] exI [of _ kb] exI [of _ "s_tty s"] exI [of _ ?b]) (simp add: keys_in_def line_in_def)
  consider "c = 8" "line = []" | "c = 8" "line \<noteq> []" | "c \<noteq> 8" "?n < 255" | "c \<noteq> 8" "\<not> ?n < 255" by blast
  then show ?thesis
  proof cases
    case 1
    then show ?thesis using same k(1) l line' by (simp add: read_line.simps(2) Let_def)
  next
    case 2
    obtain t where t: "terminal_backspace (s_tty s) = Inr t" "term_ok t" "cursor t = cursor (s_tty s) - 1" using backspace_cursor [OF l(5)] l(6) by auto
    have "take (?n - 1) ?b = butlast line" using butlast_take [of ?n ?b] l(1,2,4) by simp
    moreover have "?n - 1 < cursor (s_tty s) - 1" using l(6) 2(2) by (cases line) auto
    moreover have "read_line (Suc n) irqs s = read_line n irqs' (line_state s kb t ?b (?n - 1))"
      using k(1) l t(1) 2 by (simp add: read_line.simps(2) line_state_def Let_def)
    ultimately show ?thesis using k(2-4) t(2,3) l line' 2
      by (intro exI [of _ irqs'] exI [of _ kb] exI [of _ t] exI [of _ ?b]) (auto simp: keys_in_def line_in_def)
  next
    case 3
    obtain t where t: "terminal_putchar c (s_tty s) = Inr t" "term_ok t" "cursor t = (if cursor (s_tty s) = 1999 then 1920 else Suc (cursor (s_tty s)))"
      using putchar_cursor [OF l(5) assms(4,3)] by blast
    have "take (Suc ?n) (?b[?n := c]) = line @ [c]" using l by (simp add: take_Suc_conv_app_nth)
    moreover have "read_line (Suc n) irqs s = read_line n irqs' (line_state s kb t (?b[?n := c]) (Suc ?n))"
      using k(1) l t(1) 3 assms(3) by (simp add: read_line.simps(2) arr_set_def line_state_def Let_def)
    ultimately show ?thesis using k(2-4) t(2,3) l line' 3
      by (intro exI [of _ irqs'] exI [of _ kb] exI [of _ t] exI [of _ "?b[?n := c]"]) (auto simp: keys_in_def line_in_def)
  next
    case 4
    then show ?thesis using same k(1) l line' assms(3) by (simp add: read_line.simps(2) Let_def)
  qed
qed

lemma read_line_edits:
  assumes "keys_in cs irqs s" "line_in line s" "edit line cs = Some (l, rest)" "0 \<notin> set cs" "length cs \<le> n"
  shows "\<exists>irqs' kb t b. read_line n irqs s = Inr (irqs', line_state s kb t b 0) \<and> keys_in rest irqs' (line_state s kb t b 0) \<and>
    term_ok t \<and> length b = 256 \<and> take (Suc (length l)) b = l @ [0]"
  using assms
proof (induction cs arbitrary: n irqs s line)
  case (Cons c cs)
  then obtain m where n: "n = Suc m" "length cs \<le> m" by (cases n) auto
  show ?case
  proof (cases "c = 10")
    case True
    then show ?thesis using read_char_newline [of cs irqs s line m] Cons.prems n(1) by simp
  next
    case False
    let ?line = "if c = 8 then butlast line else if length line < 255 then line @ [c] else line"
    obtain irqs1 kb t b where r: "read_line n irqs s = read_line m irqs1 (line_state s kb t b (length ?line))"
      "keys_in cs irqs1 (line_state s kb t b (length ?line))" "line_in ?line (line_state s kb t b (length ?line))"
      using read_char_edit [OF Cons.prems(1,2) False _ refl, of m] Cons.prems(4) n(1) by auto
    have "edit ?line cs = Some (l, rest)" using Cons.prems(3) False by (simp split: if_splits)
    from Cons.IH [OF r(2,3) this _ n(2)] Cons.prems(4) show ?thesis unfolding r(1) by simp
  qed
qed simp

lemma array_string_line:
  assumes "take (Suc (length l)) b = l @ [0]" "0 \<notin> set l"
  shows "array_string b = Inr l"
proof -
  have b: "b = l @ [0] @ drop (Suc (length l)) b" using append_take_drop_id [of "Suc (length l)" b] assms(1) by simp
  have "takeWhile (\<lambda>c. c \<noteq> 0) b = l" using assms(2) by (subst b) (auto simp: takeWhile_append)
  moreover have "0 \<in> set b" by (subst b) simp
  ultimately show ?thesis by (simp add: array_string_def)
qed

lemma length_pending: "length (pending irqs kb) \<le> Suc (kb_count kb + length (concat irqs))"
  using length_key_chars [of "concat irqs"] by (simp add: pending_def le_SucI)

lemma wait_for_command_line:
  assumes "keys_in cs irqs s" "edit [] cs = Some (l, rest)" "0 \<notin> set cs" "term_ok (s_tty s)" "0 < cursor (s_tty s)"
  shows "\<exists>irqs' kb t b. wait_for_command irqs s = Inr (irqs', line_state s kb t b 0) \<and> keys_in rest irqs' (line_state s kb t b 0) \<and>
    term_ok t \<and> array_string b = Inr l"
proof -
  let ?s = "s\<lparr>s_sh := (s_sh s)\<lparr>buf_location := 0, command_buf := replicate CMD_BUF_SIZE 0\<rparr>\<rparr>"
  have k: "keys_in cs irqs ?s" and i: "line_in [] ?s" using assms(1,4,5) by (simp_all add: keys_in_def line_in_def)
  have "length cs \<le> Suc (kb_count (s_kb ?s) + length (concat irqs))" using length_pending [of irqs "s_kb s"] assms(1) by (simp add: keys_in_def)
  then obtain irqs' kb t b where r: "read_line (Suc (kb_count (s_kb ?s) + length (concat irqs))) irqs ?s = Inr (irqs', line_state ?s kb t b 0)"
    "keys_in rest irqs' (line_state ?s kb t b 0)" "term_ok t" "take (Suc (length l)) b = l @ [0]"
    using read_line_edits [OF k i assms(2,3)] by metis
  have e: "line_state ?s kb t b 0 = line_state s kb t b 0" by (simp add: line_state_def)
  have "0 \<notin> set l" using edit_set [OF assms(2)] assms(3) by auto
  then have "array_string b = Inr l" using array_string_line r(4) by blast
  moreover have "store_history (s_sh (line_state s kb t b 0)) = Inr (s_sh (line_state s kb t b 0))" by (simp add: store_history_def)
  then have "wait_for_command irqs s = Inr (irqs', line_state s kb t b 0)"
    using r(1) unfolding wait_for_command_def Let_def e by simp
  ultimately show ?thesis using r(2,3) unfolding e by blast
qed

section \<open>Commands\<close>

lemma run_command_lookup:
  assumes "array_string (command_buf (s_sh s)) = Inr l"
  shows "run_command cs s = (case map_of (map (\<lambda>(nm, h). (text_bytes nm, h)) cs) l of None \<Rightarrow> cmd_unknown s | Some h \<Rightarrow> h s)"
  using assms by (induction cs) auto

lemma newline_cursor:
  assumes "term_ok t"
  shows "\<exists>t'. terminal_putchar 10 t = Inr t' \<and> term_ok t' \<and> cursor t' = min 24 (unat (terminal_y t) + 1) * 80"
proof -
  obtain t' where t': "terminal_putchar 10 t = Inr t'" "term_ok t'" "screen_of t' = screen_put (terminal_color t) 10 (screen_of t)"
    using putchar_refines [OF assms, of 10] by blast
  have "unat (terminal_y t) < 25" using assms by (auto simp: term_ok_def word_less_nat_alt)
  then have "cursor t' = min 24 (unat (terminal_y t) + 1) * 80"
    using t'(3) by (auto simp: screen_of_def screen_put_def screen_cell_def screen_wrap_def screen_scroll_def cursor_def min_def split: if_splits)
  then show ?thesis using t'(1,2) by blast
qed

lemma prompt_cursor:
  assumes "term_ok (s_tty s)"
  shows "\<exists>t. output_prompt s = Inr (s\<lparr>s_tty := t\<rparr>) \<and> term_ok t \<and> cursor t = min 24 (unat (terminal_y (s_tty s)) + 1) * 80 + 2"
proof -
  let ?p = "min 24 (unat (terminal_y (s_tty s)) + 1) * 80"
  obtain t1 where t1: "terminal_putchar 10 (s_tty s) = Inr t1" "term_ok t1" "cursor t1 = ?p" using newline_cursor [OF assms] by blast
  have p: "?p < 1998" by (simp add: min_def)
  obtain t2 where t2: "terminal_putchar 36 t1 = Inr t2" "term_ok t2" "cursor t2 = ?p + 1"
    using putchar_cursor [OF t1(2), of 36] p unfolding t1(3) by auto
  obtain t3 where t3: "terminal_putchar 32 t2 = Inr t3" "term_ok t3" "cursor t3 = ?p + 2"
    using putchar_cursor [OF t2(2), of 32] p unfolding t2(3) by auto
  have "printf putchar (text_bytes ''\<newline>$ '') [] (s_tty s) = Inr (3, t3)"
    using t1(1) t2(1) t3(1) by (simp add: printf_def putchar_def Let_def)
  then have "output_prompt s = Inr (s\<lparr>s_tty := t3\<rparr>)" by (simp add: output_prompt_def print_out_def)
  then show ?thesis using t3(2,3) by blast
qed

text \<open>
  C30: the shell runs what is typed. Let the terminal and the keyboard buffer be in order, let no batch of key presses overflow the
  buffer, and let the characters of the keys make up a line \<open>l\<close>: the editor of \<open>edit\<close>, in which backspace removes
  the last character and a full line takes no more. Then a round of the shell prints its prompt, reads exactly this line,
  without leaving the line buffer or the screen, and runs the command of the table with this name, or reports an unknown command; the
  keys behind the line wait for the next round.
\<close>

theorem shell_runs_line:
  assumes "keys_in cs irqs s" "edit [] cs = Some (l, rest)" "0 \<notin> set cs" "term_ok (s_tty s)"
  shows "\<exists>irqs' s1. shell_initialize d (Suc n) irqs s =
      res_bind (case map_of (map (\<lambda>(nm, h). (text_bytes nm, h)) (commands d)) l of None \<Rightarrow> cmd_unknown s1 | Some h \<Rightarrow> h s1) (shell_initialize d n irqs') \<and>
    array_string (command_buf (s_sh s1)) = Inr l \<and> keys_in rest irqs' s1 \<and> term_ok (s_tty s1) \<and>
    s_os s1 = s_os s \<and> s_fs s1 = s_fs s \<and> s_timer s1 = s_timer s \<and> s_ints s1 = s_ints s"
proof -
  obtain t where t: "output_prompt s = Inr (s\<lparr>s_tty := t\<rparr>)" "term_ok t" "0 < cursor t" using prompt_cursor [OF assms(4)] by auto
  have k: "keys_in cs irqs (s\<lparr>s_tty := t\<rparr>)" using assms(1) by (simp add: keys_in_def)
  obtain irqs' kb t' b where w: "wait_for_command irqs (s\<lparr>s_tty := t\<rparr>) = Inr (irqs', line_state (s\<lparr>s_tty := t\<rparr>) kb t' b 0)"
    "keys_in rest irqs' (line_state (s\<lparr>s_tty := t\<rparr>) kb t' b 0)" "term_ok t'" "array_string b = Inr l"
    using wait_for_command_line [OF k assms(2,3)] t(2,3) by auto
  let ?s1 = "line_state (s\<lparr>s_tty := t\<rparr>) kb t' b 0"
  have "process_command d ?s1 = (case map_of (map (\<lambda>(nm, h). (text_bytes nm, h)) (commands d)) l of None \<Rightarrow> cmd_unknown ?s1 | Some h \<Rightarrow> h ?s1)"
    unfolding process_command_def by (rule run_command_lookup) (simp add: w(4))
  then have "shell_initialize d (Suc n) irqs s = res_bind (case map_of (map (\<lambda>(nm, h). (text_bytes nm, h)) (commands d)) l of
      None \<Rightarrow> cmd_unknown ?s1 | Some h \<Rightarrow> h ?s1) (shell_initialize d n irqs')"
    using t(1) w(1) by simp
  then show ?thesis using w(2-4) by (intro exI [of _ irqs'] exI [of _ ?s1]) (simp add: line_state_def)
qed

definition demo_sys :: sys where
  "demo_sys = \<lparr>s_ints = ints_init, s_os = proc_s0, s_timer = \<lparr>timer_ticks = 0, seconds_passed = 0\<rparr>, s_kb = kb_init, s_tty = tty0, s_fs = demo_fs,
     s_sh = \<lparr>command_buf = replicate 256 0, buf_location = 0, history = replicate 8 (replicate 256 0), history_index = 0, history_count = 0\<rparr>\<rparr>"

theorem shell_runs_line_witness:
  "\<exists>irqs' s1. shell_initialize 40 (Suc 0) [[0x26], [0x18, 0x2D], [], [0x0E], [0x22, 0xA2], [0x18], [0x1C]] demo_sys =
     res_bind (cmd_logo s1) (shell_initialize 40 0 irqs') \<and> array_string (command_buf (s_sh s1)) = Inr (text_bytes ''logo'')"
proof -
  let ?irqs = "[[0x26], [0x18, 0x2D], [], [0x0E], [0x22, 0xA2], [0x18], [0x1C]] :: u8 list list"
  let ?cs = "[108, 111, 120, 8, 103, 111, 10] :: u8 list"
  have c: "key_chars (concat ?irqs) = ?cs" by code_simp
  have o: "no_overflow 0 ?irqs" by code_simp
  have k: "keys_in ?cs ?irqs demo_sys"
    using c o kb_contents_init kb_ok_init unfolding keys_in_def pending_def by (simp add: demo_sys_def)
  have e: "edit [] ?cs = Some (text_bytes ''logo'', [])" by simp
  have m: "map_of (map (\<lambda>(nm, h). (text_bytes nm, h)) (commands 40)) (text_bytes ''logo'') = Some cmd_logo" by (simp add: commands_def)
  have "term_ok (s_tty demo_sys)" by (simp add: demo_sys_def tty0_ok)
  moreover have "0 \<notin> set ?cs" by simp
  ultimately show ?thesis using shell_runs_line [OF k e, of 40 0, unfolded m option.case] by blast
qed

section \<open>History\<close>

lemma read_line_history:
  "read_line n irqs s = Inr (irqs', s') \<Longrightarrow> buf_location (s_sh s') = 0 \<and> history (s_sh s') = history (s_sh s) \<and>
     history_index (s_sh s') = history_index (s_sh s) \<and> history_count (s_sh s') = history_count (s_sh s)"
proof (induction n arbitrary: irqs s)
  case (Suc n)
  from Suc.prems show ?case unfolding read_line.simps(2) Let_def
    by (auto elim!: res_bindE dest!: Suc.IH split: if_splits)
qed simp

text \<open>
  The history of the shell stays empty. \<open>wait_for_command\<close> sets \<open>buf_location\<close> to 0 when the line ends and then tests it to see
  whether there is a line to store, so no command ever reaches the history, whatever is typed.
\<close>

theorem history_never_stored:
  assumes "wait_for_command irqs s = Inr (irqs', s')"
  shows "history (s_sh s') = history (s_sh s) \<and> history_index (s_sh s') = history_index (s_sh s) \<and> history_count (s_sh s') = history_count (s_sh s)"
  using assms unfolding wait_for_command_def Let_def
  by (auto elim!: res_bindE dest!: read_line_history simp: store_history_def)

theorem history_never_stored_witness:
  "\<exists>irqs' s'. wait_for_command [[0x1E], [0x1C]] (demo_sys\<lparr>s_tty := tty0\<lparr>terminal_y := 1\<rparr>\<rparr>) = Inr (irqs', s') \<and> history (s_sh s') = replicate 8 (replicate 256 0)"
proof -
  let ?s = "demo_sys\<lparr>s_tty := tty0\<lparr>terminal_y := 1\<rparr>\<rparr>"
  have c: "key_chars (concat [[0x1E], [0x1C]]) = [97, 10]" "no_overflow 0 [[0x1E], [0x1C]]" by code_simp+
  have k: "keys_in [97, 10] [[0x1E], [0x1C]] ?s"
    using c kb_contents_init kb_ok_init unfolding keys_in_def pending_def by (simp add: demo_sys_def)
  have "term_ok (s_tty ?s)" "0 < cursor (s_tty ?s)" using tty0_ok(1) by (simp_all add: term_ok_def cursor_def)
  then obtain irqs' s' where w: "wait_for_command [[0x1E], [0x1C]] ?s = Inr (irqs', s')"
    using wait_for_command_line [OF k, of "[97]" "[]"] by auto
  have "history (s_sh s') = history (s_sh ?s)" using history_never_stored [OF w] by blast
  then show ?thesis using w by (simp add: demo_sys_def)
qed

section \<open>Keys without a character\<close>

text \<open>The line buffer holds \<open>n\<close> characters and the cursor is at \<open>p\<close>.\<close>

definition raw_in :: "nat \<Rightarrow> nat \<Rightarrow> sys \<Rightarrow> bool" where
  "raw_in n p s \<longleftrightarrow> length (command_buf (s_sh s)) = 256 \<and> buf_location (s_sh s) = n \<and> term_ok (s_tty s) \<and> cursor (s_tty s) = p"

lemma nul_step:
  assumes "keys_in (0 # cs) irqs s" "raw_in n p s" "n < 255"
  shows "\<exists>irqs' s'. read_line (Suc k) irqs s = read_line k irqs' s' \<and> keys_in cs irqs' s' \<and> raw_in (Suc n) p s'"
proof -
  obtain irqs' kb where g: "getchar_irqs irqs (s_kb s) = Inr (0, irqs', kb)" "kb_ok kb" "no_overflow (length (kb_contents kb)) irqs'" "pending irqs' kb = cs"
    using getchar_irqs_first [of "s_kb s" irqs 0 cs] assms(1) by (auto simp: keys_in_def)
  obtain t where t: "terminal_putchar 0 (s_tty s) = Inr t" "term_ok t" "screen_of t = screen_put (terminal_color (s_tty s)) 0 (screen_of (s_tty s))"
    using putchar_refines [of "s_tty s" 0] assms(2) by (auto simp: raw_in_def)
  have "cursor t = p" using t(3) assms(2)
    by (auto simp: raw_in_def term_ok_def word_less_nat_alt screen_of_def screen_put_def screen_cell_def screen_wrap_def screen_scroll_def cursor_def)
  then show ?thesis using g t(1,2) assms(2,3)
    by (intro exI [of _ irqs'] exI [of _ "line_state s kb t ((command_buf (s_sh s))[n := 0]) (Suc n)"])
      (simp add: read_line.simps(2) raw_in_def keys_in_def arr_set_def line_state_def Let_def)
qed

lemma backspace_step:
  assumes "keys_in (8 # cs) irqs s" "raw_in (Suc n) p s"
  shows "if p = 0 then read_line (Suc k) irqs s = Inl OutOfBounds
    else \<exists>irqs' s'. read_line (Suc k) irqs s = read_line k irqs' s' \<and> keys_in cs irqs' s' \<and> raw_in n (p - 1) s'"
proof -
  obtain irqs' kb where g: "getchar_irqs irqs (s_kb s) = Inr (8, irqs', kb)" "kb_ok kb" "no_overflow (length (kb_contents kb)) irqs'" "pending irqs' kb = cs"
    using getchar_irqs_first [of "s_kb s" irqs 8 cs] assms(1) by (auto simp: keys_in_def)
  have ok: "term_ok (s_tty s)" using assms(2) by (simp add: raw_in_def)
  show ?thesis
  proof (cases "p = 0")
    case True
    then have "terminal_x (s_tty s) = 0" "terminal_y (s_tty s) = 0" using assms(2) by (auto simp: raw_in_def cursor_def unat_eq_0)
    then have "terminal_backspace (s_tty s) = Inl OutOfBounds" using backspace_at_origin [OF ok] by blast
    then show ?thesis using g(1) assms(2) True by (simp add: read_line.simps(2) raw_in_def Let_def)
  next
    case False
    then obtain t where "terminal_backspace (s_tty s) = Inr t" "term_ok t" "cursor t = p - 1"
      using backspace_cursor [OF ok] assms(2) by (auto simp: raw_in_def)
    then have "\<exists>irqs' s'. read_line (Suc k) irqs s = read_line k irqs' s' \<and> keys_in cs irqs' s' \<and> raw_in n (p - 1) s'" using g assms(2)
      by (intro exI [of _ irqs'] exI [of _ "line_state s kb t (command_buf (s_sh s)) n"])
        (simp add: read_line.simps(2) raw_in_def keys_in_def line_state_def Let_def)
    then show ?thesis using False by simp
  qed
qed

lemma nul_run:
  assumes "keys_in (replicate m 0 @ cs) irqs s" "raw_in n p s" "n + m \<le> 255"
  shows "\<exists>irqs' s'. read_line (m + k) irqs s = read_line k irqs' s' \<and> keys_in cs irqs' s' \<and> raw_in (n + m) p s'"
  using assms
proof (induction m arbitrary: irqs s n)
  case 0
  then show ?case by auto
next
  case (Suc m)
  then obtain irqs1 s1 where "read_line (Suc (m + k)) irqs s = read_line (m + k) irqs1 s1" "keys_in (replicate m 0 @ cs) irqs1 s1" "raw_in (Suc n) p s1"
    using nul_step [of "replicate m 0 @ cs" irqs s n p "m + k"] by auto
  then show ?case using Suc.IH [of irqs1 s1 "Suc n"] Suc.prems(3) by simp
qed

lemma backspace_run:
  assumes "keys_in (replicate (Suc p) 8 @ cs) irqs s" "raw_in n p s" "p < n"
  shows "read_line (Suc p + k) irqs s = Inl OutOfBounds"
  using assms
proof (induction p arbitrary: irqs s n)
  case 0
  then show ?case using backspace_step [of cs irqs s "n - 1" 0 k] by auto
next
  case (Suc p)
  then obtain irqs1 s1 where "read_line (Suc (Suc p + k)) irqs s = read_line (Suc p + k) irqs1 s1" "keys_in (replicate (Suc p) 8 @ cs) irqs1 s1" "raw_in (n - 1) p s1"
    using backspace_step [of "replicate (Suc p) 8 @ cs" irqs s "n - 1" "Suc p" "Suc p + k"] by auto
  then show ?case using Suc.IH [of irqs1 s1 "n - 1"] Suc.prems(3) by simp
qed

text \<open>
  C32: keys without a character break the line editor. Shift and its kind put a zero byte into the keyboard buffer, and the shell counts it
  as a character of the line although the terminal prints nothing for it. If it is pressed once more often than there are cells before
  the cursor and then the line is deleted, the backspaces erase the prompt and the whole screen above and at last write before the screen.
\<close>

theorem shift_backspace_overrun:
  assumes "keys_in (replicate (Suc p) 0 @ replicate (Suc p) 8 @ cs) irqs s" "term_ok (s_tty s)" "cursor (s_tty s) = p" "p < 255"
  shows "wait_for_command irqs s = Inl OutOfBounds"
proof -
  let ?s = "s\<lparr>s_sh := (s_sh s)\<lparr>buf_location := 0, command_buf := replicate CMD_BUF_SIZE 0\<rparr>\<rparr>"
  let ?cs = "replicate (Suc p) 8 @ cs" and ?n = "Suc (kb_count (s_kb s) + length (concat irqs))"
  have k: "keys_in (replicate (Suc p) 0 @ ?cs) irqs ?s" and i: "raw_in 0 p ?s" using assms by (simp_all add: keys_in_def raw_in_def)
  have "length (replicate (Suc p) (0 :: u8) @ ?cs) \<le> ?n" using length_pending [of irqs "s_kb s"] assms(1) by (simp add: keys_in_def)
  then obtain m where m: "?n = Suc p + (Suc p + m)" by (auto dest!: le_Suc_ex)
  obtain irqs' s' where r: "read_line ?n irqs ?s = read_line (Suc p + m) irqs' s'" "keys_in ?cs irqs' s'" "raw_in (Suc p) p s'"
    using nul_run [OF k i, of "Suc p + m"] assms(4) unfolding m by auto
  have "read_line ?n irqs ?s = Inl OutOfBounds" unfolding r(1) by (rule backspace_run [OF r(2,3)]) simp
  then show ?thesis by (simp add: wait_for_command_def Let_def)
qed

lemma key_chars_replicate: "key_char sc = Some c \<Longrightarrow> key_chars (concat (replicate n [sc])) = replicate n c"
  by (induction n) auto

lemma no_overflow_single: "n \<le> 126 \<Longrightarrow> \<forall>scs \<in> set irqs. length scs \<le> 1 \<Longrightarrow> no_overflow n irqs"
proof (induction irqs arbitrary: n)
  case (Cons scs irqs)
  then have "length (key_chars scs) \<le> 1" using length_key_chars [of scs] by auto
  then show ?case using Cons by auto
qed simp

theorem shift_backspace_overrun_witness:
  "\<exists>t. output_prompt demo_sys = Inr (demo_sys\<lparr>s_tty := t\<rparr>) \<and>
     wait_for_command (replicate 83 [0x2A] @ replicate 83 [0x0E]) (demo_sys\<lparr>s_tty := t\<rparr>) = Inl OutOfBounds"
proof -
  let ?irqs = "replicate (Suc 82) [0x2A] @ replicate (Suc 82) [0x0E] :: u8 list list"
  have t0: "term_ok (s_tty demo_sys)" "unat (terminal_y (s_tty demo_sys)) = 0"
    using tty0_ok(1,2) by (simp_all add: demo_sys_def screen_of_def)
  obtain t where t: "output_prompt demo_sys = Inr (demo_sys\<lparr>s_tty := t\<rparr>)" "term_ok t" "cursor t = 82"
    using prompt_cursor [OF t0(1)] unfolding t0(2) by auto
  have c: "key_char 0x2A = Some 0" "key_char 0x0E = Some 8" by code_simp+
  have o: "no_overflow 0 ?irqs" by (rule no_overflow_single) (auto simp del: replicate_Suc)
  have "keys_in (replicate (Suc 82) 0 @ replicate (Suc 82) 8 @ []) ?irqs (demo_sys\<lparr>s_tty := t\<rparr>)"
    using o kb_contents_init kb_ok_init key_chars_replicate [OF c(1), of "Suc 82"] key_chars_replicate [OF c(2), of "Suc 82"]
    unfolding keys_in_def pending_def concat_append key_chars_simps(3) by (simp add: demo_sys_def del: replicate_Suc)
  then have "wait_for_command ?irqs (demo_sys\<lparr>s_tty := t\<rparr>) = Inl OutOfBounds"
    by (rule shift_backspace_overrun) (simp_all add: t(2,3))
  moreover have "Suc 82 = 83" by simp
  ultimately show ?thesis using t(1) by metis
qed

end
