(* ===== verification/System.thy ===== *)
theory System
  imports Shell_Spec
begin

text \<open>
  The system as a transition system: the interrupt dispatch with the handlers that \<open>kernel_main\<close> installs (\<open>handle_irq\<close>), and the
  interleaving of interrupts with the work of the kernel (\<open>sys_step\<close>), from the installation of the devices on: the start of the memory management and of
  the first process, the file system, and the console. The invariant \<open>sys_ok\<close> joins those of the components.
\<close>

section \<open>Interrupts\<close>

text \<open>
  What the machine shows to a handler: the value that \<open>get_eip\<close> returns in \<open>switch_proc\<close>, the byte that the keyboard has ready, and the
  register with the address of a page fault.
\<close>

record inputs =
  in_ip :: u32
  in_scancode :: u8
  in_cr2 :: u32

text \<open>The functions behind the handlers.\<close>

definition run_handler :: "(u32 \<Rightarrow> int \<Rightarrow> bool) \<Rightarrow> inputs \<Rightarrow> handler \<Rightarrow> regs \<Rightarrow> sys \<Rightarrow> sys outcome res" where
  "run_handler fp_gt x h r s =
     (case h of
        Timer_handler \<Rightarrow> res_bind (timer_handler fp_gt (in_ip x) (s_timer s, s_os s)) (\<lambda>(t, os). Inr (Returned (s\<lparr>s_timer := t, s_os := os\<rparr>)))
      | Keyboard_handler \<Rightarrow> res_bind (keyboard_handler (in_scancode x) (s_kb s)) (\<lambda>kb. Inr (Returned (s\<lparr>s_kb := kb\<rparr>)))
      | Page_fault \<Rightarrow> res_bind (page_fault putchar (in_cr2 x) r (s_tty s)) (\<lambda>end. Inr (map_outcome (\<lambda>t. s\<lparr>s_tty := t\<rparr>) end)))"

text \<open>An interrupt request and an exception, with the console for the messages. No handler of a request halts the machine; one that did would be a panic.\<close>

definition handle_irq :: "(u32 \<Rightarrow> int \<Rightarrow> bool) \<Rightarrow> inputs \<Rightarrow> regs \<Rightarrow> sys \<Rightarrow> sys res" where
  "handle_irq fp_gt x r s =
     res_bind (irq_handler
       (\<lambda>h r (i, s). res_bind (run_handler fp_gt x h r s) (\<lambda>end. case end of Returned s \<Rightarrow> Inr (i, s) | Halted s \<Rightarrow> Inl (Panic ''halted'')))
       (\<lambda>fmt args. print_out fmt (map IntArg args)) r (s_ints s, s)) (\<lambda>(i, s).
     Inr (s\<lparr>s_ints := i\<rparr>))"

definition handle_exception :: "(u32 \<Rightarrow> int \<Rightarrow> bool) \<Rightarrow> inputs \<Rightarrow> regs \<Rightarrow> sys \<Rightarrow> sys outcome res" where
  "handle_exception fp_gt x r s =
     exception_handler (run_handler fp_gt x)
       (\<lambda>str s. res_bind (puts putchar (text_bytes str) (s_tty s)) (\<lambda>(_, t). Inr (s\<lparr>s_tty := t\<rparr>))) r (s_ints s) s"

section \<open>Transitions\<close>

text \<open>
  Between two steps of the kernel any interrupt request may arrive. The kernel starts the memory management and the first process, as
  \<open>kernel_main\<close> does after the devices; it calls functions of the allocator and of the file system (any \<open>f\<close> on heap, memory and file system that keeps the page directories); it reads
  characters and prints. It does not call \<open>fork\<close>.
\<close>

inductive sys_step :: "(u32 \<Rightarrow> int \<Rightarrow> bool) \<Rightarrow> sys \<Rightarrow> sys \<Rightarrow> bool" for fp_gt where
  interrupt: "line < 16 \<Longrightarrow> int_no r = 32 + of_nat line \<Longrightarrow> handle_irq fp_gt x r s = Inr s' \<Longrightarrow> sys_step fp_gt s s'"
| start_memory: "current_proc (s_os s) = 0 \<Longrightarrow>
    vm_initialize d Page_fault (s_ints s, (os_vm (s_os s))\<lparr>vm_pm := pm_initialize mmap ksize mod_end mod_start (vm_pm (os_vm (s_os s)))\<rparr>) = Inr (i, v) \<Longrightarrow>
    sys_step fp_gt s (s\<lparr>s_ints := i, s_os := (s_os s)\<lparr>os_vm := v\<rparr>\<rparr>)"
| start_process: "current_proc (s_os s) = 0 \<Longrightarrow> proc_initialize d (s_os s) = Inr os \<Longrightarrow> sys_step fp_gt s (s\<lparr>s_os := os\<rparr>)"
| file_system: "with_fs f s = Inr (y :: u32, s') \<Longrightarrow> dom (page_dirs (os_vm (s_os s))) \<subseteq> dom (page_dirs (os_vm (s_os s'))) \<Longrightarrow> sys_step fp_gt s s'"
| read_char: "keyboard_getchar (s_kb s) = Inr (c, kb) \<Longrightarrow> sys_step fp_gt s (s\<lparr>s_kb := kb\<rparr>)"
| put_char: "terminal_putchar c (s_tty s) = Inr t \<Longrightarrow> sys_step fp_gt s (s\<lparr>s_tty := t\<rparr>)"

inductive_cases sys_stepE: "sys_step fp_gt s s'"


text \<open>
  The scheduler is in order: before \<open>proc_initialize\<close> there is no process, and its static variables have their initial values; after it the queue of
  processes satisfies its invariant, and if there are several of them, each has a page directory to switch to.
\<close>

definition sched_ok :: "os \<Rightarrow> bool" where
  "sched_ok s \<longleftrightarrow> current_proc s = 0 \<and> next_pid s = 1 \<or> (\<exists>qs. proc_inv qs s \<and> (length qs = 1 \<or> dirs_ok qs s))"







text \<open>The interrupt controllers are served before the handler runs.\<close>

definition acknowledged :: "u32 \<Rightarrow> handler ints \<Rightarrow> handler ints" where
  "acknowledged v i = outb 0x20 0x20 (if v \<ge> 40 then outb 0xA0 0x20 i else i)"

lemma irq_routines_acknowledged [simp]: "irq_routines (acknowledged v i) = irq_routines i"
  by (simp add: acknowledged_def outb_def)









section \<open>From boot on\<close>



lemma sched_ok_if_flag [simp]: "sched_ok (s\<lparr>if_flag := fl\<rparr>) = sched_ok s"
  by (simp add: sched_ok_def proc_inv_def dirs_ok_def)





end
