(* ===== verification/Stubs.thy ===== *)
theory Stubs
  imports Interrupts Memory
begin

text \<open>
  The entry stubs of interrupts (\<^verbatim>\<open>asm/isr.S\<close>, \<^verbatim>\<open>asm/irq.S\<close>) and of the kernel (\<^verbatim>\<open>asm/boot.S\<close>), and \<open>get_eip\<close> (\<^verbatim>\<open>asm/proc.S\<close>): the instructions that they use, on registers
  and byte memory, the stubs as lists of instructions, and what the processor does before the first instruction of a handler. The C function that a stub calls is a parameter,
  with the calling convention as its contract.
\<close>

section \<open>The processor\<close>

datatype reg = EAX | ECX | EDX | EBX | ESP | EBP | ESI | EDI

record cpu =
  gpr :: "reg \<Rightarrow> u32"
  sreg :: "seg \<Rightarrow> u16"
  pc :: u32
  eflags :: u32
  memory :: mem

definition push :: "u32 \<Rightarrow> cpu \<Rightarrow> cpu" where
  "push v c = c\<lparr>gpr := (gpr c)(ESP := gpr c ESP - 4), memory := store32 (gpr c ESP - 4) v (memory c)\<rparr>"

definition pop :: "cpu \<Rightarrow> u32 \<times> cpu" where
  "pop c = (load32 (memory c) (gpr c ESP), c\<lparr>gpr := (gpr c)(ESP := gpr c ESP + 4)\<rparr>)"

text \<open>The instructions, in the names of the assembler.\<close>

datatype instr =
    Cli
  | Pushl_imm u32
  | Pushl reg
  | Pushl_seg seg
  | Pusha
  | Movw_ax u16
  | Movw_seg seg
  | Movl reg reg
  | Movl_imm reg u32
  | Call reg
  | Popl reg
  | Popl_seg seg
  | Popa
  | Popfl
  | Addl_esp u32
  | Jmp reg
  | Iret

definition set_reg :: "reg \<Rightarrow> u32 \<Rightarrow> cpu \<Rightarrow> cpu" where
  "set_reg r v c = c\<lparr>gpr := (gpr c)(r := v)\<rparr>"

definition set_seg :: "seg \<Rightarrow> u16 \<Rightarrow> cpu \<Rightarrow> cpu" where
  "set_seg g v c = c\<lparr>sreg := (sreg c)(g := v)\<rparr>"

definition pop_reg :: "reg \<Rightarrow> cpu \<Rightarrow> cpu" where
  "pop_reg r c = (case pop c of (v, c) \<Rightarrow> set_reg r v c)"

definition pop_seg :: "seg \<Rightarrow> cpu \<Rightarrow> cpu" where
  "pop_seg g c = (case pop c of (v, c) \<Rightarrow> set_seg g (ucast v) c)"

text \<open>\<open>call a c\<close> is the effect of the function at address \<open>a\<close>, from the call to its return.\<close>

fun exec :: "(u32 \<Rightarrow> cpu \<Rightarrow> cpu) \<Rightarrow> instr \<Rightarrow> cpu \<Rightarrow> cpu" where
  "exec call Cli c = c\<lparr>eflags := eflags c AND NOT 0x200\<rparr>"
| "exec call (Pushl_imm v) c = push v c"
| "exec call (Pushl r) c = push (gpr c r) c"
| "exec call (Pushl_seg g) c = push (ucast (sreg c g)) c"
| "exec call Pusha c = fold push (map (gpr c) [EAX, ECX, EDX, EBX, ESP, EBP, ESI, EDI]) c"
| "exec call (Movw_ax v) c = set_reg EAX ((gpr c EAX AND 0xFFFF0000) OR ucast v) c"
| "exec call (Movw_seg g) c = set_seg g (ucast (gpr c EAX)) c"
| "exec call (Movl d r) c = set_reg d (gpr c r) c"
| "exec call (Movl_imm d v) c = set_reg d v c"
| "exec call (Call r) c = call (gpr c r) c"
| "exec call (Popl r) c = pop_reg r c"
| "exec call (Popl_seg g) c = pop_seg g c"
| "exec call Popa c = pop_reg EAX (pop_reg ECX (pop_reg EDX (pop_reg EBX (snd (pop (pop_reg EBP (pop_reg ESI (pop_reg EDI c)))))))) "
| "exec call Popfl c = (case pop c of (f, c) \<Rightarrow> c\<lparr>eflags := f\<rparr>)"
| "exec call (Addl_esp v) c = set_reg ESP (gpr c ESP + v) c"
| "exec call (Jmp r) c = c\<lparr>pc := gpr c r\<rparr>"
| "exec call Iret c =
     (case pop c of (ip, c) \<Rightarrow> case pop c of (s, c) \<Rightarrow> case pop c of (f, c) \<Rightarrow> set_seg CS (ucast s) (c\<lparr>pc := ip, eflags := f\<rparr>))"

definition run :: "(u32 \<Rightarrow> cpu \<Rightarrow> cpu) \<Rightarrow> instr list \<Rightarrow> cpu \<Rightarrow> cpu" where
  "run call = fold (exec call)"

text \<open>
  What the processor does for a gate of the table: it saves flags, code segment and instruction pointer on the stack, and for some
  exceptions an error code on top of them; an interrupt gate clears the flags IF, TF, NT, RF and VM.
\<close>

definition deliver :: "idt_entry \<Rightarrow> u32 option \<Rightarrow> cpu \<Rightarrow> cpu" where
  "deliver g err c =
     (let c1 = push (pc c) (push (ucast (sreg c CS)) (push (eflags c) c));
          c1 = (case err of None \<Rightarrow> c1 | Some e \<Rightarrow> push e c1)
      in set_seg CS (selector g) (c1\<lparr>pc := gate_offset g, eflags := eflags c AND NOT 0x34300\<rparr>))"

section \<open>The stubs\<close>

text \<open>The two common stubs differ only in the function they call. The part up to the call and the part behind it are named.\<close>

definition common_entry :: "u32 \<Rightarrow> instr list" where
  "common_entry handler =
     [Pusha, Pushl_seg DS, Pushl_seg ES, Pushl_seg FS, Pushl_seg GS, Movw_ax 0x10, Movw_seg DS, Movw_seg ES, Movw_seg FS, Movw_seg GS,
      Movl EAX ESP, Pushl EAX, Movl_imm EAX handler]"

definition common_exit :: "instr list" where
  "common_exit = [Popl EAX, Popl_seg GS, Popl_seg FS, Popl_seg ES, Popl_seg DS, Popa, Addl_esp 8, Iret]"

definition isr_entry :: "u32 \<Rightarrow> u32 \<Rightarrow> instr list" where
  "isr_entry handler num = [Cli, Pushl_imm 0, Pushl_imm num] @ common_entry handler"

definition irq_entry :: "u32 \<Rightarrow> u32 \<Rightarrow> instr list" where
  "irq_entry handler num = [Cli, Pushl_imm 0, Pushl_imm (num + 32)] @ common_entry handler"

text \<open>The macros \<open>ISR_NO_ERR\<close> and \<open>ISR_ERR\<close> have the same text.\<close>

definition isr_stub :: "u32 \<Rightarrow> u32 \<Rightarrow> instr list" where
  "isr_stub handler num = isr_entry handler num @ [Call EAX] @ common_exit"

definition irq_stub :: "u32 \<Rightarrow> u32 \<Rightarrow> instr list" where
  "irq_stub handler num = irq_entry handler num @ [Call EAX] @ common_exit"

text \<open>\<^verbatim>\<open>struct regs\<close> as C reads it at an address.\<close>

definition regs_at :: "mem \<Rightarrow> u32 \<Rightarrow> regs" where
  "regs_at m p = (let w = (\<lambda>i. load32 m (p + 4 * i)) in
     \<lparr>r_gs = w 0, r_fs = w 1, r_ed = w 2, r_ds = w 3, r_edi = w 4, r_esi = w 5, r_ebp = w 6, r_esp = w 7, r_ebx = w 8, r_edx = w 9,
      r_ecx = w 10, r_eax = w 11, int_no = w 12, err_code = w 13, r_eip = w 14, r_cs = w 15, r_eflags = w 16, r_usresp = w 17, r_ss = w 18\<rparr>)"

section \<open>What is on the stack\<close>

definition holds :: "cpu \<Rightarrow> u32 list \<Rightarrow> bool" where
  "holds c vs \<longleftrightarrow> (\<forall>i < length vs. load32 (memory c) (gpr c ESP + 4 * of_nat i) = vs ! i)"

lemma push_simps [simp]: "gpr (push v c) = (gpr c)(ESP := gpr c ESP - 4)" "sreg (push v c) = sreg c" "pc (push v c) = pc c" "eflags (push v c) = eflags c"
  by (simp_all add: push_def)

lemma holds_push:
  assumes "holds c vs" "length vs < 2 ^ 20"
  shows "holds (push v c) (v # vs)"
  unfolding holds_def
proof (intro allI impI)
  fix i assume i: "i < length (v # vs)"
  let ?sp = "gpr c ESP"
  show "load32 (memory (push v c)) (gpr (push v c) ESP + 4 * of_nat i) = (v # vs) ! i"
  proof (cases i)
    case 0
    then show ?thesis by (simp add: push_def load32_store32)
  next
    case (Suc j)
    have j: "j < length vs" using i Suc by simp
    have e: "?sp - 4 + 4 * of_nat i = ?sp + 4 * of_nat j" using Suc by (simp add: algebra_simps)
    have "(?sp + 4 * of_nat j) - (?sp - 4) = of_nat (4 + 4 * j)" by simp
    moreover have "4 + 4 * j < 2 ^ 32 - 4" using j assms(2) by simp
    ultimately have "unat ((?sp + 4 * of_nat j) - (?sp - 4)) = 4 + 4 * j" by (simp only: unat_of_nat) simp
    then have "load32 (store32 (?sp - 4) v (memory c)) (?sp + 4 * of_nat j) = load32 (memory c) (?sp + 4 * of_nat j)"
      using j assms(2) by (intro load32_store32_other) simp_all
    then show ?thesis using assms(1) j Suc e by (simp add: push_def holds_def)
  qed
qed

lemma holds_pop:
  assumes "holds c (v # vs)"
  shows "pop c = (v, c\<lparr>gpr := (gpr c)(ESP := gpr c ESP + 4)\<rparr>)" "holds (c\<lparr>gpr := (gpr c)(ESP := gpr c ESP + 4)\<rparr>) vs"
proof -
  show "pop c = (v, c\<lparr>gpr := (gpr c)(ESP := gpr c ESP + 4)\<rparr>)" using assms by (force simp: holds_def pop_def)
  have "load32 (memory c) (gpr c ESP + 4 + 4 * of_nat i) = vs ! i" if "i < length vs" for i
    using assms that by (auto simp: holds_def algebra_simps dest: spec [of _ "Suc i"])
  then show "holds (c\<lparr>gpr := (gpr c)(ESP := gpr c ESP + 4)\<rparr>) vs" by (simp add: holds_def)
qed

lemma holds_cong: "holds c vs \<Longrightarrow> memory c' = memory c \<Longrightarrow> gpr c' ESP = gpr c ESP \<Longrightarrow> holds c' vs"
  by (simp add: holds_def)

lemma regs_at_holds:
  assumes "holds c (p # [w0, w1, w2, w3, w4, w5, w6, w7, w8, w9, w10, w11, w12, w13, w14, w15, w16, w17, w18])" "p = gpr c ESP + 4"
  shows "regs_at (memory c) p = \<lparr>r_gs = w0, r_fs = w1, r_ed = w2, r_ds = w3, r_edi = w4, r_esi = w5, r_ebp = w6, r_esp = w7, r_ebx = w8, r_edx = w9,
      r_ecx = w10, r_eax = w11, int_no = w12, err_code = w13, r_eip = w14, r_cs = w15, r_eflags = w16, r_usresp = w17, r_ss = w18\<rparr>"
proof -
  have "load32 (memory c) (p + 4 * of_nat i) =
      [w0, w1, w2, w3, w4, w5, w6, w7, w8, w9, w10, w11, w12, w13, w14, w15, w16, w17, w18] ! i" if "i < 19" for i
    using assms that by (auto simp: holds_def algebra_simps dest: spec [of _ "Suc i"])
  from this [of 0] this [of 1] this [of 2] this [of 3] this [of 4] this [of 5] this [of 6] this [of 7] this [of 8] this [of 9] this [of 10]
    this [of 11] this [of 12] this [of 13] this [of 14] this [of 15] this [of 16] this [of 17] this [of 18]
  show ?thesis by (simp add: regs_at_def Let_def)
qed

lemma holds_loads:
  assumes "holds c vs" "i < length vs"
  shows "load32 (memory c) (gpr c ESP + 4 * of_nat i) = vs ! i"
  using assms by (simp add: holds_def)

text \<open>Nothing but the \<open>n\<close> bytes from the stack pointer on has changed since the memory was \<open>m\<close>.\<close>

definition kept :: "mem \<Rightarrow> nat \<Rightarrow> cpu \<Rightarrow> bool" where
  "kept m n c \<longleftrightarrow> (\<forall>a. n \<le> unat (a - gpr c ESP) \<longrightarrow> memory c a = m a)"

lemma kept_push: "kept m n c \<Longrightarrow> kept m (n + 4) (push v c)"
  unfolding kept_def
proof (intro allI impI)
  fix a assume k: "\<forall>a. n \<le> unat (a - gpr c ESP) \<longrightarrow> memory c a = m a" and n: "n + 4 \<le> unat (a - gpr (push v c) ESP)"
  have a: "a - gpr (push v c) ESP = (a - gpr c ESP) + 4" by simp
  have "unat (a - gpr c ESP + 4 - 4) = unat (a - gpr c ESP + 4) - 4" using n unfolding a by (subst unat_sub) (auto simp: word_le_nat_alt)
  then have "n \<le> unat (a - gpr c ESP)" using n unfolding a by simp
  then have "memory c a = m a" using k by blast
  moreover have "store32 (gpr c ESP - 4) v (memory c) a = memory c a" using n by (intro store32_other) simp
  ultimately show "memory (push v c) a = m a" by (simp add: push_def)
qed

lemma kept_cong: "kept m n c \<Longrightarrow> memory c' = memory c \<Longrightarrow> gpr c' ESP = gpr c ESP \<Longrightarrow> kept m n c'"
  by (simp add: kept_def)

lemma pushes:
  assumes "holds c vs" "kept m n c" "length ws + length vs < 2 ^ 20"
  obtains M where "fold push ws c = c\<lparr>gpr := (gpr c)(ESP := gpr c ESP - 4 * of_nat (length ws)), memory := M\<rparr>"
    "holds (fold push ws c) (rev ws @ vs)" "kept m (n + 4 * length ws) (fold push ws c)"
  using assms
proof (induction ws arbitrary: c vs n thesis)
  case Nil
  then show ?case by (intro Nil.prems(1) [of "memory c"]) auto
next
  case (Cons w ws)
  have h: "holds (push w c) (w # vs)" using Cons.prems by (intro holds_push) auto
  have k: "kept m (n + 4) (push w c)" using Cons.prems(3) by (rule kept_push)
  have l: "length ws + length (w # vs) < 2 ^ 20" using Cons.prems(4) by simp
  obtain M where M: "fold push ws (push w c) = (push w c)\<lparr>gpr := (gpr (push w c))(ESP := gpr (push w c) ESP - 4 * of_nat (length ws)), memory := M\<rparr>"
    "holds (fold push ws (push w c)) (rev ws @ w # vs)" "kept m (n + 4 + 4 * length ws) (fold push ws (push w c))"
    by (rule Cons.IH [OF _ h k l])
  show ?case
  proof (rule Cons.prems(1))
    show "fold push (w # ws) c = c\<lparr>gpr := (gpr c)(ESP := gpr c ESP - 4 * of_nat (length (w # ws))), memory := M\<rparr>"
      using M(1) by (simp add: push_def algebra_simps)
    show "kept m (n + 4 * length (w # ws)) (fold push (w # ws) c)" using M(3) by (simp add: algebra_simps)
  qed (use M(2) in simp)
qed

section \<open>Entry and exit\<close>

lemma movw_seg: "(ucast ((x AND 0xFFFF0000) OR 0x10 :: u32) :: u16) = 0x10"
proof (rule bit_eqI)
  have m: "(0xFFFF0000 :: u32) = push_bit 16 (mask 16)" by (simp add: mask_eq_exp_minus_1 push_bit_eq_mult)
  show "bit (ucast ((x AND 0xFFFF0000) OR 0x10 :: u32) :: u16) n = bit (0x10 :: u16) n" if "possible_bit TYPE(u16) n" for n
    using that unfolding m by (auto simp: bit_simps)
qed

lemma ucast_u16_u32 [simp]: "(ucast (ucast (x :: u16) :: u32) :: u16) = x"
  by (rule bit_eqI) (auto simp: bit_simps)

abbreviation saved :: "cpu \<Rightarrow> u32 \<Rightarrow> u32 list" where
  "saved c n \<equiv> [ucast (sreg c GS), ucast (sreg c FS), ucast (sreg c ES), ucast (sreg c DS), gpr c EDI, gpr c ESI, gpr c EBP, gpr c ESP - 8,
     gpr c EBX, gpr c EDX, gpr c ECX, gpr c EAX, n, 0]"

lemma entry_pushes:
  "run call ([Cli, Pushl_imm 0, Pushl_imm n] @ common_entry h) c =
     set_reg EAX h (push (gpr c ESP - 56) (fold push (rev (saved c n)) (c\<lparr>eflags := eflags c AND NOT 0x200\<rparr>)
       \<lparr>gpr := (gpr c)(ESP := gpr c ESP - 56, EAX := gpr c ESP - 56), sreg := (sreg c)(DS := 0x10, ES := 0x10, FS := 0x10, GS := 0x10)\<rparr>))"
  by (simp add: run_def common_entry_def set_reg_def set_seg_def movw_seg push_def fun_upd_twist)

lemma entry_state:
  assumes "holds c vs" "kept m k c" "length vs < 100"
    and c1_def: "c1 = run call ([Cli, Pushl_imm 0, Pushl_imm n] @ common_entry h) c"
  shows "holds c1 ((gpr c ESP - 56) # saved c n @ vs)" "kept m (k + 60) c1"
    and "c1 = c\<lparr>gpr := (gpr c)(ESP := gpr c ESP - 60, EAX := h), sreg := (sreg c)(DS := 0x10, ES := 0x10, FS := 0x10, GS := 0x10),
       eflags := eflags c AND NOT 0x200, memory := memory c1\<rparr>"
proof -
  define ws where "ws = rev (saved c n)"
  have ws: "length ws = 14" "rev ws = saved c n" by (simp_all add: ws_def)
  let ?c = "c\<lparr>eflags := eflags c AND NOT 0x200\<rparr>" and ?sp = "gpr c ESP - 56"
  let ?S = "(sreg c)(DS := 0x10, ES := 0x10, FS := 0x10, GS := 0x10)"
  let ?c3 = "(fold push ws ?c)\<lparr>gpr := (gpr c)(ESP := ?sp, EAX := ?sp), sreg := ?S\<rparr>"
  have e: "c1 = set_reg EAX h (push ?sp ?c3)" unfolding c1_def ws_def by (rule entry_pushes)
  have l: "length ws + length vs < 2 ^ 20" using assms(3) ws by simp
  have hk: "holds ?c vs" "kept m k ?c" using assms(1,2) by (simp_all add: holds_def kept_def)
  obtain M where M: "fold push ws ?c = ?c\<lparr>gpr := (gpr ?c)(ESP := gpr ?c ESP - 4 * of_nat (length ws)), memory := M\<rparr>"
    "holds (fold push ws ?c) (rev ws @ vs)" "kept m (k + 4 * length ws) (fold push ws ?c)" by (rule pushes [OF hk l])
  have g: "gpr (fold push ws ?c) ESP = ?sp" unfolding M(1) using ws(1) by simp
  have h3: "holds ?c3 (saved c n @ vs)" using g unfolding ws(2) [symmetric] by (intro holds_cong [OF M(2)]) simp_all
  have "kept m (k + 56) (fold push ws ?c)" using M(3) unfolding ws(1) by simp
  then have k3: "kept m (k + 56) ?c3" by (rule kept_cong) (use g in simp_all)
  have "holds (push ?sp ?c3) (?sp # saved c n @ vs)" using assms(3) by (intro holds_push [OF h3]) simp
  then show "holds c1 (?sp # saved c n @ vs)" unfolding e by (rule holds_cong) (simp_all add: set_reg_def)
  have "kept m (k + 60) (push ?sp ?c3)" using kept_push [OF k3, of ?sp] by (simp add: add.assoc)
  then show "kept m (k + 60) c1" unfolding e by (rule kept_cong) (simp_all add: set_reg_def)
  show "c1 = c\<lparr>gpr := (gpr c)(ESP := gpr c ESP - 60, EAX := h), sreg := ?S, eflags := eflags c AND NOT 0x200, memory := memory c1\<rparr>"
    unfolding e M(1) by (simp add: set_reg_def push_def fun_upd_twist)
qed

lemma exit_state:
  assumes "holds c [arg, gs, fs, es, ds, edi, esi, ebp, sp, ebx, edx, ecx, eax, n, e, ip, s, f]"
  shows "run call common_exit c = c\<lparr>gpr := (gpr c)(ESP := gpr c ESP + 72, EAX := eax, ECX := ecx, EDX := edx, EBX := ebx, EBP := ebp, ESI := esi, EDI := edi),
    sreg := (sreg c)(DS := ucast ds, ES := ucast es, FS := ucast fs, GS := ucast gs, CS := ucast s), pc := ip, eflags := f\<rparr>"
proof -
  note l = holds_loads [OF assms]
  note w = l [of 0, simplified] l [of 1, simplified] l [of 2, simplified] l [of 3, simplified] l [of 4, simplified] l [of 5, simplified]
    l [of 6, simplified] l [of 7, simplified] l [of 9, simplified] l [of 10, simplified] l [of 11, simplified] l [of 12, simplified]
    l [of 15, simplified] l [of 16, simplified] l [of 17, simplified]
  note run = run_def common_exit_def pop_reg_def pop_seg_def pop_def set_reg_def set_seg_def
  let ?c = "run call common_exit c"
  have g: "gpr ?c r = ((gpr c)(ESP := gpr c ESP + 72, EAX := eax, ECX := ecx, EDX := edx, EBX := ebx, EBP := ebp, ESI := esi, EDI := edi)) r" for r
    by (cases r) (simp_all add: run w add.assoc)
  have s: "sreg ?c g = ((sreg c)(DS := ucast ds, ES := ucast es, FS := ucast fs, GS := ucast gs, CS := ucast s)) g" for g
    by (cases g) (simp_all add: run w add.assoc)
  have "pc ?c = ip" "eflags ?c = f" "memory ?c = memory c" by (simp_all add: run w add.assoc)
  with g s show ?thesis by (intro cpu.equality) auto
qed

text \<open>
  The calling convention: a function returns with its stack pointer and the registers it has to save as they were, and it does not touch
  the stack of its caller, which here is the saved state behind the argument (17 words).
\<close>

definition cdecl :: "(u32 \<Rightarrow> cpu \<Rightarrow> cpu) \<Rightarrow> u32 \<Rightarrow> bool" where
  "cdecl call h \<longleftrightarrow> (\<forall>c. (\<forall>r \<in> {EBX, ESP, EBP, ESI, EDI}. gpr (call h c) r = gpr c r) \<and> sreg (call h c) = sreg c \<and>
     (\<forall>a. unat (a - (gpr c ESP + 4)) < 68 \<longrightarrow> memory (call h c) a = memory c a))"

lemma cdecl_holds:
  assumes "cdecl call h" "holds c (arg # vs)" "length vs \<le> 17"
  shows "\<exists>arg'. holds (call h c) (arg' # vs)"
proof -
  let ?c = "call h c" and ?sp = "gpr c ESP"
  have sp: "gpr ?c ESP = ?sp" and m: "\<And>a. unat (a - (?sp + 4)) < 68 \<Longrightarrow> memory ?c a = memory c a" using assms(1) by (auto simp: cdecl_def)
  have "load32 (memory ?c) (?sp + 4 * of_nat (Suc j)) = vs ! j" if j: "j < length vs" for j
  proof -
    have "memory ?c (?sp + 4 * of_nat (Suc j) + of_nat i) = memory c (?sp + 4 * of_nat (Suc j) + of_nat i)" if "i < 4" for i
    proof (rule m)
      have "?sp + 4 * of_nat (Suc j) + of_nat i - (?sp + 4) = of_nat (4 * j + i)" by simp
      moreover have "4 * j + i < 68" using that j assms(3) by linarith
      ultimately show "unat (?sp + 4 * of_nat (Suc j) + of_nat i - (?sp + 4)) < 68" by (simp only: unat_of_nat) simp
    qed
    then have "load32 (memory ?c) (?sp + 4 * of_nat (Suc j)) = load32 (memory c) (?sp + 4 * of_nat (Suc j))" by (rule load32_shift)
    then show ?thesis using holds_loads [OF assms(2), of "Suc j"] j by simp
  qed
  then have "holds ?c (load32 (memory ?c) ?sp # vs)" unfolding holds_def sp by (auto simp: less_Suc_eq_0_disj)
  then show ?thesis by blast
qed

text \<open>A stub from its first instruction to its return, from a state with the instruction pointer, code segment and flags of the return on the stack.\<close>

lemma stub_returns:
  assumes f: "cdecl call h" and c: "holds c [ip, s, fl]"
    and c1: "c1 = run call ([Cli, Pushl_imm 0, Pushl_imm n] @ common_entry h) c"
  shows "run call (([Cli, Pushl_imm 0, Pushl_imm n] @ common_entry h) @ [Call EAX] @ common_exit) c =
    c\<lparr>gpr := (gpr c)(ESP := gpr c ESP + 12), sreg := (sreg c)(CS := ucast s), pc := ip, eflags := fl, memory := memory (call h c1)\<rparr>"
proof -
  have "kept (memory c) 0 c" by (simp add: kept_def)
  note E = entry_state [OF c this _ c1]
  have l: "length [ip, s, fl] < 100" by simp
  note e = E(3) [OF l]
  obtain arg where "holds (call h c1) (arg # saved c n @ [ip, s, fl])" using cdecl_holds [OF f E(1) [OF l]] by auto
  then have x: "holds (call h c1) [arg, ucast (sreg c GS), ucast (sreg c FS), ucast (sreg c ES), ucast (sreg c DS), gpr c EDI, gpr c ESI, gpr c EBP, gpr c ESP - 8,
     gpr c EBX, gpr c EDX, gpr c ECX, gpr c EAX, n, 0, ip, s, fl]" by simp
  have g: "gpr (call h c1) ESP = gpr c ESP - 60" "sreg (call h c1) = (sreg c)(DS := 0x10, ES := 0x10, FS := 0x10, GS := 0x10)"
    "gpr c1 EAX = h" using f unfolding cdecl_def by (subst e, simp)+
  have "run call (([Cli, Pushl_imm 0, Pushl_imm n] @ common_entry h) @ [Call EAX] @ common_exit) c = run call common_exit (call h c1)"
    using g(3) unfolding run_def c1 [unfolded run_def] by simp
  also have "\<dots> = c\<lparr>gpr := (gpr c)(ESP := gpr c ESP + 12), sreg := (sreg c)(CS := ucast s), pc := ip, eflags := fl, memory := memory (call h c1)\<rparr>"
  proof (rule cpu.equality)
    show "gpr (run call common_exit (call h c1)) = gpr (c\<lparr>gpr := (gpr c)(ESP := gpr c ESP + 12), sreg := (sreg c)(CS := ucast s), pc := ip, eflags := fl, memory := memory (call h c1)\<rparr>)"
    proof
      fix r show "gpr (run call common_exit (call h c1)) r = gpr (c\<lparr>gpr := (gpr c)(ESP := gpr c ESP + 12), sreg := (sreg c)(CS := ucast s), pc := ip, eflags := fl, memory := memory (call h c1)\<rparr>) r"
        using g(1) by (cases r) (simp_all add: exit_state [OF x])
    qed
    show "sreg (run call common_exit (call h c1)) = sreg (c\<lparr>gpr := (gpr c)(ESP := gpr c ESP + 12), sreg := (sreg c)(CS := ucast s), pc := ip, eflags := fl, memory := memory (call h c1)\<rparr>)"
      using g(2) by (auto simp: exit_state [OF x] fun_eq_iff)
  qed (simp_all add: exit_state [OF x])
  finally show ?thesis .
qed

section \<open>Interrupts and exceptions\<close>

lemma deliver_state:
  assumes "c1 = deliver g err c" "e = (case err of None \<Rightarrow> [] | Some e \<Rightarrow> [e])" "holds c vs" "length vs < 100"
  shows "holds c1 (e @ [pc c, ucast (sreg c CS), eflags c] @ vs)" "kept (memory c) (12 + 4 * length e) c1"
    and "gpr c1 = (gpr c)(ESP := gpr c ESP - (12 + 4 * of_nat (length e)))" "sreg c1 = (sreg c)(CS := selector g)" "pc c1 = gate_offset g"
proof -
  define ws where "ws = [eflags c, ucast (sreg c CS), pc c] @ e"
  have r: "rev ws = e @ [pc c, ucast (sreg c CS), eflags c]" and l: "length ws = 3 + length e" "length e \<le> 1"
    using assms(2) by (auto simp: ws_def split: option.splits)
  have d: "c1 = set_seg CS (selector g) ((fold push ws c)\<lparr>pc := gate_offset g, eflags := eflags c AND NOT 0x34300\<rparr>)"
    using assms(1,2) by (cases err) (simp_all add: deliver_def ws_def)
  have k: "kept (memory c) 0 c" by (simp add: kept_def)
  have lw: "length ws + length vs < 2 ^ 20" using l assms(4) by simp
  obtain M where M: "fold push ws c = c\<lparr>gpr := (gpr c)(ESP := gpr c ESP - 4 * of_nat (length ws)), memory := M\<rparr>"
    "holds (fold push ws c) (rev ws @ vs)" "kept (memory c) (0 + 4 * length ws) (fold push ws c)" by (rule pushes [OF assms(3) k lw])
  have eq: "memory c1 = memory (fold push ws c)" "gpr c1 ESP = gpr (fold push ws c) ESP" unfolding d by (simp_all add: set_seg_def)
  show "holds c1 (e @ [pc c, ucast (sreg c CS), eflags c] @ vs)" using holds_cong [OF M(2) eq] r by simp
  show "kept (memory c) (12 + 4 * length e) c1" using kept_cong [OF M(3) eq] l by simp
  show "gpr c1 = (gpr c)(ESP := gpr c ESP - (12 + 4 * of_nat (length e)))" "sreg c1 = (sreg c)(CS := selector g)" "pc c1 = gate_offset g"
    unfolding d M(1) l(1) by (simp_all add: set_seg_def)
qed

lemma stub_regs:
  assumes "holds c (vs @ ws)" "length vs = 3" "length ws = 2" "kept m k c"
    and c1: "c1 = run call ([Cli, Pushl_imm 0, Pushl_imm n] @ common_entry h) c"
  shows "regs_at (memory c1) (load32 (memory c1) (gpr c1 ESP)) =
      \<lparr>r_gs = ucast (sreg c GS), r_fs = ucast (sreg c FS), r_ed = ucast (sreg c ES), r_ds = ucast (sreg c DS), r_edi = gpr c EDI, r_esi = gpr c ESI,
       r_ebp = gpr c EBP, r_esp = gpr c ESP - 8, r_ebx = gpr c EBX, r_edx = gpr c EDX, r_ecx = gpr c ECX, r_eax = gpr c EAX, int_no = n, err_code = 0,
       r_eip = vs ! 0, r_cs = vs ! 1, r_eflags = vs ! 2, r_usresp = ws ! 0, r_ss = ws ! 1\<rparr>"
    and "gpr c1 EAX = h" "kept m (k + 60) c1"
proof -
  obtain a b d where vs: "vs = [a, b, d]" using assms(2) by (auto simp: numeral_3_eq_3 length_Suc_conv)
  obtain u w where ws: "ws = [u, w]" using assms(3) by (auto simp: numeral_2_eq_2 length_Suc_conv)
  have l: "length (vs @ ws) < 100" using assms(2,3) by simp
  note E = entry_state [OF assms(1,4) l c1]
  have sp: "gpr c1 ESP = gpr c ESP - 60" and "gpr c1 EAX = h" by (subst E(3), simp)+
  then show "gpr c1 EAX = h" "kept m (k + 60) c1" using E(2) by simp_all
  have arg: "load32 (memory c1) (gpr c1 ESP) = gpr c ESP - 56" using holds_loads [OF E(1), of 0] by simp
  have "regs_at (memory c1) (gpr c ESP - 56) =
      \<lparr>r_gs = ucast (sreg c GS), r_fs = ucast (sreg c FS), r_ed = ucast (sreg c ES), r_ds = ucast (sreg c DS), r_edi = gpr c EDI, r_esi = gpr c ESI,
       r_ebp = gpr c EBP, r_esp = gpr c ESP - 8, r_ebx = gpr c EBX, r_edx = gpr c EDX, r_ecx = gpr c ECX, r_eax = gpr c EAX, int_no = n, err_code = 0,
       r_eip = a, r_cs = b, r_eflags = d, r_usresp = u, r_ss = w\<rparr>"
    by (rule regs_at_holds) (use E(1) sp in \<open>simp_all add: vs ws\<close>)
  then show "regs_at (memory c1) (load32 (memory c1) (gpr c1 ESP)) =
      \<lparr>r_gs = ucast (sreg c GS), r_fs = ucast (sreg c FS), r_ed = ucast (sreg c ES), r_ds = ucast (sreg c DS), r_edi = gpr c EDI, r_esi = gpr c ESI,
       r_ebp = gpr c EBP, r_esp = gpr c ESP - 8, r_ebx = gpr c EBX, r_edx = gpr c EDX, r_ecx = gpr c ECX, r_eax = gpr c EAX, int_no = n, err_code = 0,
       r_eip = vs ! 0, r_cs = vs ! 1, r_eflags = vs ! 2, r_usresp = ws ! 0, r_ss = ws ! 1\<rparr>" unfolding arg by (simp add: vs ws)
qed

lemma holds_top: "holds c [load32 (memory c) (gpr c ESP), load32 (memory c) (gpr c ESP + 4)]"
  by (auto simp: holds_def less_Suc_eq)

text \<open>
  C27: an interrupt request is transparent. From any state of the processor, the request \<open>n\<close> goes through its gate and its stub into the
  dispatcher, which finds the number \<open>32 + n\<close> and the whole interrupted state in its argument; up to the call, no memory has changed but the
  72 bytes under the stack pointer. When the dispatcher has returned, by the calling convention, the stub restores every register: the
  processor is where it was, with the memory that the dispatcher has left.
\<close>

theorem irq_stub_transparent:
  assumes "cdecl call h" and "c0 = deliver g None c" "c1 = run call (irq_entry h n) c0"
  shows "gpr c1 EAX = h \<and> regs_at (memory c1) (load32 (memory c1) (gpr c1 ESP)) =
      \<lparr>r_gs = ucast (sreg c GS), r_fs = ucast (sreg c FS), r_ed = ucast (sreg c ES), r_ds = ucast (sreg c DS), r_edi = gpr c EDI, r_esi = gpr c ESI,
       r_ebp = gpr c EBP, r_esp = gpr c ESP - 20, r_ebx = gpr c EBX, r_edx = gpr c EDX, r_ecx = gpr c ECX, r_eax = gpr c EAX, int_no = n + 32, err_code = 0,
       r_eip = pc c, r_cs = ucast (sreg c CS), r_eflags = eflags c, r_usresp = load32 (memory c) (gpr c ESP), r_ss = load32 (memory c) (gpr c ESP + 4)\<rparr> \<and>
    (\<forall>a. 72 \<le> unat (a - gpr c1 ESP) \<longrightarrow> memory c1 a = memory c a) \<and>
    run call (irq_stub h n) c0 = c\<lparr>memory := memory (call h c1)\<rparr>"
proof -
  note D = deliver_state [OF assms(2) refl holds_top]
  have h: "holds c0 ([pc c, ucast (sreg c CS), eflags c] @ [load32 (memory c) (gpr c ESP), load32 (memory c) (gpr c ESP + 4)])" using D(1) by simp
  then have h3: "holds c0 [pc c, ucast (sreg c CS), eflags c]" by (auto simp: holds_def nth_append less_Suc_eq)
  have g: "gpr c0 = (gpr c)(ESP := gpr c ESP - 12)" "sreg c0 = (sreg c)(CS := selector g)" and k: "kept (memory c) 12 c0" using D(2-4) by simp_all
  have c1: "c1 = run call ([Cli, Pushl_imm 0, Pushl_imm (n + 32)] @ common_entry h) c0" using assms(3) by (simp add: irq_entry_def)
  note R = stub_regs [OF h _ _ k c1]
  have "run call (irq_stub h n) c0 = c\<lparr>memory := memory (call h c1)\<rparr>"
    using stub_returns [OF assms(1) h3 c1] g unfolding irq_stub_def irq_entry_def by simp
  moreover have "kept (memory c) 72 c1" using R(3) by simp
  ultimately show ?thesis using R(1,2) g unfolding kept_def by simp
qed

text \<open>
  Exceptions with an error code. The processor pushes the error code, and the stub pushes another word in its place, so that
  everything behind it is read one word too early: the dispatcher finds 0 as the error code, the error code as the instruction
  pointer, and the instruction pointer as the code segment. If the dispatcher returned, the stub would continue at the error code.
\<close>

theorem isr_error_code_lost:
  assumes "cdecl call h" and "c0 = deliver g (Some err) c" "c1 = run call (isr_entry h n) c0"
    and "r = regs_at (memory c1) (load32 (memory c1) (gpr c1 ESP))"
  shows "int_no r = n \<and> err_code r = 0 \<and> r_eip r = err \<and> r_cs r = pc c \<and> r_eflags r = ucast (sreg c CS) \<and> r_usresp r = eflags c \<and>
    pc (run call (isr_stub h n) c0) = err \<and> gpr (run call (isr_stub h n) c0) ESP = gpr c ESP - 4"
proof -
  note D = deliver_state [OF assms(2) refl holds_top]
  have h: "holds c0 ([err, pc c, ucast (sreg c CS)] @ [eflags c, load32 (memory c) (gpr c ESP)])" using D(1) by (auto simp: holds_def nth_append less_Suc_eq)
  then have h3: "holds c0 [err, pc c, ucast (sreg c CS)]" by (auto simp: holds_def nth_append less_Suc_eq)
  have g: "gpr c0 = (gpr c)(ESP := gpr c ESP - 16)" and k: "kept (memory c) 16 c0" using D(2,3) by simp_all
  have c1: "c1 = run call ([Cli, Pushl_imm 0, Pushl_imm n] @ common_entry h) c0" using assms(3) by (simp add: isr_entry_def)
  note R = stub_regs [OF h _ _ k c1]
  show ?thesis using R(1) stub_returns [OF assms(1) h3 c1] g unfolding isr_stub_def isr_entry_def assms(4) by simp
qed

text \<open>A processor in the middle of the kernel, and a function that changes only the registers it may change.\<close>

definition demo_cpu :: cpu where
  "demo_cpu = \<lparr>gpr = (\<lambda>r. if r = ESP then 0x108000 else 5), sreg = (\<lambda>g. if g = CS then 8 else 16), pc = 0x101234, eflags = 0x202, memory = (\<lambda>_. 0)\<rparr>"

definition demo_call :: "u32 \<Rightarrow> cpu \<Rightarrow> cpu" where
  "demo_call h c = c\<lparr>gpr := (gpr c)(EAX := 1, ECX := 2, EDX := 3), pc := 0x102345\<rparr>"

lemma demo_cdecl: "cdecl demo_call h"
  by (simp add: cdecl_def demo_call_def)

theorem irq_stub_transparent_witness:
  "\<exists>m. run demo_call (irq_stub 0x103000 1) (deliver (gate 0x102000) None demo_cpu) = demo_cpu\<lparr>memory := m\<rparr>"
  using irq_stub_transparent [OF demo_cdecl refl refl, of "0x103000" 1 "gate 0x102000" demo_cpu] by blast

section \<open>The start of the kernel\<close>

text \<open>The header that the boot loader looks for, and the instructions from \<open>_start\<close> to the calls.\<close>

definition multiboot_header :: "u32 list" where
  "multiboot_header = (let MAGIC = 0x1BADB002; FLAGS = push_bit 0 1 OR push_bit 1 1 in [MAGIC, FLAGS, - (MAGIC + FLAGS)])"

definition start :: "u32 \<Rightarrow> instr list" where
  "start stack_top = [Movl_imm ESP stack_top, Pushl_imm 0, Popfl, Pushl ESP, Pushl EAX, Pushl EBX]"

lemma multiboot_checksum: "hd multiboot_header = 0x1BADB002 \<and> sum_list multiboot_header = 0"
  by (simp add: multiboot_header_def Let_def)

text \<open>
  \<open>kernel_main\<close> finds its three arguments: what the boot loader left in EBX and EAX, and the top of the stack; the flags are clear.
\<close>

theorem start_arguments:
  assumes "c1 = run call (start stack_top) c"
  shows "holds c1 [gpr c EBX, gpr c EAX, stack_top] \<and> gpr c1 ESP = stack_top - 12 \<and> eflags c1 = 0"
proof -
  let ?c = "c\<lparr>gpr := (gpr c)(ESP := stack_top), eflags := 0, memory := store32 (stack_top - 4) 0 (memory c)\<rparr>"
  have c1: "c1 = push (gpr c EBX) (push (gpr c EAX) (push stack_top ?c))"
    using assms by (simp add: run_def start_def set_reg_def pop_def push_def load32_store32)
  have "holds ?c []" by (simp add: holds_def)
  then have "holds c1 [gpr c EBX, gpr c EAX, stack_top]" unfolding c1 by (intro holds_push) simp_all
  then show ?thesis unfolding c1 by simp
qed

section \<open>Reading the instruction pointer\<close>

definition get_eip :: "instr list" where
  "get_eip = [Popl EAX, Jmp EAX]"

text \<open>
  Called with its return address on the stack, \<open>get_eip\<close> returns that address, to it, with the stack as after a return: the value is the
  address of the instruction behind the call, where \<open>fork\<close> and \<open>switch_proc\<close> let a process continue.
\<close>

theorem get_eip_returns:
  assumes "holds c (ip # vs)" "c1 = run call get_eip c"
  shows "gpr c1 = (gpr c)(EAX := ip, ESP := gpr c ESP + 4) \<and> pc c1 = ip \<and> memory c1 = memory c \<and> holds c1 vs"
  using holds_pop [OF assms(1)] assms(2)
  by (auto simp: run_def get_eip_def pop_reg_def set_reg_def fun_upd_twist intro: holds_cong)

end
