(* ===== verification/Faults.thy ===== *)
theory Faults
  imports System Stubs
begin

text \<open>
  Exceptions from the processor to the screen: the stub (theory \<open>Stubs\<close>), the dispatcher with the page fault handler that \<open>vm_initialize\<close>
  registers, and the text that is on the console when the machine has halted.
\<close>

section \<open>The text of a page fault\<close>

definition fault_flags :: "u32 \<Rightarrow> string" where
  "fault_flags err =
     (if err AND PAGE_PRESENT = 0 then ''present'' else []) @ (if err AND PAGE_RW \<noteq> 0 then ''read-only'' else []) @
     (if err AND PAGE_USER \<noteq> 0 then ''user-mode'' else []) @ (if err AND PAGE_WRITETHRU \<noteq> 0 then ''reserved'' else [])"

definition page_fault_text :: "u32 \<Rightarrow> u32 \<Rightarrow> u8 list" where
  "page_fault_text cr2 err =
     text_bytes (''Page fault ('' @ fault_flags err @ '') at 0x'') @ int_text 16 False cr2 @ text_bytes (''\<newline>\<newline>'' @ page_fault_message err @ ''\<newline>'') @
     text_bytes ''PANIC(page fault) at arch/i386/vm.c : 606\<newline>''"

lemma fmt_fault:
  "fmt_spec (text_bytes ''Page fault (%s%s%s%s) at %x\<newline>'') [StrArg a, StrArg b, StrArg c, StrArg d, IntArg v] =
     Some (text_bytes ''Page fault ('' @ a @ b @ c @ d @ text_bytes '') at 0x'' @ int_text 16 False v @ [10])"
  by (simp add: is_directive_def)

lemma fmt_plain: "37 \<notin> set cs \<Longrightarrow> fmt_spec cs args = Some cs"
  using fmt_spec_chunk [of cs "[]" args] by simp

lemma message_plain: "37 \<notin> set (text_bytes (page_fault_message err))" "length (page_fault_message err) \<le> 100"
  by (simp_all add: page_fault_message_def Let_def)

lemma fmt_panic:
  "fmt_spec (text_bytes ''PANIC(%s) at %s : %d\<newline>'') [StrArg a, StrArg b, IntArg 606] = Some (text_bytes ''PANIC('' @ a @ text_bytes '') at '' @ b @ text_bytes '' : 606\<newline>'')"
proof -
  have "int_text 10 True 606 = text_bytes ''606''" by code_simp
  then show ?thesis by (simp add: is_directive_def)
qed

context console
begin

lemma printf_text:
  assumes "inv s" "fmt_spec fmt args = Some x" "length x \<le> 1000"
  obtains n s' where "printf put fmt args s = Inr (n, s')" "inv s'" "out s' = out s @ x"
  using printf_ok [OF assms(1,2)] assms(3) by auto

lemma page_fault_ok:
  assumes "inv s"
  shows "\<exists>s'. page_fault put cr2 r s = Inr (Halted s') \<and> inv s' \<and> out s' = out s @ page_fault_text cr2 (err_code r)"
proof -
  let ?opt = "\<lambda>b str. text_bytes (if b then str else [])" and ?e = "err_code r" and ?m = "page_fault_message (err_code r)"
  let ?a = "?opt (?e AND PAGE_PRESENT = 0) ''present''" and ?b = "?opt (?e AND PAGE_RW \<noteq> 0) ''read-only''"
    and ?c = "?opt (?e AND PAGE_USER \<noteq> 0) ''user-mode''" and ?d = "?opt (?e AND PAGE_WRITETHRU \<noteq> 0) ''reserved''"
  have l1: "length (text_bytes ''Page fault ('' @ ?a @ ?b @ ?c @ ?d @ text_bytes '') at 0x'' @ int_text 16 False cr2 @ [10]) \<le> 1000"
    using length_int_text(1) [of cr2] by auto
  have p: "37 \<notin> set (text_bytes (''\<newline>'' @ ?m))" "37 \<notin> set (text_bytes ''\<newline>'')" using message_plain(1) [of ?e] by auto
  obtain n1 s1 where s1: "printf put (text_bytes ''Page fault (%s%s%s%s) at %x\<newline>'') [StrArg ?a, StrArg ?b, StrArg ?c, StrArg ?d, IntArg cr2] s = Inr (n1, s1)"
    "inv s1" "out s1 = out s @ text_bytes ''Page fault ('' @ ?a @ ?b @ ?c @ ?d @ text_bytes '') at 0x'' @ int_text 16 False cr2 @ [10]"
    by (rule printf_text [OF assms fmt_fault l1])
  obtain n2 s2 where s2: "printf put (text_bytes (''\<newline>'' @ ?m)) [] s1 = Inr (n2, s2)" "inv s2" "out s2 = out s1 @ text_bytes (''\<newline>'' @ ?m)"
    by (rule printf_text [OF s1(2) fmt_plain [OF p(1)]]) (use message_plain(2) [of ?e] in auto)
  obtain n3 s3 where s3: "printf put (text_bytes ''\<newline>'') [] s2 = Inr (n3, s3)" "inv s3" "out s3 = out s2 @ text_bytes ''\<newline>''"
    by (rule printf_text [OF s2(2) fmt_plain [OF p(2)]]) auto
  let ?file = "text_bytes ''arch/i386/vm.c''"
  have l4: "length (text_bytes ''PANIC('' @ text_bytes ''page fault'' @ text_bytes '') at '' @ ?file @ text_bytes '' : 606\<newline>'') \<le> 1000" by simp
  obtain n4 s4 where s4: "panic put (text_bytes ''page fault'') ?file 606 s3 = Inr (n4, s4)" "inv s4"
    "out s4 = out s3 @ text_bytes ''PANIC('' @ text_bytes ''page fault'' @ text_bytes '') at '' @ ?file @ text_bytes '' : 606\<newline>''"
    unfolding panic_def by (rule printf_text [OF s3(2) fmt_panic l4])
  have "page_fault put cr2 r s = Inr (Halted s4)" unfolding page_fault_def Let_def s1(1) using s2(1) s3(1) s4(1) by simp
  moreover have "out s4 = out s @ page_fault_text cr2 ?e" unfolding s4(3) s3(3) s2(3) s1(3) page_fault_text_def fault_flags_def by simp
  ultimately show ?thesis using s4(2) by blast
qed

end

section \<open>Exceptions\<close>

text \<open>The table of exception handlers after \<open>vm_initialize\<close>.\<close>

definition fault_table :: "handler option list" where
  "fault_table = (replicate 256 None)[14 := Some Page_fault]"

definition exception_text :: "u32 \<Rightarrow> u32 \<Rightarrow> u32 \<Rightarrow> u8 list" where
  "exception_text v err cr2 =
     (if v = 14 then page_fault_text cr2 err
      else text_bytes (''\<newline>Exception. System halted.\<newline>'' @ exception_messages ! unat v @ ''\<newline>''))"

lemma puts_ok:
  assumes "term_ok t" "length str \<le> 100"
  obtains n t' where "puts putchar (text_bytes str) t = Inr (n, t')" "term_ok t'" "serial_out t' = serial_out t @ text_bytes (str @ ''\<newline>'')"
proof -
  have f: "fmt_spec [37, 115, 10] [StrArg (text_bytes str)] = Some (text_bytes (str @ ''\<newline>''))" by (simp add: is_directive_def)
  show thesis
    by (rule tty_console.printf_text [OF assms(1) f]) (use assms(2) that in \<open>auto simp: puts_def\<close>)
qed

lemma exception_message_length: "v < 32 \<Longrightarrow> length (exception_messages ! v) \<le> 100" "length exception_messages = 32"
proof -
  have "\<forall>m \<in> set exception_messages. length m \<le> 100" by code_simp
  moreover show l: "length exception_messages = 32" by code_simp
  ultimately show "length (exception_messages ! v) \<le> 100" if "v < 32" using that by (metis nth_mem)
qed

lemma handle_exception_halts:
  assumes "term_ok (s_tty s)" "interrupt_handlers (s_ints s) = fault_table" "int_no r < 32"
  shows "\<exists>t. handle_exception fp_gt x r s = Inr (Halted (s\<lparr>s_tty := t\<rparr>)) \<and> term_ok t \<and>
    serial_out t = serial_out (s_tty s) @ exception_text (int_no r) (err_code r) (in_cr2 x)"
proof (cases "int_no r = 14")
  case True
  obtain t where "page_fault putchar (in_cr2 x) r (s_tty s) = Inr (Halted t)" "term_ok t"
    "serial_out t = serial_out (s_tty s) @ page_fault_text (in_cr2 x) (err_code r)" using tty_console.page_fault_ok [OF assms(1)] by blast
  moreover from this have "handle_exception fp_gt x r s = Inr (Halted (s\<lparr>s_tty := t\<rparr>))"
    using True assms(2) by (simp add: handle_exception_def exception_handler_def fault_table_def run_handler_def)
  ultimately show ?thesis using True by (auto simp: exception_text_def)
next
  case False
  let ?v = "unat (int_no r)"
  have v: "?v < 32" "?v \<noteq> 14" using assms(3) False by (auto simp: word_less_nat_alt word_unat_eq_iff)
  have h: "fault_table ! ?v = None" "length fault_table = 256" using v by (simp_all add: fault_table_def)
  have l: "length ''\<newline>Exception. System halted.'' \<le> 100" by simp
  obtain n t where t: "puts putchar (text_bytes ''\<newline>Exception. System halted.'') (s_tty s) = Inr (n, t)" "term_ok t"
    "serial_out t = serial_out (s_tty s) @ text_bytes (''\<newline>Exception. System halted.'' @ ''\<newline>'')" by (rule puts_ok [OF assms(1) l])
  obtain n' t' where t': "puts putchar (text_bytes (exception_messages ! ?v)) t = Inr (n', t')" "term_ok t'"
    "serial_out t' = serial_out t @ text_bytes (exception_messages ! ?v @ ''\<newline>'')" by (rule puts_ok [OF t(2) exception_message_length(1) [OF v(1)]])
  have "handle_exception fp_gt x r s = Inr (Halted (s\<lparr>s_tty := t'\<rparr>))"
    using assms(2,3) h v(1) t(1) t'(1) exception_message_length(2) by (simp add: handle_exception_def exception_handler_def)
  moreover have "serial_out t' = serial_out (s_tty s) @ exception_text (int_no r) (err_code r) (in_cr2 x)"
    using t(3) t'(3) False by (simp add: exception_text_def)
  ultimately show ?thesis using t'(2) by blast
qed

section \<open>Properties\<close>

text \<open>
  C28: every exception is reported and stops the machine. With the handler that \<open>vm_initialize\<close> registers, each of the exceptions 0 to 31 halts
  the system, from every state whose console is in order, without any other error, and the console has received exactly one report:
  that of \<open>page_fault\<close> with the address and the panic for exception 14, the two lines of \<open>exception_handler\<close> with the name of the exception for all others.
  Nothing else of the system has changed.
\<close>

theorem exception_reports:
  assumes "term_ok (s_tty s)" "interrupt_handlers (s_ints s) = replicate 256 None" "int_no r < 32"
  shows "\<exists>i t. register_interrupt_handler 14 Page_fault (s_ints s) = Inr i \<and>
    handle_exception fp_gt x r (s\<lparr>s_ints := i\<rparr>) = Inr (Halted (s\<lparr>s_ints := i, s_tty := t\<rparr>)) \<and>
    serial_out t = serial_out (s_tty s) @
      (if int_no r = 14 then page_fault_text (in_cr2 x) (err_code r)
       else text_bytes (''\<newline>Exception. System halted.\<newline>'' @ exception_messages ! unat (int_no r) @ ''\<newline>''))"
proof -
  let ?i = "(s_ints s)\<lparr>interrupt_handlers := fault_table\<rparr>"
  have "register_interrupt_handler 14 Page_fault (s_ints s) = Inr ?i"
    using assms(2) by (simp add: register_interrupt_handler_def arr_set_def fault_table_def)
  moreover obtain t where "handle_exception fp_gt x r (s\<lparr>s_ints := ?i\<rparr>) = Inr (Halted ((s\<lparr>s_ints := ?i\<rparr>)\<lparr>s_tty := t\<rparr>))"
    "serial_out t = serial_out (s_tty s) @ exception_text (int_no r) (err_code r) (in_cr2 x)"
    using handle_exception_halts [of "s\<lparr>s_ints := ?i\<rparr>" r fp_gt x] assms(1,3) by auto
  ultimately show ?thesis unfolding exception_text_def by (intro exI [of _ ?i] exI [of _ t]) simp
qed

theorem exception_reports_witness:
  "\<exists>i t. register_interrupt_handler 14 Page_fault (s_ints demo_sys) = Inr i \<and>
    handle_exception (\<lambda>_ _. False) \<lparr>in_ip = 0, in_scancode = 0, in_cr2 = 0\<rparr> (vector_regs 0) (demo_sys\<lparr>s_ints := i\<rparr>) =
      Inr (Halted (demo_sys\<lparr>s_ints := i, s_tty := t\<rparr>)) \<and>
    serial_out t = text_bytes ''\<newline>Exception. System halted.\<newline>Division By Zero\<newline>''"
proof -
  have d: "term_ok (s_tty demo_sys)" "interrupt_handlers (s_ints demo_sys) = replicate 256 None" "int_no (vector_regs 0) < 32" "int_no (vector_regs 0) = 0"
    "serial_out (s_tty demo_sys) = []" "exception_messages ! 0 = ''Division By Zero''"
    using tty0_ok(1,3) by (simp_all add: demo_sys_def ints_init_def vector_regs_def exception_messages_def)
  show ?thesis using exception_reports [OF d(1-3), of "\<lambda>_ _. False" "\<lparr>in_ip = 0, in_scancode = 0, in_cr2 = 0\<rparr>"] d(4-6) by simp
qed

text \<open>
  C29: the diagnosis of a page fault says nothing. Whatever error code the processor delivers with a page fault, reads and writes, user and
  supervisor, missing and protected pages, the stub hides it from the handler: the console shows the address of the fault and always the
  same text, that a user process has read a page that is not present.
\<close>

theorem page_fault_misreported:
  assumes "cdecl call h" "c0 = deliver g (Some err) c" "c1 = run call (isr_entry h 14) c0"
    and "r = regs_at (memory c1) (load32 (memory c1) (gpr c1 ESP))"
    and "term_ok (s_tty s)" "interrupt_handlers (s_ints s) = fault_table"
  shows "\<exists>t. handle_exception fp_gt x r s = Inr (Halted (s\<lparr>s_tty := t\<rparr>)) \<and>
    serial_out t = serial_out (s_tty s) @ text_bytes ''Page fault (present) at 0x'' @ int_text 16 False (in_cr2 x) @
      text_bytes ''\<newline>\<newline>User Process tried to read a non-present page entry.\<newline>PANIC(page fault) at arch/i386/vm.c : 606\<newline>''"
proof -
  have r: "int_no r = 14" "err_code r = 0" using isr_error_code_lost [OF assms(1-4)] by blast+
  have "page_fault_text (in_cr2 x) 0 = text_bytes ''Page fault (present) at 0x'' @ int_text 16 False (in_cr2 x) @
      text_bytes ''\<newline>\<newline>User Process tried to read a non-present page entry.\<newline>PANIC(page fault) at arch/i386/vm.c : 606\<newline>''"
    by (simp add: page_fault_text_def fault_flags_def page_fault_message_def Let_def)
  then show ?thesis using handle_exception_halts [OF assms(5,6), of r fp_gt x] r unfolding exception_text_def by auto
qed

theorem page_fault_misreported_witness:
  "\<exists>t. handle_exception (\<lambda>_ _. False) \<lparr>in_ip = 0, in_scancode = 0, in_cr2 = 0x10\<rparr>
      (let c1 = run demo_call (isr_entry 0x103000 14) (deliver (gate 0x102000) (Some 7) demo_cpu) in regs_at (memory c1) (load32 (memory c1) (gpr c1 ESP)))
      (demo_sys\<lparr>s_ints := ints_init\<lparr>interrupt_handlers := fault_table\<rparr>\<rparr>) =
      Inr (Halted (demo_sys\<lparr>s_ints := ints_init\<lparr>interrupt_handlers := fault_table\<rparr>, s_tty := t\<rparr>)) \<and>
    serial_out t = text_bytes ''Page fault (present) at 0x10'' @
      text_bytes ''\<newline>\<newline>User Process tried to read a non-present page entry.\<newline>PANIC(page fault) at arch/i386/vm.c : 606\<newline>''"
proof -
  let ?s = "demo_sys\<lparr>s_ints := ints_init\<lparr>interrupt_handlers := fault_table\<rparr>\<rparr>" and ?x = "\<lparr>in_ip = 0, in_scancode = 0, in_cr2 = 0x10\<rparr>"
  have d: "term_ok (s_tty ?s)" "interrupt_handlers (s_ints ?s) = fault_table" "serial_out (s_tty ?s) = []"
    using tty0_ok(1,3) by (simp_all add: demo_sys_def)
  have i: "int_text 16 False (in_cr2 ?x) = text_bytes ''10''" by code_simp
  show ?thesis
    using page_fault_misreported [where h = "0x103000" and g = "gate 0x102000" and err = 7 and c = demo_cpu and fp_gt = "\<lambda>_ _. False" and x = ?x,
      OF demo_cdecl refl refl refl d(1,2)] d(3)
    unfolding i Let_def by simp
qed

end
