(* ===== verification/Spec2Isabelle.thy ===== *)
theory Spec2Isabelle
  imports Keyboard Proc_Spec Avl_Print Initrd_Spec Faults
begin

text \<open>
  A verification development for ShigureOS, a small kernel for i386 with a C library and a tool that builds its RAM disk.

  \<^bold>\<open>The program.\<close> The boot loader starts \<open>kernel_main\<close> (\<^verbatim>\<open>kernel/kernel/kernel.c\<close>). It installs the
  descriptor tables and interrupt handlers (\<^verbatim>\<open>gdt.c\<close>, \<^verbatim>\<open>idt.c\<close>, \<^verbatim>\<open>isr.c\<close>, \<^verbatim>\<open>irq.c\<close>) and
  the drivers of the serial port, the VGA terminal, the timer and the keyboard (\<^verbatim>\<open>serial.c\<close>, \<^verbatim>\<open>tty.c\<close>,
  \<^verbatim>\<open>timer.c\<close>, \<^verbatim>\<open>kb.c\<close>), reads the memory map and sets up the frame allocator (\<^verbatim>\<open>pm.c\<close>), builds page
  tables and the kernel heap (\<^verbatim>\<open>vm.c\<close>), moves its stack and makes the first process (\<^verbatim>\<open>proc.c\<close>), turns
  the RAM disk into a file system (\<^verbatim>\<open>initrd.c\<close>, \<^verbatim>\<open>fs.c\<close>) and runs a shell (\<^verbatim>\<open>sh.c\<close>). The image of
  the RAM disk is written at build time by \<^verbatim>\<open>initrd_builder.c\<close>. All files are under \<^verbatim>\<open>src/\<close>, those of the kernel in
  \<^verbatim>\<open>kernel/arch/i386\<close>.

  \<^bold>\<open>Conventions.\<close> Machine integers are words of their width, so arithmetic wraps as in the code; C \<open>int\<close>s that only
  count are \<open>int\<close> or \<open>nat\<close>. An operation that can fail returns \<open>'a res\<close>: an error (an index out of bounds, a
  dereference of \<open>NULL\<close> or of an address without an object, \<open>panic\<close>, a busy wait that nobody ends, a bound that is used up) or the
  result with the new state. Structures that the code reaches through pointers live in stores, one per type, from addresses to
  records; arrays are lists with checked indices; memory that is used as bytes is a function from addresses to bytes.

  \<^bold>\<open>Theories.\<close>
  \<^item> \<open>Prelude\<close>: words, errors, bounded loops, arrays, the \<open>ALIGN\<close> macro.
  \<^item> \<open>Pm\<close> (\<^verbatim>\<open>pm.c\<close>): the buddy bitmaps and every operation on them. The invariant \<open>buddy_inv\<close> relates the bitmaps of
    all orders to the set of free frames; \<open>pmalloc\<close> and \<open>pfree\<close> are shown on it for single frames and blocks, where \<open>pmalloc\<close> returns the first free block; for
    \<open>pfree\<close>, exactly which blocks around a frame it marks free, used frames among them. The bitmaps must have a bit for every frame at every order, which they have
    when the number of frames is a multiple of 128.
  \<^item> \<open>Vm_State\<close>, \<open>Avl\<close>, \<open>Pages\<close>, \<open>Kheap\<close>, \<open>Paging\<close> (\<^verbatim>\<open>vm.c\<close>, \<^verbatim>\<open>vm.h\<close>): the tree of free blocks,
    page table entries, the heap with its reentrant calls, cloning of address spaces, \<open>vm_initialize\<close> and page faults.
    \<open>Avl_Spec\<close> shows that the tree functions refine functions on trees and sorted lists of blocks, \<open>Avl_Print\<close> what the listing of a tree prints; \<open>Kheap_Spec\<close> has the invariant
    of the heap (\<open>heap_inv\<close>) and what \<open>kmalloc\<close> and \<open>kfree\<close> do to the set of free bytes, with the conditions under which they crash or hand out memory they must not: rotations
    that read a missing child (\<open>ins_ok\<close> does not hold), no room for the node of a freed block, ends of blocks and of the heap that wrap around; \<open>Kheap_Alloc\<close> the contract that the
    clients of the heap use, as the locale \<open>block_allocator\<close>. The messages of the heap are collected in its state (\<open>vm_out\<close>) and printed by the callers; \<open>Paging_Spec\<close> has the walk of the processor through
    directory and tables (\<open>translate\<close>) and shows what it finds when \<open>vm_initialize\<close> turns paging on, and where the heap descriptor is put next; \<open>Clone_Spec\<close> the copies of page tables and directories.
  \<^item> \<open>Interrupts\<close> (\<^verbatim>\<open>gdt.c\<close>, \<^verbatim>\<open>idt.c\<close>, \<^verbatim>\<open>isr.c\<close>, \<^verbatim>\<open>irq.c\<close>): the tables as the processor
    reads them, the registers that hold them (\<^verbatim>\<open>asm/gdt.S\<close>, \<^verbatim>\<open>asm/idt.S\<close>), and dispatch with its messages.
  \<^item> \<open>Stubs\<close> (\<^verbatim>\<open>asm/isr.S\<close>, \<^verbatim>\<open>asm/irq.S\<close>, \<^verbatim>\<open>asm/boot.S\<close>, \<open>get_eip\<close> of \<^verbatim>\<open>asm/proc.S\<close>): the assembly between processor and dispatch as lists of
    instructions on registers and memory. A request leaves every register as it was; an exception with an error code does not reach its handler as the processor delivered it.
  \<^item> \<open>Memory\<close> (\<^verbatim>\<open>libc/string\<close>): the copy and string functions on byte memory.
  \<^item> \<open>Proc\<close>, \<open>Proc_Spec\<close> (\<^verbatim>\<open>proc.c\<close>, \<^verbatim>\<open>timer.c\<close>): processes, the scheduler, the stack that is moved,
    uptime and the busy wait.
  \<^item> \<open>Keyboard\<close> (\<^verbatim>\<open>kb.c\<close>): the ring buffer, which interprets the locale of a bounded queue, and all interleavings of handler and reader.
  \<^item> \<open>Tty\<close>, \<open>Tty_Spec\<close> (\<^verbatim>\<open>serial.c\<close>, \<^verbatim>\<open>tty.c\<close>, \<^verbatim>\<open>vga.h\<close>): the console; a character is one operation on a screen
    of 25 lines. \<open>Printf\<close> (\<^verbatim>\<open>libc/stdio\<close>, \<^verbatim>\<open>abort.c\<close>) proves formatted output once, against the contract of \<open>putchar\<close> (the
    locale \<open>console\<close>), which the terminal interprets.
  \<^item> \<open>Fs\<close> (\<^verbatim>\<open>fs.c\<close>, \<^verbatim>\<open>initrd.c\<close>), \<open>Initrd_Builder\<close> (\<^verbatim>\<open>initrd_builder.c\<close>) and \<open>Initrd_Spec\<close>: the RAM disk and the round trip
    from the files of the build machine to the bytes that a read returns in the kernel.
  \<^item> \<open>Shell\<close>, \<open>Shell_Spec\<close> (\<^verbatim>\<open>sh.c\<close>, \<^verbatim>\<open>kernel.c\<close>): the state of the whole system, the shell and the start of the kernel;
    a round of the shell runs the line that was typed.
  \<^item> \<open>System\<close>: interrupts and kernel as one transition system from the installation of the devices on, with the joint invariant, before and after the
    first process exists.
  \<^item> \<open>Faults\<close>: exceptions from the stub to the report on the console.

  \<^bold>\<open>Bounds.\<close> Recursion on the heap takes a depth \<open>d\<close>; the theorems ask for more than the number of nodes of the tree, and then
  the bound is never used up. The loops over pages run at most \<open>2 ^ 20\<close> times, as many as there are pages, the loop over the words of a stack
  \<open>2 ^ 30\<close> times, as many as there are words. The walk along the queue of processes is bounded by \<open>next_pid\<close>, the listing of a directory by
  the number of its entries, the loop of the line editor by the characters that can arrive. Busy waits and searches for a zero byte are partial
  functions. The endless loop of the shell is cut off after a number of commands.

  \<^bold>\<open>Parameters.\<close> What the linker and the boot loader decide (the record \<open>layout\<close>: the addresses of the tables and of the stubs, the size of the kernel; the
  memory map), what the machine shows to a handler (the record \<open>inputs\<close>: the value that \<open>get_eip\<close> returns, the byte of the keyboard, the address of a fault), the contents of fresh
  memory, the answers of devices, the C function that a stub calls (\<open>cdecl\<close> is the calling convention), and the outcome of the one comparison in floating point (\<open>fp_gt_ok\<close> says what
  is used of it).

  \<^bold>\<open>Not modelled.\<close> The init sections (\<^verbatim>\<open>crti.S\<close>, \<^verbatim>\<open>crtn.S\<close>), which are completed by the compiler, and the linker script; the constants and structures of
  \<^verbatim>\<open>multiboot.h\<close> that no code reads; on the build machine, the command line of the builder and errors of its output file. Stores of different types never overlap in the model; where two structures
  of the program share memory, as after \<open>vm_initialize\<close>, a theorem says so about their addresses.
\<close>

end
